theory Spec2Isabelle
  imports Main "HOL-Library.Word" "HOL-Library.Multiset" "HOL-Library.Char_ord"
    "HOL-Library.List_Lexorder"
begin

section \<open>Data model\<close>

text \<open>
  The model follows the scanner with index support (\<^verbatim>\<open>findDuplicates(dir, options)\<close>,
  \<^verbatim>\<open>scanDirectory\<close> with exclusion patterns and a database handle) together with
  \<^verbatim>\<open>database.mjs\<close>.  The scanner of \<^verbatim>\<open>scanner.mjs\<close> is the same code without the
  exclusion test, the index and the progress reports.
\<close>

type_synonym byte = "8 word"

text \<open>An error of the program: the rejected promise or the thrown \<^verbatim>\<open>Error\<close>.\<close>

datatype error =
    StatFailed string
  | ReadFailed string
  | ScanFailed string
  | FindFailed error
  | OpenFailed string

text \<open>
  What the operating system answers for a path that names a regular file: the content,
  the two time stamps \<^verbatim>\<open>fs.stat\<close> reports, whether \<^verbatim>\<open>fs.stat\<close> fails, and where
  reading fails: never, when the file is opened, or when the byte at an offset is read.
\<close>

datatype fault = NoFault | OpenFault | FaultAt nat

record regfile =
  content :: "byte list"
  birthtime :: int
  mtime :: int
  stat_fault :: bool
  read_fault :: fault

text \<open>\<^verbatim>\<open>FileInfo\<close>; \<^verbatim>\<open>size\<close> is written \<open>fsize\<close>.\<close>

record fileinfo =
  path :: string
  name :: string
  fsize :: nat
  formattedSize :: string
  created :: int
  modified :: int
  quickHash :: string
  hash :: "string option"

section \<open>Hash provider\<close>

text \<open>
  A read stream hands its data over in chunks of at most \<^verbatim>\<open>highWaterMark\<close> bytes
  (64 KiB for a file stream).
\<close>

definition highWaterMark :: nat where
  "highWaterMark = 65536"

function chunks :: "nat \<Rightarrow> 'a list \<Rightarrow> 'a list list" where
  "chunks n xs = (if n = 0 \<or> xs = [] then [] else take n xs # chunks n (drop n xs))"
  by pat_completeness auto
termination
  by (relation "measure (\<lambda>(n, xs). length xs)") auto

declare chunks.simps [simp del]

text \<open>
  \<^verbatim>\<open>createReadStream(filePath, { start, end })\<close>: the bytes from \<open>start\<close> up to and
  including \<open>end\<close> (to the end of the file when no \<open>end\<close> is given), as the list of
  chunks of the \<^verbatim>\<open>data\<close> events when the stream ends, or the error of the
  \<^verbatim>\<open>error\<close> event.  A fault at an offset is met only when that byte is in the range read.
\<close>

definition stream_range :: "regfile \<Rightarrow> nat \<Rightarrow> nat option \<Rightarrow> byte list" where
  "stream_range f start fin =
     (case fin of
        None \<Rightarrow> drop start (content f)
      | Some e \<Rightarrow> take (e + 1 - start) (drop start (content f)))"

definition createReadStream ::
  "string \<Rightarrow> regfile \<Rightarrow> nat \<Rightarrow> nat option \<Rightarrow> error + byte list list" where
  "createReadStream filePath f start fin =
     (case read_fault f of
        OpenFault \<Rightarrow> Inl (ReadFailed filePath)
      | FaultAt k \<Rightarrow>
          if start \<le> k \<and> k < start + length (stream_range f start fin)
          then Inl (ReadFailed filePath)
          else Inr (chunks highWaterMark (stream_range f start fin))
      | NoFault \<Rightarrow> Inr (chunks highWaterMark (stream_range f start fin)))"

text \<open>
  \<^verbatim>\<open>crypto.createHash("sha256")\<close>: the hash object is the message fed to it so far,
  \<^verbatim>\<open>update\<close> appends a chunk, and \<^verbatim>\<open>digest("hex")\<close> is the digest of the whole
  message.  The digest function itself (SHA-256, in hexadecimal) is a parameter.
\<close>

definition createHash :: "byte list" where
  "createHash = []"

definition update_hash :: "byte list \<Rightarrow> byte list \<Rightarrow> byte list" where
  "update_hash h d = h @ d"

definition hash_digest :: "(byte list \<Rightarrow> string) \<Rightarrow> byte list \<Rightarrow> string" where
  "hash_digest sha h = sha h"

definition calculateHash :: "(byte list \<Rightarrow> string) \<Rightarrow> string \<Rightarrow> regfile \<Rightarrow> error + string" where
  "calculateHash sha filePath f =
     (case createReadStream filePath f 0 None of
        Inl e \<Rightarrow> Inl e
      | Inr cs \<Rightarrow> Inr (hash_digest sha (foldl update_hash createHash cs)))"

definition calculateQuickHash ::
  "(byte list \<Rightarrow> string) \<Rightarrow> string \<Rightarrow> regfile \<Rightarrow> error + string" where
  "calculateQuickHash sha filePath f =
     (case createReadStream filePath f 0 (Some 65535) of
        Inl e \<Rightarrow> Inl e
      | Inr cs \<Rightarrow> Inr (hash_digest sha (foldl update_hash createHash cs)))"

text \<open>Hexadecimal text of bytes, \<^verbatim>\<open>Buffer.toString("hex")\<close>.\<close>

definition hex_digit :: "nat \<Rightarrow> char" where
  "hex_digit d = (''0123456789abcdef'') ! (d mod 16)"

definition byte_hex :: "byte \<Rightarrow> string" where
  "byte_hex b = [hex_digit (unat b div 16), hex_digit (unat b mod 16)]"

definition toString_hex :: "byte list \<Rightarrow> string" where
  "toString_hex bs = concat (map byte_hex bs)"

section \<open>Environment\<close>

text \<open>
  What the program takes from its platform: the working directory, the path functions of
  \<^verbatim>\<open>path\<close>, the glob matcher \<^verbatim>\<open>minimatch\<close>, SHA-256, the files behind the paths,
  the random bytes of \<^verbatim>\<open>crypto.randomBytes\<close>, the readings of \<^verbatim>\<open>Date.now()\<close>, and
  the paths at which SQLite can open a database file or create one (\<open>db_openable\<close>: the
  directory is there and can be written, and a file already there is a database).
  \<open>format_size\<close> is the text \<^verbatim>\<open>formatFileSize(bytes).formatted\<close>, a floating-point
  formatting; its \<^verbatim>\<open>raw\<close> field is the byte count itself.
\<close>

record env =
  cwd :: string
  path_join :: "string \<Rightarrow> string \<Rightarrow> string"
  path_relative :: "string \<Rightarrow> string \<Rightarrow> string"
  path_resolve :: "string \<Rightarrow> string"
  minimatch :: "string \<Rightarrow> string \<Rightarrow> bool"
  sha256 :: "byte list \<Rightarrow> string"
  fs_file :: "string \<Rightarrow> regfile"
  format_size :: "nat \<Rightarrow> string"
  random_source :: "nat \<Rightarrow> byte"
  date_now :: "nat \<Rightarrow> int"
  db_openable :: "string \<Rightarrow> bool"

text \<open>The two digests of the file behind a path.\<close>

definition quickDigest :: "env \<Rightarrow> string \<Rightarrow> error + string" where
  "quickDigest env filePath = calculateQuickHash (sha256 env) filePath (fs_file env filePath)"

definition fullDigest :: "env \<Rightarrow> string \<Rightarrow> error + string" where
  "fullDigest env filePath = calculateHash (sha256 env) filePath (fs_file env filePath)"

definition randomBytes :: "env \<Rightarrow> nat \<Rightarrow> byte list" where
  "randomBytes env n = map (random_source env) [0..<n]"

text \<open>
  The answer of \<^verbatim>\<open>fs.readdir(dir, { withFileTypes: true })\<close>: the entries of a
  directory, each with its name and its kind.  A directory entry carries the answer of
  \<^verbatim>\<open>readdir\<close> for that directory: \<open>None\<close> when it fails.  \<open>OtherEnt\<close> is an entry that
  is neither a regular file nor a directory (a symbolic link, a socket, a device).
\<close>

datatype dirent =
    FileEnt string
  | DirEnt string "dirent list option"
  | OtherEnt string

text \<open>
  \<^verbatim>\<open>fs.stat\<close>: size, birth time and modification time.  The size is the length of the
  content.
\<close>

definition fs_stat :: "string \<Rightarrow> regfile \<Rightarrow> error + (nat \<times> int \<times> int)" where
  "fs_stat filePath f =
     (if stat_fault f then Inl (StatFailed filePath)
      else Inr (length (content f), birthtime f, mtime f))"

section \<open>Scan index (database.mjs)\<close>

text \<open>
  The two tables, each a list of rows in rowid order.  Columns \<^verbatim>\<open>id\<close>, \<^verbatim>\<open>path\<close>,
  \<^verbatim>\<open>size\<close>, \<^verbatim>\<open>created\<close> and \<^verbatim>\<open>modified\<close> are written with a prefix.
\<close>

record scan_row =
  info_id :: nat
  base_directory :: string
  start_time :: int
  end_time :: "int option"
  files_scanned :: nat
  groups_found :: nat

record file_row =
  row_id :: nat
  scan_id :: nat
  row_path :: string
  row_size :: nat
  row_created :: int
  row_modified :: int
  quick_hash :: string
  full_hash :: "string option"
  group_id :: "string option"

record database =
  scan_info_tbl :: "scan_row list"
  files_tbl :: "file_row list"

text \<open>
  The index files on disk, by path.  \<^verbatim>\<open>new ScanDatabase(dbPath)\<close> opens the file or
  creates it, and throws when it can do neither; \<^verbatim>\<open>CREATE TABLE IF NOT EXISTS\<close> keeps
  the rows of a file that exists.  \<open>open_database\<close> is the content of the index once it
  is open, \<open>newScanDatabase\<close> the constructor with its failure.
\<close>

type_synonym disk = "string \<Rightarrow> database option"

definition empty_database :: database where
  "empty_database = \<lparr>scan_info_tbl = [], files_tbl = []\<rparr>"

definition open_database :: "disk \<Rightarrow> string \<Rightarrow> database" where
  "open_database d dbPath = (case d dbPath of None \<Rightarrow> empty_database | Some db \<Rightarrow> db)"

definition newScanDatabase :: "env \<Rightarrow> disk \<Rightarrow> string \<Rightarrow> error + database" where
  "newScanDatabase env d dbPath =
     (if db_openable env dbPath then Inr (open_database d dbPath)
      else Inl (OpenFailed dbPath))"

text \<open>
  The rowid of an \<^verbatim>\<open>INTEGER PRIMARY KEY\<close> column of a new row: one more than the
  largest in the table, 1 in an empty table.
\<close>

definition next_rowid :: "nat list \<Rightarrow> nat" where
  "next_rowid ids = fold max ids 0 + 1"

definition startScan :: "string \<Rightarrow> int \<Rightarrow> database \<Rightarrow> nat \<times> database" where
  "startScan baseDirectory t db =
     (let lastInsertRowid = next_rowid (map info_id (scan_info_tbl db))
      in (lastInsertRowid,
          db\<lparr>scan_info_tbl := scan_info_tbl db @
            [\<lparr>info_id = lastInsertRowid, base_directory = baseDirectory, start_time = t,
              end_time = None, files_scanned = 0, groups_found = 0\<rparr>]\<rparr>))"

definition updateScanProgress :: "nat \<Rightarrow> nat \<Rightarrow> nat \<Rightarrow> database \<Rightarrow> database" where
  "updateScanProgress scanId filesScanned groupsFound db =
     db\<lparr>scan_info_tbl :=
        map (\<lambda>r. if info_id r = scanId
                 then r\<lparr>files_scanned := filesScanned, groups_found := groupsFound\<rparr> else r)
          (scan_info_tbl db)\<rparr>"

definition completeScan :: "nat \<Rightarrow> int \<Rightarrow> database \<Rightarrow> database" where
  "completeScan scanId t db =
     db\<lparr>scan_info_tbl :=
        map (\<lambda>r. if info_id r = scanId then r\<lparr>end_time := Some t\<rparr> else r) (scan_info_tbl db)\<rparr>"

definition addFile :: "nat \<Rightarrow> fileinfo \<Rightarrow> string option \<Rightarrow> database \<Rightarrow> database" where
  "addFile scanId fileInfo groupId db =
     db\<lparr>files_tbl := files_tbl db @
       [\<lparr>row_id = next_rowid (map row_id (files_tbl db)), scan_id = scanId,
         row_path = path fileInfo, row_size = fsize fileInfo,
         row_created = created fileInfo, row_modified = modified fileInfo,
         quick_hash = quickHash fileInfo, full_hash = hash fileInfo, group_id = groupId\<rparr>]\<rparr>"

definition updateFileHash ::
  "nat \<Rightarrow> string option \<Rightarrow> string option \<Rightarrow> database \<Rightarrow> database" where
  "updateFileHash fileId fullHash groupId db =
     db\<lparr>files_tbl :=
        map (\<lambda>r. if row_id r = fileId then r\<lparr>full_hash := fullHash, group_id := groupId\<rparr> else r)
          (files_tbl db)\<rparr>"

definition getScanInfo :: "nat \<Rightarrow> database \<Rightarrow> scan_row option" where
  "getScanInfo scanId db = find (\<lambda>r. info_id r = scanId) (scan_info_tbl db)"

text \<open>
  \<^verbatim>\<open>SELECT id FROM files WHERE path = ?\<close> with \<^verbatim>\<open>.get(...)?.id\<close>: the id of the first
  row of that path, whatever its scan.
\<close>

definition select_id_by_path :: "string \<Rightarrow> database \<Rightarrow> nat option" where
  "select_id_by_path p db = map_option row_id (find (\<lambda>r. row_path r = p) (files_tbl db))"

definition deleteFile :: "string \<Rightarrow> database \<Rightarrow> database" where
  "deleteFile filePath db = db\<lparr>files_tbl := filter (\<lambda>r. row_path r \<noteq> filePath) (files_tbl db)\<rparr>"

definition updateFilePath :: "string \<Rightarrow> string \<Rightarrow> database \<Rightarrow> database" where
  "updateFilePath oldPath newPath db =
     db\<lparr>files_tbl :=
        map (\<lambda>r. if row_path r = oldPath then r\<lparr>row_path := newPath\<rparr> else r) (files_tbl db)\<rparr>"

text \<open>
  The query of \<^verbatim>\<open>getDuplicateGroups\<close>.  \<^verbatim>\<open>WHERE\<close> keeps the rows of the scan that
  have a group; \<^verbatim>\<open>GROUP BY f.group_id\<close> makes one group for each group id, the rows
  of a group in rowid order; \<^verbatim>\<open>HAVING COUNT(*) > 1\<close> drops the groups of one row;
  \<^verbatim>\<open>ORDER BY f.size DESC\<close> sorts by the size column of a row of the group, the first
  one.  The query names no second key, and SQL leaves the order of groups of equal size
  open: SQLite forms the groups in ascending order of the group id and its descending
  sort returns groups of equal size in the reverse of that order, the larger group id
  first.  That is the order modelled here, a stable sort of the reversed list of groups.
  Each result row is the group id with the JSON array of the objects of its rows:
  \<open>json_object\<close> has the six columns the query lists.
\<close>

type_synonym json_file = "string \<times> nat \<times> int \<times> int \<times> string \<times> string option"

definition json_object :: "file_row \<Rightarrow> json_file" where
  "json_object r =
     (row_path r, row_size r, row_created r, row_modified r, quick_hash r, full_hash r)"

definition scan_group_rows :: "nat \<Rightarrow> database \<Rightarrow> file_row list" where
  "scan_group_rows scanId db =
     filter (\<lambda>r. scan_id r = scanId \<and> group_id r \<noteq> None) (files_tbl db)"

definition group_by_group_id :: "file_row list \<Rightarrow> (string \<times> file_row list) list" where
  "group_by_group_id rows =
     map (\<lambda>g. (g, filter (\<lambda>r. group_id r = Some g) rows))
       (sort (remdups (List.map_filter group_id rows)))"

definition bare_size :: "file_row list \<Rightarrow> nat" where
  "bare_size rs = (case rs of [] \<Rightarrow> 0 | r # _ \<Rightarrow> row_size r)"

definition getDuplicateGroups :: "nat \<Rightarrow> database \<Rightarrow> (string \<times> json_file list) list" where
  "getDuplicateGroups scanId db =
     map (\<lambda>(g, rs). (g, map json_object rs))
       (sort_key (\<lambda>(g, rs). - int (bare_size rs))
          (rev (filter (\<lambda>(g, rs). length rs > 1)
             (group_by_group_id (scan_group_rows scanId db)))))"

definition generateIndexPath :: "env \<Rightarrow> string \<Rightarrow> string" where
  "generateIndexPath env baseDir =
     (let randomHex = toString_hex (randomBytes env 4)
      in path_join env baseDir (''.super-dee-duper.'' @ randomHex))"

section \<open>Metadata collector (scanDirectory)\<close>

text \<open>
  What a run does besides computing its result: the calls to the file system, the lines
  of \<^verbatim>\<open>console.error\<close> and the calls of the \<^verbatim>\<open>onProgress\<close> callback, in order.
\<close>

datatype phase = Scanning | Hashing

datatype event =
    Readdir string
  | Stat string
  | QuickRead string
  | FullRead string
  | ConsoleError string
  | OnProgress nat nat phase

record st =
  st_db :: database
  st_trace :: "event list"

definition log_events :: "event list \<Rightarrow> st \<Rightarrow> st" where
  "log_events evs s = s\<lparr>st_trace := st_trace s @ evs\<rparr>"

text \<open>
  \<^verbatim>\<open>excludePatterns.some((pattern) => minimatch(relativePath, pattern))\<close> with
  \<^verbatim>\<open>relativePath = path.relative(process.cwd(), fullPath)\<close>.
\<close>

definition excluded :: "env \<Rightarrow> string list \<Rightarrow> string \<Rightarrow> bool" where
  "excluded env excludePatterns fullPath =
     list_ex (\<lambda>pattern. minimatch env (path_relative env (cwd env) fullPath) pattern)
       excludePatterns"

definition make_fileInfo :: "env \<Rightarrow> string \<Rightarrow> string \<Rightarrow> nat \<times> int \<times> int \<Rightarrow> string \<Rightarrow> fileinfo" where
  "make_fileInfo env fullPath nm stats quickHash' =
     (case stats of (sz, birth, mt) \<Rightarrow>
        \<lparr>path = fullPath, name = nm, fsize = sz, formattedSize = format_size env sz,
         created = birth, modified = mt, quickHash = quickHash', hash = None\<rparr>)"

text \<open>
  The progress callback \<^verbatim>\<open>findDuplicates\<close> hands to \<^verbatim>\<open>scanDirectory\<close>: it calls
  \<^verbatim>\<open>onProgress\<close> and \<^verbatim>\<open>db.updateScanProgress(scanId, filesScanned, 0)\<close>.
\<close>

definition progressCallback :: "nat \<Rightarrow> nat \<Rightarrow> st \<Rightarrow> st" where
  "progressCallback scanId filesScanned s =
     s\<lparr>st_db := updateScanProgress scanId filesScanned 0 (st_db s),
       st_trace := st_trace s @ [OnProgress filesScanned 0 Scanning]\<rparr>"

text \<open>
  \<^verbatim>\<open>scanDirectory\<close> takes the answer of \<^verbatim>\<open>readdir\<close> for \<open>dir\<close>; it throws only when
  that answer is a failure.  \<open>scanEntries\<close> is the loop over the entries, with
  \<^verbatim>\<open>allFiles\<close> and \<^verbatim>\<open>filesScanned\<close>; whatever is thrown while one entry is processed is
  caught, reported by \<^verbatim>\<open>console.error\<close>, and the loop goes on.  The database handle is
  always supplied by \<^verbatim>\<open>findDuplicates\<close>, so the \<^verbatim>\<open>if (db)\<close> tests succeed.
\<close>

fun scanDirectory ::
    "env \<Rightarrow> bool \<Rightarrow> string list \<Rightarrow> nat \<Rightarrow> string \<Rightarrow> dirent list option \<Rightarrow> st
      \<Rightarrow> (error + fileinfo list) \<times> st"
  and scanEntries ::
    "env \<Rightarrow> bool \<Rightarrow> string list \<Rightarrow> nat \<Rightarrow> string \<Rightarrow> dirent list \<Rightarrow> fileinfo list \<Rightarrow> nat \<Rightarrow> st
      \<Rightarrow> fileinfo list \<times> st"
where
  "scanDirectory env recursive' excludePatterns scanId dir None s =
     (Inl (ScanFailed dir), log_events [Readdir dir] s)"
| "scanDirectory env recursive' excludePatterns scanId dir (Some ents) s =
     (case scanEntries env recursive' excludePatterns scanId dir ents [] 0
             (log_events [Readdir dir] s) of
        (allFiles, s') \<Rightarrow> (Inr allFiles, s'))"
| "scanEntries env recursive' excludePatterns scanId dir [] allFiles filesScanned s =
     (allFiles, s)"
| "scanEntries env recursive' excludePatterns scanId dir (FileEnt nm # ents) allFiles
       filesScanned s =
     (let fullPath = path_join env dir nm in
      if excluded env excludePatterns fullPath
      then scanEntries env recursive' excludePatterns scanId dir ents allFiles filesScanned s
      else
        (case fs_stat fullPath (fs_file env fullPath) of
           Inl e \<Rightarrow>
             scanEntries env recursive' excludePatterns scanId dir ents allFiles filesScanned
               (log_events [Stat fullPath, ConsoleError fullPath] s)
         | Inr stats \<Rightarrow>
             (case quickDigest env fullPath of
                Inl e \<Rightarrow>
                  scanEntries env recursive' excludePatterns scanId dir ents allFiles
                    filesScanned
                    (log_events [Stat fullPath, QuickRead fullPath, ConsoleError fullPath] s)
              | Inr quickHash' \<Rightarrow>
                  (let fileInfo = make_fileInfo env fullPath nm stats quickHash';
                       s1 = log_events [Stat fullPath, QuickRead fullPath] s;
                       s2 = s1\<lparr>st_db := addFile scanId fileInfo None (st_db s1)\<rparr>
                   in scanEntries env recursive' excludePatterns scanId dir ents
                        (allFiles @ [fileInfo]) (filesScanned + 1)
                        (progressCallback scanId (filesScanned + 1) s2)))))"
| "scanEntries env recursive' excludePatterns scanId dir (DirEnt nm listing # ents) allFiles
       filesScanned s =
     (let fullPath = path_join env dir nm in
      if excluded env excludePatterns fullPath
      then scanEntries env recursive' excludePatterns scanId dir ents allFiles filesScanned s
      else if recursive' then
        (case scanDirectory env recursive' excludePatterns scanId fullPath listing s of
           (Inl e, s') \<Rightarrow>
             scanEntries env recursive' excludePatterns scanId dir ents allFiles filesScanned
               (log_events [ConsoleError fullPath] s')
         | (Inr subDirFiles, s') \<Rightarrow>
             scanEntries env recursive' excludePatterns scanId dir ents
               (allFiles @ subDirFiles) filesScanned s')
      else scanEntries env recursive' excludePatterns scanId dir ents allFiles filesScanned s)"
| "scanEntries env recursive' excludePatterns scanId dir (OtherEnt nm # ents) allFiles
       filesScanned s =
     scanEntries env recursive' excludePatterns scanId dir ents allFiles filesScanned s"

section \<open>Duplicate classifier (findDuplicates)\<close>

text \<open>
  A \<^verbatim>\<open>Map\<close> whose values are arrays: the entries in insertion order, each key once.
  \<open>push_group k v m\<close> is the body of the grouping loops,
  \<^verbatim>\<open>if (!m.has(k)) m.set(k, []); m.get(k).push(v)\<close>: a new key goes to the end.
\<close>

fun push_group :: "'k \<Rightarrow> 'v \<Rightarrow> ('k \<times> 'v list) list \<Rightarrow> ('k \<times> 'v list) list" where
  "push_group k v [] = [(k, [v])]"
| "push_group k v ((k', g) # m) =
     (if k' = k then (k', g @ [v]) # m else (k', g) # push_group k v m)"

definition map_has :: "'k \<Rightarrow> ('k \<times> 'v) list \<Rightarrow> bool" where
  "map_has k m = (k \<in> set (map fst m))"

definition group_by :: "('v \<Rightarrow> 'k) \<Rightarrow> 'v list \<Rightarrow> ('k \<times> 'v list) list \<Rightarrow> ('k \<times> 'v list) list" where
  "group_by key xs m = fold (\<lambda>x. push_group (key x) x) xs m"

definition sizeGroups :: "fileinfo list \<Rightarrow> (nat \<times> fileinfo list) list" where
  "sizeGroups files = group_by fsize files []"

definition potentialDuplicates :: "fileinfo list \<Rightarrow> fileinfo list list" where
  "potentialDuplicates files = filter (\<lambda>g. length g > 1) (map snd (sizeGroups files))"

text \<open>
  The index update after a full digest: \<^verbatim>\<open>groupId\<close> is the hash itself, the row is
  the one \<^verbatim>\<open>SELECT id FROM files WHERE path = ?\<close> finds, and \<^verbatim>\<open>if (fileId)\<close> skips
  an id that is absent or 0.
\<close>

definition storeFileHash :: "fileinfo \<Rightarrow> st \<Rightarrow> st" where
  "storeFileHash file s =
     (let groupId = hash file in
      case select_id_by_path (path file) (st_db s) of
        None \<Rightarrow> s
      | Some fileId \<Rightarrow>
          if fileId \<noteq> 0
          then s\<lparr>st_db := updateFileHash fileId (hash file) groupId (st_db s)\<rparr>
          else s)"

text \<open>
  \<^verbatim>\<open>for (const file of quickHashGroup)\<close>: the full digest of each file, stored in the
  file object and in the index.  A digest that fails ends the loop with its error.
\<close>

fun hashGroupFiles :: "env \<Rightarrow> fileinfo list \<Rightarrow> st \<Rightarrow> (error + fileinfo list) \<times> st" where
  "hashGroupFiles env [] s = (Inr [], s)"
| "hashGroupFiles env (file # rest) s =
     (case fullDigest env (path file) of
        Inl e \<Rightarrow> (Inl e, log_events [FullRead (path file)] s)
      | Inr h \<Rightarrow>
          (let file' = file\<lparr>hash := Some h\<rparr> in
           case hashGroupFiles env rest
                  (storeFileHash file' (log_events [FullRead (path file)] s)) of
             (Inl e, s') \<Rightarrow> (Inl e, s')
           | (Inr rest', s') \<Rightarrow> (Inr (file' # rest'), s')))"

text \<open>
  \<^verbatim>\<open>quickHashGroup.forEach\<close>: the files go into \<^verbatim>\<open>duplicates\<close> by their full hash,
  and \<^verbatim>\<open>groupsFound\<close> counts the new keys.
\<close>

type_synonym dups = "(string option \<times> fileinfo list) list"

definition pushDuplicates :: "fileinfo list \<Rightarrow> dups \<times> nat \<Rightarrow> dups \<times> nat" where
  "pushDuplicates quickHashGroup acc =
     fold (\<lambda>file (duplicates, groupsFound).
             (push_group (hash file) file duplicates,
              if map_has (hash file) duplicates then groupsFound else groupsFound + 1))
       quickHashGroup acc"

definition reportHashing :: "nat \<Rightarrow> nat \<Rightarrow> nat \<Rightarrow> st \<Rightarrow> st" where
  "reportHashing scanId nfiles groupsFound s =
     s\<lparr>st_db := updateScanProgress scanId nfiles groupsFound (st_db s),
       st_trace := st_trace s @ [OnProgress nfiles groupsFound Hashing]\<rparr>"

fun processQuickHashGroups ::
  "env \<Rightarrow> nat \<Rightarrow> nat \<Rightarrow> fileinfo list list \<Rightarrow> dups \<times> nat \<Rightarrow> st \<Rightarrow> (error + dups \<times> nat) \<times> st" where
  "processQuickHashGroups env scanId nfiles [] acc s = (Inr acc, s)"
| "processQuickHashGroups env scanId nfiles (quickHashGroup # rest) acc s =
     (if length quickHashGroup > 1 then
        (case hashGroupFiles env quickHashGroup s of
           (Inl e, s') \<Rightarrow> (Inl e, s')
         | (Inr hashed, s') \<Rightarrow>
             (let acc' = pushDuplicates hashed acc
              in processQuickHashGroups env scanId nfiles rest acc'
                   (reportHashing scanId nfiles (snd acc') s')))
      else processQuickHashGroups env scanId nfiles rest acc s)"

fun processSizeGroups ::
  "env \<Rightarrow> nat \<Rightarrow> nat \<Rightarrow> fileinfo list list \<Rightarrow> dups \<times> nat \<Rightarrow> st \<Rightarrow> (error + dups \<times> nat) \<times> st" where
  "processSizeGroups env scanId nfiles [] acc s = (Inr acc, s)"
| "processSizeGroups env scanId nfiles (sizeGroup # rest) acc s =
     (let quickHashGroups = group_by quickHash sizeGroup [] in
      case processQuickHashGroups env scanId nfiles (map snd quickHashGroups) acc s of
        (Inl e, s1) \<Rightarrow> (Inl e, s1)
      | (Inr acc', s1) \<Rightarrow> processSizeGroups env scanId nfiles rest acc' s1)"

text \<open>
  \<^verbatim>\<open>.sort((a, b) => b[0].size - a[0].size)\<close>: a stable sort by the size of the first
  member, largest first.  It is applied to groups of more than one member only.
\<close>

definition first_size :: "fileinfo list \<Rightarrow> nat" where
  "first_size g = (case g of [] \<Rightarrow> 0 | f # _ \<Rightarrow> fsize f)"

definition sort_groups :: "fileinfo list list \<Rightarrow> fileinfo list list" where
  "sort_groups gs = sort_key (\<lambda>g. - int (first_size g)) gs"

definition discovered_groups :: "dups \<Rightarrow> fileinfo list list" where
  "discovered_groups duplicates = filter (\<lambda>g. length g > 1) (map snd duplicates)"

record options =
  recursive :: bool
  exclude :: "string list"
  indexPath :: "string option"
  incomplete :: bool

text \<open>
  \<^verbatim>\<open>indexPath || ScanDatabase.generateIndexPath(process.cwd())\<close>: an absent and an
  empty index path are both false.
\<close>

definition choose_dbPath :: "env \<Rightarrow> options \<Rightarrow> string" where
  "choose_dbPath env opts =
     (case indexPath opts of
        None \<Rightarrow> generateIndexPath env (cwd env)
      | Some p \<Rightarrow> if p = [] then generateIndexPath env (cwd env) else p)"

text \<open>
  The classifier: the part of \<^verbatim>\<open>findDuplicates\<close> from the grouping by size to the
  sorted result.
\<close>

definition classify :: "env \<Rightarrow> nat \<Rightarrow> fileinfo list \<Rightarrow> st \<Rightarrow> (error + fileinfo list list) \<times> st" where
  "classify env scanId files s =
     (case processSizeGroups env scanId (length files) (potentialDuplicates files) ([], 0) s of
        (Inl e, s') \<Rightarrow> (Inl e, s')
      | (Inr (duplicates, groupsFound), s') \<Rightarrow>
          (Inr (sort_groups (discovered_groups duplicates)), s'))"

text \<open>
  \<^verbatim>\<open>findDuplicates(dir, options)\<close>, given the index files on disk and the directory
  tree under \<open>dir\<close>.  It returns what the promise settles to, the index files afterwards
  and the trace of the call.  The index path is chosen and the database is opened first,
  outside the \<^verbatim>\<open>try\<close> block: when the constructor throws, its error is the error of
  the call as it is, nothing is read and nothing is written.  An error of the walk or of
  a full digest is thrown again as \<^verbatim>\<open>Failed to find duplicates\<close>.
\<close>

definition findDuplicates ::
  "env \<Rightarrow> options \<Rightarrow> disk \<Rightarrow> string \<Rightarrow> dirent list option
    \<Rightarrow> (error + fileinfo list list \<times> string \<times> nat) \<times> disk \<times> event list" where
  "findDuplicates env opts d dir listing =
     (let dbPath = choose_dbPath env opts
      in case newScanDatabase env d dbPath of
           Inl e \<Rightarrow> (Inl e, d, [])
         | Inr db \<Rightarrow>
             (let (scanId, db1) = startScan (path_resolve env dir) (date_now env 0) db;
                  s0 = \<lparr>st_db = db1, st_trace = []\<rparr>
              in case scanDirectory env (recursive opts) (exclude opts) scanId dir listing s0 of
                   (Inl e, s1) \<Rightarrow> (Inl (FindFailed e), d(dbPath \<mapsto> st_db s1), st_trace s1)
                 | (Inr files, s1) \<Rightarrow>
                     (case classify env scanId files s1 of
                        (Inl e, s2) \<Rightarrow>
                          (Inl (FindFailed e), d(dbPath \<mapsto> st_db s2), st_trace s2)
                      | (Inr result, s2) \<Rightarrow>
                          (let db3 = completeScan scanId (date_now env 1) (st_db s2)
                           in (Inr (result, dbPath, scanId), d(dbPath \<mapsto> db3),
                               st_trace s2)))))"


section \<open>Notions used in the statements\<close>

text \<open>
  The call once its database is open: \<^verbatim>\<open>findDuplicates\<close> from \<^verbatim>\<open>db.startScan\<close> on,
  the handle being the index open at the index path.  For an index that opens, it is the
  call itself.
\<close>

definition scanWithIndex ::
  "env \<Rightarrow> options \<Rightarrow> disk \<Rightarrow> string \<Rightarrow> dirent list option
    \<Rightarrow> (error + fileinfo list list \<times> string \<times> nat) \<times> disk \<times> event list" where
  "scanWithIndex env opts d dir listing =
     (let dbPath = choose_dbPath env opts;
          db = open_database d dbPath;
          (scanId, db1) = startScan (path_resolve env dir) (date_now env 0) db;
          s0 = \<lparr>st_db = db1, st_trace = []\<rparr>
      in case scanDirectory env (recursive opts) (exclude opts) scanId dir listing s0 of
           (Inl e, s1) \<Rightarrow> (Inl (FindFailed e), d(dbPath \<mapsto> st_db s1), st_trace s1)
         | (Inr files, s1) \<Rightarrow>
             (case classify env scanId files s1 of
                (Inl e, s2) \<Rightarrow> (Inl (FindFailed e), d(dbPath \<mapsto> st_db s2), st_trace s2)
              | (Inr result, s2) \<Rightarrow>
                  (let db3 = completeScan scanId (date_now env 1) (st_db s2)
                   in (Inr (result, dbPath, scanId), d(dbPath \<mapsto> db3), st_trace s2))))"


text \<open>
  The records the walk collects, as a function of the tree alone: one for every regular
  file that is not excluded, lies in a directory that is read, and whose \<^verbatim>\<open>stat\<close> and
  quick digest succeed.
\<close>

fun entry_files :: "env \<Rightarrow> bool \<Rightarrow> string list \<Rightarrow> string \<Rightarrow> dirent \<Rightarrow> fileinfo list"
  and entries_files :: "env \<Rightarrow> bool \<Rightarrow> string list \<Rightarrow> string \<Rightarrow> dirent list \<Rightarrow> fileinfo list"
where
  "entry_files env rc ex dir (FileEnt nm) =
     (let fullPath = path_join env dir nm in
      if excluded env ex fullPath then []
      else case fs_stat fullPath (fs_file env fullPath) of
             Inl e \<Rightarrow> []
           | Inr stats \<Rightarrow>
               (case quickDigest env fullPath of
                  Inl e \<Rightarrow> []
                | Inr q \<Rightarrow> [make_fileInfo env fullPath nm stats q]))"
| "entry_files env rc ex dir (DirEnt nm listing) =
     (let fullPath = path_join env dir nm in
      if excluded env ex fullPath \<or> \<not> rc then []
      else case listing of
             None \<Rightarrow> []
           | Some sub \<Rightarrow> entries_files env rc ex fullPath sub)"
| "entry_files env rc ex dir (OtherEnt nm) = []"
| "entries_files env rc ex dir [] = []"
| "entries_files env rc ex dir (e # es) =
     entry_files env rc ex dir e @ entries_files env rc ex dir es"

text \<open>
  The bucket of a record: the records of the same size and quick hash.  The files the
  classifier hashes in full are those of the quick-hash groups of more than one member,
  in the order of the loops.
\<close>

definition bucket :: "fileinfo list \<Rightarrow> fileinfo \<Rightarrow> fileinfo list" where
  "bucket files f = filter (\<lambda>g. fsize g = fsize f \<and> quickHash g = quickHash f) files"

definition candidates :: "fileinfo list \<Rightarrow> fileinfo list list" where
  "candidates files =
     concat (map (\<lambda>sizeGroup.
                    filter (\<lambda>q. length q > 1) (map snd (group_by quickHash sizeGroup [])))
               (potentialDuplicates files))"

definition set_hash :: "env \<Rightarrow> fileinfo \<Rightarrow> fileinfo" where
  "set_hash env f = (case fullDigest env (path f) of Inl e \<Rightarrow> f | Inr h \<Rightarrow> f\<lparr>hash := Some h\<rparr>)"

text \<open>
  The records \<^verbatim>\<open>findDuplicates\<close> classifies, and the groups of more than one member in
  the order of discovery: the order in which their hashes entered \<^verbatim>\<open>duplicates\<close>.
\<close>

definition scanned_files :: "env \<Rightarrow> options \<Rightarrow> string \<Rightarrow> dirent list \<Rightarrow> fileinfo list" where
  "scanned_files env opts dir ents = entries_files env (recursive opts) (exclude opts) dir ents"

definition discovery :: "env \<Rightarrow> fileinfo list \<Rightarrow> fileinfo list list" where
  "discovery env files =
     discovered_groups (group_by hash (map (set_hash env) (concat (candidates files))) [])"

text \<open>The id \<^verbatim>\<open>startScan\<close> gives the scan of a run.\<close>

definition new_scan_id :: "env \<Rightarrow> options \<Rightarrow> disk \<Rightarrow> nat" where
  "new_scan_id env opts d =
     next_rowid (map info_id (scan_info_tbl (open_database d (choose_dbPath env opts))))"

text \<open>
  The same notions on multisets, where the order of the records plays no part: the
  groups of a multiset by a key, the members of its groups of more than one member, the
  records the classifier hashes in full, and the groups it finds.
\<close>

definition groups_mset :: "('v \<Rightarrow> 'k) \<Rightarrow> 'v multiset \<Rightarrow> 'v multiset multiset" where
  "groups_mset key M =
     image_mset (\<lambda>k. filter_mset (\<lambda>x. key x = k) M) (mset_set (key ` set_mset M))"

definition funnel_mset :: "('v \<Rightarrow> 'k) \<Rightarrow> 'v multiset \<Rightarrow> 'v multiset" where
  "funnel_mset key M = sum_mset (filter_mset (\<lambda>Q. 1 < size Q) (groups_mset key M))"

definition candidates_mset :: "fileinfo multiset \<Rightarrow> fileinfo multiset" where
  "candidates_mset M =
     sum_mset (image_mset (funnel_mset quickHash)
       (filter_mset (\<lambda>G. 1 < size G) (groups_mset fsize M)))"

definition discovery_mset :: "env \<Rightarrow> fileinfo multiset \<Rightarrow> fileinfo multiset multiset" where
  "discovery_mset env M =
     filter_mset (\<lambda>G. 1 < size G)
       (groups_mset hash (image_mset (set_hash env) (candidates_mset M)))"

text \<open>The membership of a result: the set of the path sets of its groups.\<close>

definition membership :: "fileinfo list list \<Rightarrow> string set set" where
  "membership result = (\<lambda>g. set (map path g)) ` set result"

text \<open>The path of a file object of a group of the index, and the rows of a group.\<close>

definition json_path :: "json_file \<Rightarrow> string" where
  "json_path j = fst j"

definition group_rows :: "nat \<Rightarrow> string \<Rightarrow> database \<Rightarrow> file_row list" where
  "group_rows scanId g db =
     filter (\<lambda>r. scan_id r = scanId \<and> group_id r = Some g) (files_tbl db)"

text \<open>The name of an entry, and the path an event of the trace is about.\<close>

fun entry_name :: "dirent \<Rightarrow> string" where
  "entry_name (FileEnt nm) = nm"
| "entry_name (DirEnt nm listing) = nm"
| "entry_name (OtherEnt nm) = nm"

fun event_path :: "event \<Rightarrow> string option" where
  "event_path (Readdir p) = Some p"
| "event_path (Stat p) = Some p"
| "event_path (QuickRead p) = Some p"
| "event_path (FullRead p) = Some p"
| "event_path (ConsoleError p) = Some p"
| "event_path (OnProgress n g ph) = None"

text \<open>
  Every file that can be read up to byte 65535 can be read to its end: a read fault, if
  any, lies in the first 64 KiB or beyond the end of the file.
\<close>

definition no_late_fault :: "env \<Rightarrow> bool" where
  "no_late_fault env =
     (\<forall>p k. read_fault (fs_file env p) = FaultAt k \<longrightarrow>
        k < 65536 \<or> length (content (fs_file env p)) \<le> k)"

text \<open>
  The row \<^verbatim>\<open>addFile\<close> inserts for a record, and the table after the rows of a list of
  records are added in order.
\<close>

definition file_row_of :: "nat \<Rightarrow> nat \<Rightarrow> fileinfo \<Rightarrow> file_row" where
  "file_row_of i scanId f =
     \<lparr>row_id = i, scan_id = scanId, row_path = path f, row_size = fsize f,
      row_created = created f, row_modified = modified f, quick_hash = quickHash f,
      full_hash = hash f, group_id = None\<rparr>"

definition append_rows :: "nat \<Rightarrow> fileinfo list \<Rightarrow> file_row list \<Rightarrow> file_row list" where
  "append_rows scanId fs tbl =
     fold (\<lambda>f t. t @ [file_row_of (next_rowid (map row_id t)) scanId f]) fs tbl"

text \<open>The scans of an index by id, with their base directories.\<close>

definition scan_keys :: "database \<Rightarrow> (nat \<times> string) list" where
  "scan_keys db = map (\<lambda>r. (info_id r, base_directory r)) (scan_info_tbl db)"

text \<open>
  The effect of the full digests on the table of files: the rows of the paths hashed get
  the digest of their path as full hash and as group id.  A table is well formed when no
  two rows have the same path or the same id and no id is 0.
\<close>

definition mark_row :: "env \<Rightarrow> file_row \<Rightarrow> file_row" where
  "mark_row env r =
     (case fullDigest env (row_path r) of
        Inl e \<Rightarrow> r
      | Inr h \<Rightarrow> r\<lparr>full_hash := Some h, group_id := Some h\<rparr>)"

definition mark_rows :: "env \<Rightarrow> string set \<Rightarrow> file_row list \<Rightarrow> file_row list" where
  "mark_rows env P rows = map (\<lambda>r. if row_path r \<in> P then mark_row env r else r) rows"

definition wf_tbl :: "file_row list \<Rightarrow> bool" where
  "wf_tbl rows =
     (distinct (map row_path rows) \<and> distinct (map row_id rows) \<and> 0 \<notin> set (map row_id rows))"

text \<open>
  For the comparison of the two views of a run: the paths of the groups of the result in
  memory, the index the run leaves at a path, the paths of the groups
  \<^verbatim>\<open>getDuplicateGroups\<close> returns, and the size by which an entry of the latter is
  ordered.
\<close>

definition memory_paths :: "(error + fileinfo list list \<times> string \<times> nat) \<Rightarrow> string list list" where
  "memory_paths r = (case r of Inl e \<Rightarrow> [] | Inr (result, dbPath, scanId) \<Rightarrow> map (map path) result)"

definition index_after ::
  "(error + fileinfo list list \<times> string \<times> nat) \<times> disk \<times> event list \<Rightarrow> string \<Rightarrow> database" where
  "index_after run dbPath = open_database (fst (snd run)) dbPath"

definition index_paths :: "nat \<Rightarrow> database \<Rightarrow> string list list" where
  "index_paths scanId db = map (\<lambda>e. map json_path (snd e)) (getDuplicateGroups scanId db)"

definition entry_size :: "string \<times> json_file list \<Rightarrow> nat" where
  "entry_size e = (case snd e of [] \<Rightarrow> 0 | j # js \<Rightarrow> fst (snd j))"

text \<open>What identifies a row of the table of files and its scan.\<close>

definition row_key :: "file_row \<Rightarrow> nat \<times> string \<times> nat" where
  "row_key r = (row_id r, row_path r, scan_id r)"

text \<open>The keys of a list in the order of their first occurrence.\<close>

definition first_keys :: "'k list \<Rightarrow> 'k list" where
  "first_keys ks = rev (remdups (rev ks))"

text \<open>
  Two answers of \<^verbatim>\<open>readdir\<close> for the same tree: the same entries, in any order, at
  every level.
\<close>

text \<open>
  No two files of the file system have different contents with the same SHA-256 digest.
\<close>

definition collision_free :: "env \<Rightarrow> bool" where
  "collision_free env =
     (\<forall>p q. sha256 env (content (fs_file env p)) = sha256 env (content (fs_file env q))
        \<longrightarrow> content (fs_file env p) = content (fs_file env q))"

inductive reordered :: "dirent list \<Rightarrow> dirent list \<Rightarrow> bool"
  and reordered_entry :: "dirent \<Rightarrow> dirent \<Rightarrow> bool"
where
  reordered_Nil: "reordered [] []"
| reordered_Cons: "reordered_entry e e' \<Longrightarrow> reordered es es' \<Longrightarrow> reordered (e # es) (e' # es')"
| reordered_swap: "reordered (a # b # es) (b # a # es)"
| reordered_trans: "reordered es es' \<Longrightarrow> reordered es' es'' \<Longrightarrow> reordered es es''"
| reordered_File: "reordered_entry (FileEnt nm) (FileEnt nm)"
| reordered_Other: "reordered_entry (OtherEnt nm) (OtherEnt nm)"
| reordered_Dir_failed: "reordered_entry (DirEnt nm None) (DirEnt nm None)"
| reordered_Dir: "reordered es es' \<Longrightarrow> reordered_entry (DirEnt nm (Some es)) (DirEnt nm (Some es'))"

section \<open>Example inputs\<close>

text \<open>A five-byte file, and a file whose reading fails at byte 70000.\<close>

definition demo_hello :: regfile where
  "demo_hello =
     \<lparr>content = [104, 101, 108, 108, 111], birthtime = 0, mtime = 0, stat_fault = False,
      read_fault = NoFault\<rparr>"

definition demo_late_fault :: regfile where
  "demo_late_fault =
     \<lparr>content = [104, 101, 108, 108, 111], birthtime = 0, mtime = 0, stat_fault = False,
      read_fault = FaultAt 70000\<rparr>"

text \<open>
  A directory \<^verbatim>\<open>/d\<close> with \<^verbatim>\<open>a.txt\<close> and \<^verbatim>\<open>b.txt\<close> of content \<^verbatim>\<open>hello\<close> and
  \<^verbatim>\<open>c.txt\<close> of content \<^verbatim>\<open>world\<close>, and a second listing of it with \<^verbatim>\<open>e.txt\<close> and
  \<^verbatim>\<open>f.txt\<close> of content \<^verbatim>\<open>hello!\<close>, and a third with \<^verbatim>\<open>g.txt\<close> of content \<^verbatim>\<open>world\<close>.  The digest of the example environment is the
  hexadecimal text of the content.
\<close>

definition demo_world :: regfile where
  "demo_world =
     \<lparr>content = [119, 111, 114, 108, 100], birthtime = 0, mtime = 0, stat_fault = False,
      read_fault = NoFault\<rparr>"

definition demo_longer :: regfile where
  "demo_longer =
     \<lparr>content = [104, 101, 108, 108, 111, 33], birthtime = 0, mtime = 0, stat_fault = False,
      read_fault = NoFault\<rparr>"

definition demo_missing :: regfile where
  "demo_missing =
     \<lparr>content = [], birthtime = 0, mtime = 0, stat_fault = True, read_fault = OpenFault\<rparr>"

definition demo_fs :: "string \<Rightarrow> regfile" where
  "demo_fs p =
     (if p = ''/d/a.txt'' \<or> p = ''/d/b.txt'' then demo_hello
      else if p = ''/d/c.txt'' \<or> p = ''/d/g.txt'' then demo_world
      else if p = ''/d/e.txt'' \<or> p = ''/d/f.txt'' then demo_longer
      else demo_missing)"

text \<open>
  The example platform.  A database file can be opened or created under \<^verbatim>\<open>/d\<close> only.
\<close>

definition demo_env :: env where
  "demo_env =
     \<lparr>cwd = ''/d'', path_join = (\<lambda>dir nm. dir @ ''/'' @ nm),
      path_relative = (\<lambda>from to. drop (length from + 1) to), path_resolve = (\<lambda>p. p),
      minimatch = (\<lambda>p pattern. p = pattern), sha256 = toString_hex, fs_file = demo_fs,
      format_size = (\<lambda>n. []), random_source = (\<lambda>i. 171), date_now = int,
      db_openable = (\<lambda>p. take 3 p = ''/d/'')\<rparr>"

definition demo_tree :: "dirent list" where
  "demo_tree = [FileEnt ''a.txt'', FileEnt ''b.txt'', FileEnt ''c.txt'']"

definition demo_tree2 :: "dirent list" where
  "demo_tree2 = [FileEnt ''a.txt'', FileEnt ''e.txt'', FileEnt ''b.txt'', FileEnt ''f.txt'']"

definition demo_tree3 :: "dirent list" where
  "demo_tree3 = [FileEnt ''b.txt'', FileEnt ''a.txt'', FileEnt ''c.txt'']"

definition demo_tree4 :: "dirent list" where
  "demo_tree4 = [FileEnt ''a.txt'', FileEnt ''b.txt'', FileEnt ''c.txt'', FileEnt ''g.txt'']"

definition demo_record3 :: "string \<Rightarrow> string \<Rightarrow> fileinfo" where
  "demo_record3 p nm =
     \<lparr>path = p, name = nm, fsize = 5, formattedSize = [], created = 0, modified = 0,
      quickHash = ''776f726c64'', hash = Some ''776f726c64''\<rparr>"

definition demo_opts_ex :: options where
  "demo_opts_ex = \<lparr>recursive = True, exclude = [''b.txt''], indexPath = None, incomplete = False\<rparr>"

definition demo_opts_rec :: options where
  "demo_opts_rec = \<lparr>recursive = True, exclude = [], indexPath = None, incomplete = False\<rparr>"

text \<open>The first listing with a file that cannot be stat-ed and a directory that cannot be read.\<close>

definition demo_tree_bad :: "dirent list" where
  "demo_tree_bad = FileEnt ''zz.txt'' # DirEnt ''sub'' None # demo_tree"

definition demo_st :: st where
  "demo_st = \<lparr>st_db = empty_database, st_trace = []\<rparr>"

text \<open>An index with one group of two rows and one group of three rows.\<close>

definition demo_row :: "nat \<Rightarrow> string \<Rightarrow> string \<Rightarrow> file_row" where
  "demo_row i p h =
     \<lparr>row_id = i, scan_id = 1, row_path = p, row_size = 5, row_created = 0, row_modified = 0,
      quick_hash = h, full_hash = Some h, group_id = Some h\<rparr>"

definition demo_db :: database where
  "demo_db =
     \<lparr>scan_info_tbl = [],
      files_tbl = [demo_row 1 ''/d/a.txt'' ''aa'', demo_row 2 ''/d/b.txt'' ''aa'',
                   demo_row 3 ''/d/x.txt'' ''bb'', demo_row 4 ''/d/y.txt'' ''bb'',
                   demo_row 5 ''/d/z.txt'' ''bb'']\<rparr>"

text \<open>A run with the index path given by the caller.\<close>

definition demo_opts_idx :: options where
  "demo_opts_idx =
     \<lparr>recursive = False, exclude = [], indexPath = Some ''/d/idx'', incomplete = False\<rparr>"

text \<open>A call with an index path in a directory that does not exist.\<close>

definition demo_opts_missing :: options where
  "demo_opts_missing =
     \<lparr>recursive = False, exclude = [], indexPath = Some ''/missing/idx'', incomplete = False\<rparr>"

text \<open>
  Two files of 70001 bytes with the same content, the second with a read fault at byte
  70000, beside \<^verbatim>\<open>a.txt\<close> and \<^verbatim>\<open>b.txt\<close>.
\<close>

definition demo_big_content :: "byte list" where
  "demo_big_content = replicate 70001 0"

definition demo_big :: regfile where
  "demo_big =
     \<lparr>content = demo_big_content, birthtime = 0, mtime = 0, stat_fault = False,
      read_fault = NoFault\<rparr>"

definition demo_big_fault :: regfile where
  "demo_big_fault =
     \<lparr>content = demo_big_content, birthtime = 0, mtime = 0, stat_fault = False,
      read_fault = FaultAt 70000\<rparr>"

definition demo_fs_big :: "string \<Rightarrow> regfile" where
  "demo_fs_big p =
     (if p = ''/d/a.txt'' \<or> p = ''/d/b.txt'' then demo_hello
      else if p = ''/d/x.bin'' then demo_big
      else if p = ''/d/y.bin'' then demo_big_fault
      else demo_missing)"

definition demo_env_big :: env where
  "demo_env_big = demo_env\<lparr>fs_file := demo_fs_big\<rparr>"

definition demo_tree_big :: "dirent list" where
  "demo_tree_big = [FileEnt ''a.txt'', FileEnt ''b.txt'', FileEnt ''x.bin'', FileEnt ''y.bin'']"

definition demo_record_big :: "string \<Rightarrow> string \<Rightarrow> fileinfo" where
  "demo_record_big p nm =
     \<lparr>path = p, name = nm, fsize = 70001, formattedSize = [], created = 0, modified = 0,
      quickHash = toString_hex (take 65536 demo_big_content), hash = None\<rparr>"

definition demo_opts :: options where
  "demo_opts = \<lparr>recursive = False, exclude = [], indexPath = None, incomplete = False\<rparr>"

definition demo_record2 :: "string \<Rightarrow> string \<Rightarrow> fileinfo" where
  "demo_record2 p nm =
     \<lparr>path = p, name = nm, fsize = 6, formattedSize = [], created = 0, modified = 0,
      quickHash = ''68656c6c6f21'', hash = Some ''68656c6c6f21''\<rparr>"

definition demo_record :: "string \<Rightarrow> string \<Rightarrow> fileinfo" where
  "demo_record p nm =
     \<lparr>path = p, name = nm, fsize = 5, formattedSize = [], created = 0, modified = 0,
      quickHash = ''68656c6c6f'', hash = Some ''68656c6c6f''\<rparr>"

section \<open>Hash provider: properties\<close>

lemma concat_chunks: "0 < n \<Longrightarrow> concat (chunks n xs) = xs"
proof (induction n xs rule: chunks.induct)
  case (1 n xs)
  show ?case
  proof (cases "xs = []")
    case True
    then show ?thesis by (subst chunks.simps) simp
  next
    case False
    with "1.prems" have "concat (chunks n (drop n xs)) = drop n xs"
      using "1.IH" by simp
    with False "1.prems" show ?thesis
      by (subst chunks.simps) simp
  qed
qed

lemma foldl_hash_update: "foldl update_hash h cs = h @ concat cs"
  by (induction cs arbitrary: h) (simp_all add: update_hash_def)

lemma digest_of_chunks:
  "hash_digest sha (foldl update_hash createHash (chunks highWaterMark xs)) = sha xs"
  by (simp add: foldl_hash_update createHash_def hash_digest_def concat_chunks highWaterMark_def)

lemma stream_range_quick:
  "stream_range f 0 (Some 65535) = take (min (length (content f)) 65536) (content f)"
  by (simp add: stream_range_def min_def)

lemma stream_range_full: "stream_range f 0 None = content f"
  by (simp add: stream_range_def)

lemma quick_stream_ok:
  assumes "read_fault f = NoFault \<or> (\<exists>k. read_fault f = FaultAt k \<and> 65535 < k)"
  shows "createReadStream p f 0 (Some 65535) =
    Inr (chunks highWaterMark (take (min (length (content f)) 65536) (content f)))"
  using assms by (auto simp: createReadStream_def stream_range_quick)

lemma quick_stream_data:
  assumes "createReadStream p f 0 (Some 65535) = Inr cs"
  shows "concat cs = take (min (length (content f)) 65536) (content f)"
proof -
  have "cs = chunks highWaterMark (stream_range f 0 (Some 65535))"
    using assms by (auto simp: createReadStream_def split: fault.splits if_splits)
  then show ?thesis
    by (simp add: concat_chunks highWaterMark_def stream_range_quick)
qed

lemma calculateQuickHash_ok:
  assumes "read_fault f = NoFault \<or> (\<exists>k. read_fault f = FaultAt k \<and> 65535 < k)"
  shows "calculateQuickHash sha p f =
    Inr (sha (take (min (length (content f)) 65536) (content f)))"
  by (simp add: calculateQuickHash_def quick_stream_ok [OF assms] digest_of_chunks)

lemma calculateQuickHash_Inr:
  assumes "calculateQuickHash sha p f = Inr d"
  shows "d = sha (take (min (length (content f)) 65536) (content f))"
proof -
  obtain cs where cs: "createReadStream p f 0 (Some 65535) = Inr cs"
    using assms by (auto simp: calculateQuickHash_def split: sum.splits)
  have "d = sha (concat cs)"
    using assms cs
    by (simp add: calculateQuickHash_def foldl_hash_update createHash_def hash_digest_def)
  then show ?thesis by (simp add: quick_stream_data [OF cs])
qed

lemma calculateHash_Inr:
  assumes "calculateHash sha p f = Inr d"
  shows "d = sha (content f)"
proof -
  have "createReadStream p f 0 None = Inr (chunks highWaterMark (content f))"
    using assms
    by (auto simp: calculateHash_def createReadStream_def stream_range_full
        split: sum.splits fault.splits if_splits)
  with assms show ?thesis
    by (simp add: calculateHash_def digest_of_chunks)
qed

lemma quick_is_full_when_small:
  assumes "length (content f) < 65536"
  shows "calculateQuickHash sha p f = calculateHash sha p f"
proof -
  have eq: "stream_range f 0 (Some 65535) = stream_range f 0 None"
    using assms by (simp add: stream_range_def)
  show ?thesis
    unfolding calculateQuickHash_def calculateHash_def createReadStream_def eq ..
qed

text \<open>
  Claim C3.  The quick digest of a file is the digest of exactly its first
  \<open>min size 65536\<close> bytes: whenever it returns a digest it is that one, the data the
  stream delivers is that prefix, and it returns for every file that can be read up to
  byte 65535, a fault further on being never met.  For a file of fewer than 65536 bytes
  (an empty one too) the quick digest and the full digest are the same value.
\<close>

theorem C3_quick_digest:
  "(\<forall>d. calculateQuickHash sha p f = Inr d \<longrightarrow>
        d = sha (take (min (length (content f)) 65536) (content f)))
   \<and> (\<forall>cs. createReadStream p f 0 (Some 65535) = Inr cs \<longrightarrow>
        concat cs = take (min (length (content f)) 65536) (content f)
        \<and> length (concat cs) \<le> 65536)
   \<and> (read_fault f = NoFault \<or> (\<exists>k. read_fault f = FaultAt k \<and> 65535 < k) \<longrightarrow>
        calculateQuickHash sha p f =
          Inr (sha (take (min (length (content f)) 65536) (content f))))
   \<and> (length (content f) < 65536 \<longrightarrow>
        calculateQuickHash sha p f = calculateHash sha p f
        \<and> (\<forall>d. calculateHash sha p f = Inr d \<longrightarrow> d = sha (content f)))"
proof (intro conjI allI impI)
  fix d assume "calculateQuickHash sha p f = Inr d"
  then show "d = sha (take (min (length (content f)) 65536) (content f))"
    by (rule calculateQuickHash_Inr)
next
  fix cs assume cs: "createReadStream p f 0 (Some 65535) = Inr cs"
  show "concat cs = take (min (length (content f)) 65536) (content f)"
    by (rule quick_stream_data [OF cs])
  then show "length (concat cs) \<le> 65536" by simp
next
  assume "read_fault f = NoFault \<or> (\<exists>k. read_fault f = FaultAt k \<and> 65535 < k)"
  then show "calculateQuickHash sha p f =
      Inr (sha (take (min (length (content f)) 65536) (content f)))"
    by (rule calculateQuickHash_ok)
next
  assume "length (content f) < 65536"
  then show "calculateQuickHash sha p f = calculateHash sha p f"
    by (rule quick_is_full_when_small)
next
  fix d assume "calculateHash sha p f = Inr d"
  then show "d = sha (content f)" by (rule calculateHash_Inr)
qed

theorem C3_quick_digest_witness:
  "read_fault demo_late_fault = FaultAt 70000
   \<and> length (content demo_late_fault) < 65536
   \<and> calculateQuickHash toString_hex ''/d/a'' demo_late_fault
       = Inr (toString_hex (content demo_late_fault))
   \<and> calculateQuickHash toString_hex ''/d/a'' demo_late_fault
       = calculateHash toString_hex ''/d/a'' demo_late_fault"
proof -
  have h1: "read_fault demo_late_fault = FaultAt 70000"
    by (simp add: demo_late_fault_def)
  have h2: "length (content demo_late_fault) < 65536"
    by (simp add: demo_late_fault_def)
  have h3: "read_fault demo_late_fault = NoFault
      \<or> (\<exists>k. read_fault demo_late_fault = FaultAt k \<and> 65535 < k)"
    by (simp add: h1)
  have h4: "take (min (length (content demo_late_fault)) 65536) (content demo_late_fault)
      = content demo_late_fault"
    by (simp add: demo_late_fault_def)
  note T = C3_quick_digest [of toString_hex "''/d/a''" demo_late_fault]
  from T h3 have "calculateQuickHash toString_hex ''/d/a'' demo_late_fault =
      Inr (toString_hex (take (min (length (content demo_late_fault)) 65536)
        (content demo_late_fault)))"
    by blast
  then have q: "calculateQuickHash toString_hex ''/d/a'' demo_late_fault
      = Inr (toString_hex (content demo_late_fault))"
    by (simp only: h4)
  from T h2 have "calculateQuickHash toString_hex ''/d/a'' demo_late_fault
      = calculateHash toString_hex ''/d/a'' demo_late_fault"
    by blast
  with h1 h2 q show ?thesis by blast
qed

section \<open>Grouping\<close>

lemma first_keys_snoc:
  "first_keys (ks @ [k]) = (if k \<in> set ks then first_keys ks else first_keys ks @ [k])"
  by (simp add: first_keys_def)

lemma set_first_keys [simp]: "set (first_keys ks) = set ks"
  by (simp add: first_keys_def)

lemma distinct_first_keys [simp]: "distinct (first_keys ks)"
  by (simp add: first_keys_def)

lemma group_by_snoc: "group_by key (xs @ [x]) m = push_group (key x) x (group_by key xs m)"
  by (simp add: group_by_def)

lemma group_by_append: "group_by key (xs @ ys) m = group_by key ys (group_by key xs m)"
  by (simp add: group_by_def)

lemma push_group_new:
  "k \<notin> set ks \<Longrightarrow> push_group k v (map (\<lambda>k'. (k', h k')) ks) = map (\<lambda>k'. (k', h k')) ks @ [(k, [v])]"
  by (induction ks) auto

lemma push_group_old:
  "k \<in> set ks \<Longrightarrow> distinct ks \<Longrightarrow>
   push_group k v (map (\<lambda>k'. (k', h k')) ks) =
     map (\<lambda>k'. (k', if k' = k then h k' @ [v] else h k')) ks"
  by (induction ks) auto

lemma group_by_closed:
  "group_by key xs [] =
     map (\<lambda>k. (k, filter (\<lambda>x. key x = k) xs)) (first_keys (map key xs))"
proof (induction xs rule: rev_induct)
  case Nil
  show ?case by (simp add: group_by_def first_keys_def)
next
  case (snoc x xs)
  let ?K = "first_keys (map key xs)"
  show ?case
  proof (cases "key x \<in> set (map key xs)")
    case True
    then have "key x \<in> set ?K" by simp
    then have "push_group (key x) x (map (\<lambda>k. (k, filter (\<lambda>y. key y = k) xs)) ?K) =
        map (\<lambda>k. (k, if k = key x then filter (\<lambda>y. key y = k) xs @ [x]
                      else filter (\<lambda>y. key y = k) xs)) ?K"
      by (rule push_group_old) simp
    also have "\<dots> = map (\<lambda>k. (k, filter (\<lambda>y. key y = k) (xs @ [x]))) ?K"
      by (rule map_cong) auto
    finally show ?thesis
      using True by (simp add: group_by_snoc snoc.IH first_keys_snoc)
  next
    case False
    then have nk: "key x \<notin> set ?K" by simp
    have b: "map (\<lambda>k. (k, filter (\<lambda>y. key y = k) (xs @ [x]))) ?K =
        map (\<lambda>k. (k, filter (\<lambda>y. key y = k) xs)) ?K"
      using nk by (intro map_cong) auto
    have c: "filter (\<lambda>y. key y = key x) (xs @ [x]) = [x]"
      using False by (auto simp: filter_empty_conv image_iff)
    have "group_by key (xs @ [x]) [] =
        push_group (key x) x (map (\<lambda>k. (k, filter (\<lambda>y. key y = k) xs)) ?K)"
      by (simp only: group_by_snoc snoc.IH)
    also have "\<dots> = map (\<lambda>k. (k, filter (\<lambda>y. key y = k) xs)) ?K @ [(key x, [x])]"
      by (rule push_group_new [OF nk])
    also have "\<dots> = map (\<lambda>k. (k, filter (\<lambda>y. key y = k) (xs @ [x]))) (?K @ [key x])"
      by (simp only: map_append list.map b c)
    also have "?K @ [key x] = first_keys (map key (xs @ [x]))"
      using False by (simp add: first_keys_snoc)
    finally show ?thesis .
  qed
qed

lemma groups_closed:
  "map snd (group_by key xs []) = map (\<lambda>k. filter (\<lambda>x. key x = k) xs) (first_keys (map key xs))"
  by (simp add: group_by_closed comp_def)


section \<open>The loops of the classifier\<close>

lemma fst_pushDuplicates: "fst (pushDuplicates xs (d, g)) = group_by hash xs d"
  by (induction xs arbitrary: d g) (simp_all add: pushDuplicates_def group_by_def)

lemma fst_pushDuplicates': "fst (pushDuplicates xs acc) = group_by hash xs (fst acc)"
  by (cases acc) (simp add: fst_pushDuplicates)

lemma pushDuplicates_append:
  "pushDuplicates (xs @ ys) acc = pushDuplicates ys (pushDuplicates xs acc)"
  by (simp add: pushDuplicates_def)

lemma pushDuplicates_Nil [simp]: "pushDuplicates [] acc = acc"
  by (simp add: pushDuplicates_def)

lemma hashGroupFiles_ok:
  "\<forall>f\<in>set fs. \<not> isl (fullDigest env (path f)) \<Longrightarrow>
   fst (hashGroupFiles env fs s) = Inr (map (set_hash env) fs)"
proof (induction fs arbitrary: s)
  case Nil
  show ?case by simp
next
  case (Cons f fs)
  then obtain h where h: "fullDigest env (path f) = Inr h"
    by (cases "fullDigest env (path f)") auto
  from Cons.prems have rest: "\<forall>f\<in>set fs. \<not> isl (fullDigest env (path f))" by simp
  have "fst (hashGroupFiles env fs (storeFileHash (f\<lparr>hash := Some h\<rparr>)
      (log_events [FullRead (path f)] s))) = Inr (map (set_hash env) fs)"
    by (rule Cons.IH [OF rest])
  then show ?case
    using h by (auto simp: Let_def set_hash_def split: prod.splits sum.splits)
qed

lemma hashGroupFiles_fail:
  "\<exists>f\<in>set fs. isl (fullDigest env (path f)) \<Longrightarrow> isl (fst (hashGroupFiles env fs s))"
proof (induction fs arbitrary: s)
  case Nil
  then show ?case by simp
next
  case (Cons f fs)
  show ?case
  proof (cases "fullDigest env (path f)")
    case (Inl e)
    then show ?thesis by simp
  next
    case (Inr h)
    with Cons.prems have "\<exists>f\<in>set fs. isl (fullDigest env (path f))" by auto
    then have "isl (fst (hashGroupFiles env fs (storeFileHash (f\<lparr>hash := Some h\<rparr>)
      (log_events [FullRead (path f)] s))))"
      by (rule Cons.IH)
    then show ?thesis
      using Inr by (auto simp: Let_def split: prod.splits sum.splits)
  qed
qed

lemma processQuick_ok:
  "\<forall>f\<in>set (concat (filter (\<lambda>q. 1 < length q) qgs)). \<not> isl (fullDigest env (path f)) \<Longrightarrow>
   fst (processQuickHashGroups env sid n qgs acc s) =
     Inr (pushDuplicates (map (set_hash env) (concat (filter (\<lambda>q. 1 < length q) qgs))) acc)"
proof (induction qgs arbitrary: acc s)
  case Nil
  show ?case by simp
next
  case (Cons q qgs)
  from Cons.prems
  have rest: "\<forall>f\<in>set (concat (filter (\<lambda>q. 1 < length q) qgs)). \<not> isl (fullDigest env (path f))"
    by (auto split: if_splits)
  show ?case
  proof (cases "1 < length q")
    case False
    then show ?thesis using Cons.IH [OF rest] by simp
  next
    case True
    with Cons.prems have "\<forall>f\<in>set q. \<not> isl (fullDigest env (path f))" by auto
    then have "fst (hashGroupFiles env q s) = Inr (map (set_hash env) q)"
      by (rule hashGroupFiles_ok)
    then obtain s' where "hashGroupFiles env q s = (Inr (map (set_hash env) q), s')"
      by (cases "hashGroupFiles env q s") auto
    then show ?thesis
      using True Cons.IH [OF rest]
      by (simp add: Let_def pushDuplicates_append)
  qed
qed

lemma processQuick_fail:
  "\<exists>f\<in>set (concat (filter (\<lambda>q. 1 < length q) qgs)). isl (fullDigest env (path f)) \<Longrightarrow>
   isl (fst (processQuickHashGroups env sid n qgs acc s))"
proof (induction qgs arbitrary: acc s)
  case Nil
  then show ?case by simp
next
  case (Cons q qgs)
  show ?case
  proof (cases "1 < length q")
    case False
    with Cons.prems
    have "\<exists>f\<in>set (concat (filter (\<lambda>q. 1 < length q) qgs)). isl (fullDigest env (path f))"
      by auto
    from Cons.IH [OF this] False show ?thesis by simp
  next
    case True
    show ?thesis
    proof (cases "\<exists>f\<in>set q. isl (fullDigest env (path f))")
      case True
      then have "isl (fst (hashGroupFiles env q s))" by (rule hashGroupFiles_fail)
      then show ?thesis
        using \<open>1 < length q\<close> by (auto split: prod.splits sum.splits)
    next
      case False
      with Cons.prems True
      have "\<exists>f\<in>set (concat (filter (\<lambda>q. 1 < length q) qgs)). isl (fullDigest env (path f))"
        by auto
      note IH = Cons.IH [OF this]
      show ?thesis
        using True IH by (auto simp: Let_def split: prod.splits sum.splits)
    qed
  qed
qed

lemma processSize_ok:
  "\<forall>f\<in>set (concat (concat (map (\<lambda>g. filter (\<lambda>q. 1 < length q)
        (map snd (group_by quickHash g []))) sgs))). \<not> isl (fullDigest env (path f)) \<Longrightarrow>
   fst (processSizeGroups env sid n sgs acc s) =
     Inr (pushDuplicates (map (set_hash env)
       (concat (concat (map (\<lambda>g. filter (\<lambda>q. 1 < length q)
          (map snd (group_by quickHash g []))) sgs)))) acc)"
proof (induction sgs arbitrary: acc s)
  case Nil
  show ?case by simp
next
  case (Cons g sgs)
  let ?qs = "map snd (group_by quickHash g [])"
  from Cons.prems
  have here: "\<forall>f\<in>set (concat (filter (\<lambda>q. 1 < length q) ?qs)). \<not> isl (fullDigest env (path f))"
    by auto
  from Cons.prems
  have rest: "\<forall>f\<in>set (concat (concat (map (\<lambda>g. filter (\<lambda>q. 1 < length q)
        (map snd (group_by quickHash g []))) sgs))). \<not> isl (fullDigest env (path f))"
    by auto
  obtain s' where "processQuickHashGroups env sid n ?qs acc s =
      (Inr (pushDuplicates (map (set_hash env) (concat (filter (\<lambda>q. 1 < length q) ?qs))) acc), s')"
    using processQuick_ok [OF here, of sid n acc s]
    by (cases "processQuickHashGroups env sid n ?qs acc s") auto
  then show ?case
    using Cons.IH [OF rest] by (simp add: Let_def pushDuplicates_append)
qed

lemma processSize_fail:
  "\<exists>f\<in>set (concat (concat (map (\<lambda>g. filter (\<lambda>q. 1 < length q)
        (map snd (group_by quickHash g []))) sgs))). isl (fullDigest env (path f)) \<Longrightarrow>
   isl (fst (processSizeGroups env sid n sgs acc s))"
proof (induction sgs arbitrary: acc s)
  case Nil
  then show ?case by simp
next
  case (Cons g sgs)
  let ?qs = "map snd (group_by quickHash g [])"
  show ?case
  proof (cases "\<exists>f\<in>set (concat (filter (\<lambda>q. 1 < length q) ?qs)). isl (fullDigest env (path f))")
    case True
    then have "isl (fst (processQuickHashGroups env sid n ?qs acc s))"
      by (rule processQuick_fail)
    then show ?thesis by (auto simp: Let_def split: prod.splits sum.splits)
  next
    case False
    with Cons.prems
    have "\<exists>f\<in>set (concat (concat (map (\<lambda>g. filter (\<lambda>q. 1 < length q)
        (map snd (group_by quickHash g []))) sgs))). isl (fullDigest env (path f))"
      by auto
    note IH = Cons.IH [OF this]
    show ?thesis
      using IH by (auto simp: Let_def split: prod.splits sum.splits)
  qed
qed

lemma classify_ok:
  assumes "\<forall>f\<in>set (concat (candidates files)). \<not> isl (fullDigest env (path f))"
  shows "fst (classify env sid files s) =
    Inr (sort_groups (discovered_groups
      (group_by hash (map (set_hash env) (concat (candidates files))) [])))"
proof -
  have "fst (processSizeGroups env sid (length files) (potentialDuplicates files) ([], 0) s) =
      Inr (pushDuplicates (map (set_hash env) (concat (candidates files))) ([], 0))"
    using assms unfolding candidates_def by (rule processSize_ok)
  then show ?thesis
    using fst_pushDuplicates [of "map (set_hash env) (concat (candidates files))" "[]" 0]
    by (cases "processSizeGroups env sid (length files) (potentialDuplicates files) ([], 0) s";
        cases "pushDuplicates (map (set_hash env) (concat (candidates files))) ([], 0)")
      (auto simp: classify_def split: sum.splits prod.splits)
qed

lemma classify_fail:
  assumes "\<exists>f\<in>set (concat (candidates files)). isl (fullDigest env (path f))"
  shows "isl (fst (classify env sid files s))"
proof -
  have "isl (fst (processSizeGroups env sid (length files) (potentialDuplicates files) ([], 0) s))"
    using assms unfolding candidates_def by (rule processSize_fail)
  then show ?thesis
    by (auto simp: classify_def split: sum.splits prod.splits)
qed

section \<open>The walk and the result of findDuplicates\<close>

text \<open>
  A call of \<^verbatim>\<open>findDuplicates\<close> is the scan with the index where the database can be
  opened, and the error of the constructor where it cannot.
\<close>

lemma newScanDatabase_Inr:
  "newScanDatabase env d dbPath = Inr db \<Longrightarrow> db = open_database d dbPath"
  by (simp add: newScanDatabase_def split: if_splits)

lemma findDuplicates_opened:
  "db_openable env (choose_dbPath env opts) \<Longrightarrow>
   findDuplicates env opts d dir listing = scanWithIndex env opts d dir listing"
  by (simp add: findDuplicates_def scanWithIndex_def newScanDatabase_def Let_def)

lemma findDuplicates_unopened:
  "\<not> db_openable env (choose_dbPath env opts) \<Longrightarrow>
   findDuplicates env opts d dir listing = (Inl (OpenFailed (choose_dbPath env opts)), d, [])"
  by (simp add: findDuplicates_def newScanDatabase_def)

lemma findDuplicates_Inr_scan:
  assumes "fst (findDuplicates env opts d dir listing) = Inr r"
  shows "db_openable env (choose_dbPath env opts)"
    and "fst (scanWithIndex env opts d dir listing) = Inr r"
proof -
  show op: "db_openable env (choose_dbPath env opts)"
  proof (rule ccontr)
    assume "\<not> db_openable env (choose_dbPath env opts)"
    from findDuplicates_unopened [OF this, of d dir listing] assms show False by simp
  qed
  from assms show "fst (scanWithIndex env opts d dir listing) = Inr r"
    unfolding findDuplicates_opened [OF op] .
qed

lemma walk_files:
  "fst (scanDirectory env rc ex sid dir listing s) =
     (case listing of None \<Rightarrow> Inl (ScanFailed dir)
      | Some es \<Rightarrow> Inr (entries_files env rc ex dir es))"
  "fst (scanEntries env rc ex sid dir es acc n s) = acc @ entries_files env rc ex dir es"
proof (induction env rc ex sid dir listing s and env rc ex sid dir es acc n s
    rule: scanDirectory_scanEntries.induct)
  case (1 env rc ex sid dir s)
  show ?case by simp
next
  case (2 env rc ex sid dir ents s)
  then show ?case by (simp split: prod.splits) (metis fst_conv append_Nil)
next
  case (3 env rc ex sid dir allFiles n s)
  show ?case by simp
next
  case (4 env rc ex sid dir nm ents allFiles n s)
  then show ?case
    by (simp add: Let_def split: sum.splits)
next
  case (5 env rc ex sid dir nm listing ents allFiles n s)
  then show ?case
    by (cases listing)
      (auto simp: Let_def split: sum.splits prod.splits option.splits)
next
  case (6 env rc ex sid dir nm ents allFiles n s)
  then show ?case by simp
qed

lemma entries_files_consistent:
  "f \<in> set (entry_files env rc ex dir e) \<Longrightarrow>
     fsize f = length (content (fs_file env (path f))) \<and>
     quickDigest env (path f) = Inr (quickHash f) \<and> hash f = None"
  "f \<in> set (entries_files env rc ex dir es) \<Longrightarrow>
     fsize f = length (content (fs_file env (path f))) \<and>
     quickDigest env (path f) = Inr (quickHash f) \<and> hash f = None"
proof (induction env rc ex dir e and env rc ex dir es rule: entry_files_entries_files.induct)
  case (1 env rc ex dir nm)
  then show ?case
    by (auto simp: Let_def make_fileInfo_def fs_stat_def split: if_splits sum.splits)
next
  case (2 env rc ex dir nm listing)
  then show ?case by (auto simp: Let_def split: if_splits option.splits)
next
  case (3 env rc ex dir nm)
  then show ?case by simp
next
  case (4 env rc ex dir)
  then show ?case by simp
next
  case (5 env rc ex dir e es)
  then show ?case by auto
qed

lemma findDuplicates_None:
  "fst (scanWithIndex env opts d dir None) = Inl (FindFailed (ScanFailed dir))"
  by (simp add: scanWithIndex_def Let_def split: prod.splits)

lemma findDuplicates_Some:
  obtains sid s where
    "fst (scanWithIndex env opts d dir (Some es)) =
       (case fst (classify env sid (scanned_files env opts dir es) s) of
          Inl e \<Rightarrow> Inl (FindFailed e)
        | Inr r \<Rightarrow> Inr (r, choose_dbPath env opts, sid))"
proof -
  obtain sid db1 where st: "startScan (path_resolve env dir) (date_now env 0)
      (open_database d (choose_dbPath env opts)) = (sid, db1)"
    by (cases "startScan (path_resolve env dir) (date_now env 0)
      (open_database d (choose_dbPath env opts))")
  obtain r s1 where sc: "scanDirectory env (recursive opts) (exclude opts) sid dir (Some es)
      \<lparr>st_db = db1, st_trace = []\<rparr> = (r, s1)"
    by (cases "scanDirectory env (recursive opts) (exclude opts) sid dir (Some es)
      \<lparr>st_db = db1, st_trace = []\<rparr>")
  have r: "r = Inr (scanned_files env opts dir es)"
    using walk_files(1) [of env "recursive opts" "exclude opts" sid dir "Some es"
        "\<lparr>st_db = db1, st_trace = []\<rparr>"] sc
    by (simp add: scanned_files_def)
  have "fst (scanWithIndex env opts d dir (Some es)) =
       (case fst (classify env sid (scanned_files env opts dir es) s1) of
          Inl e \<Rightarrow> Inl (FindFailed e)
        | Inr r \<Rightarrow> Inr (r, choose_dbPath env opts, sid))"
    unfolding scanWithIndex_def Let_def st prod.case sc r
    by (cases "classify env sid (scanned_files env opts dir es) s1")
      (auto split: sum.splits)
  then show thesis by (rule that)
qed

section \<open>Groups of the classifier\<close>

lemma classify_Inr:
  assumes "fst (classify env sid files s) = Inr result"
  shows "\<forall>f\<in>set (concat (candidates files)). \<not> isl (fullDigest env (path f))"
    and "result = sort_groups (discovery env files)"
proof -
  show ok: "\<forall>f\<in>set (concat (candidates files)). \<not> isl (fullDigest env (path f))"
  proof (rule ccontr)
    assume "\<not> ?thesis"
    then have "\<exists>f\<in>set (concat (candidates files)). isl (fullDigest env (path f))" by blast
    from classify_fail [OF this, of sid s] assms show False by simp
  qed
  from classify_ok [OF ok, of sid s] assms
  show "result = sort_groups (discovery env files)" by (simp add: discovery_def)
qed

lemma classify_state_independent:
  "fst (classify env sid files s) = Inr result \<Longrightarrow> fst (classify env sid' files s') = Inr result"
  using classify_Inr [of env sid files s result] classify_ok [of files env sid' s']
  by (simp add: discovery_def)

lemma set_hash_ok:
  assumes "\<not> isl (fullDigest env (path f))"
  shows "\<exists>h. fullDigest env (path f) = Inr h \<and> set_hash env f = f\<lparr>hash := Some h\<rparr>"
  using assms by (cases "fullDigest env (path f)") (auto simp: set_hash_def)

lemma discovery_group:
  assumes ok: "\<forall>f\<in>set (concat (candidates files)). \<not> isl (fullDigest env (path f))"
    and g: "g \<in> set (discovery env files)"
  shows "2 \<le> length g"
    and "\<exists>k. g = filter (\<lambda>f. hash f = k) (map (set_hash env) (concat (candidates files)))"
    and "\<exists>h. \<forall>f\<in>set g. hash f = Some h \<and> fullDigest env (path f) = Inr h"
    and "\<forall>f\<in>set g. \<exists>f0\<in>set (concat (candidates files)). f = set_hash env f0"
proof -
  let ?X = "map (set_hash env) (concat (candidates files))"
  from g have len: "1 < length g" and "g \<in> set (map snd (group_by hash ?X []))"
    by (auto simp: discovery_def discovered_groups_def)
  then obtain k where k: "g = filter (\<lambda>f. hash f = k) ?X"
    by (auto simp: groups_closed)
  from len show "2 \<le> length g" by simp
  from k show "\<exists>k. g = filter (\<lambda>f. hash f = k) ?X" by blast
  have mem: "\<exists>f0\<in>set (concat (candidates files)). f = set_hash env f0"
    if "f \<in> set g" for f
    using that k by auto
  then show "\<forall>f\<in>set g. \<exists>f0\<in>set (concat (candidates files)). f = set_hash env f0" by blast
  have each: "\<exists>h. k = Some h \<and> hash f = Some h \<and> fullDigest env (path f) = Inr h"
    if "f \<in> set g" for f
  proof -
    from mem [OF that] obtain f0 where f0: "f0 \<in> set (concat (candidates files))"
      and f: "f = set_hash env f0" by blast
    from ok f0 have "\<not> isl (fullDigest env (path f0))" by blast
    from set_hash_ok [OF this] obtain h where "fullDigest env (path f0) = Inr h"
      and "set_hash env f0 = f0\<lparr>hash := Some h\<rparr>" by blast
    moreover from that k have "hash f = k" by simp
    ultimately show ?thesis using f by auto
  qed
  from len obtain f1 where f1: "f1 \<in> set g" by (cases g) auto
  from each [OF f1] obtain h where h: "k = Some h" by blast
  have "\<forall>f\<in>set g. hash f = Some h \<and> fullDigest env (path f) = Inr h"
    using each h by auto
  then show "\<exists>h. \<forall>f\<in>set g. hash f = Some h \<and> fullDigest env (path f) = Inr h" ..
qed

lemma fst_startScan: "fst (startScan b t db) = next_rowid (map info_id (scan_info_tbl db))"
  by (simp add: startScan_def Let_def)

lemma findDuplicates_result:
  assumes "\<forall>f\<in>set (concat (candidates (scanned_files env opts dir es))).
      \<not> isl (fullDigest env (path f))"
  shows "fst (scanWithIndex env opts d dir (Some es)) =
    Inr (sort_groups (discovery env (scanned_files env opts dir es)), choose_dbPath env opts,
      new_scan_id env opts d)"
proof -
  let ?db = "open_database d (choose_dbPath env opts)"
  obtain sid db1 where st: "startScan (path_resolve env dir) (date_now env 0) ?db = (sid, db1)"
    by (cases "startScan (path_resolve env dir) (date_now env 0) ?db")
  then have sid: "sid = new_scan_id env opts d"
    using fst_startScan [of "path_resolve env dir" "date_now env 0" ?db]
    by (simp add: new_scan_id_def)
  obtain r s1 where sc: "scanDirectory env (recursive opts) (exclude opts) sid dir (Some es)
      \<lparr>st_db = db1, st_trace = []\<rparr> = (r, s1)"
    by (cases "scanDirectory env (recursive opts) (exclude opts) sid dir (Some es)
      \<lparr>st_db = db1, st_trace = []\<rparr>")
  have r: "r = Inr (scanned_files env opts dir es)"
    using walk_files(1) [of env "recursive opts" "exclude opts" sid dir "Some es"
        "\<lparr>st_db = db1, st_trace = []\<rparr>"] sc
    by (simp add: scanned_files_def)
  have c: "fst (classify env sid (scanned_files env opts dir es) s1) =
      Inr (sort_groups (discovery env (scanned_files env opts dir es)))"
    using classify_ok [OF assms] by (simp add: discovery_def)
  show ?thesis
    unfolding scanWithIndex_def Let_def st prod.case sc r
    using c sid
    by (cases "classify env sid (scanned_files env opts dir es) s1") auto
qed

section \<open>The example run\<close>

lemma hex_hello: "toString_hex [104, 101, 108, 108, 111] = ''68656c6c6f''"
  by (simp add: toString_hex_def byte_hex_def hex_digit_def)

lemma hex_world: "toString_hex [119, 111, 114, 108, 100] = ''776f726c64''"
  by (simp add: toString_hex_def byte_hex_def hex_digit_def)

lemma hex_longer: "toString_hex [104, 101, 108, 108, 111, 33] = ''68656c6c6f21''"
  by (simp add: toString_hex_def byte_hex_def hex_digit_def)

lemma calculateHash_ok:
  "read_fault f = NoFault \<Longrightarrow> calculateHash sha p f = Inr (sha (content f))"
  by (simp add: calculateHash_def createReadStream_def stream_range_full digest_of_chunks)

lemma demo_quick:
  "quickDigest demo_env ''/d/a.txt'' = Inr ''68656c6c6f''"
  "quickDigest demo_env ''/d/b.txt'' = Inr ''68656c6c6f''"
  "quickDigest demo_env ''/d/c.txt'' = Inr ''776f726c64''"
  "quickDigest demo_env ''/d/e.txt'' = Inr ''68656c6c6f21''"
  "quickDigest demo_env ''/d/f.txt'' = Inr ''68656c6c6f21''"
  by (simp_all add: quickDigest_def demo_env_def demo_fs_def calculateQuickHash_ok
      demo_hello_def demo_world_def demo_longer_def hex_hello hex_world hex_longer)

lemma demo_full:
  "fullDigest demo_env ''/d/a.txt'' = Inr ''68656c6c6f''"
  "fullDigest demo_env ''/d/b.txt'' = Inr ''68656c6c6f''"
  "fullDigest demo_env ''/d/c.txt'' = Inr ''776f726c64''"
  "fullDigest demo_env ''/d/e.txt'' = Inr ''68656c6c6f21''"
  "fullDigest demo_env ''/d/f.txt'' = Inr ''68656c6c6f21''"
  by (simp_all add: fullDigest_def demo_env_def demo_fs_def calculateHash_ok
      demo_hello_def demo_world_def demo_longer_def hex_hello hex_world hex_longer)

lemma demo_join:
  "path_join demo_env ''/d'' ''a.txt'' = ''/d/a.txt''"
  "path_join demo_env ''/d'' ''b.txt'' = ''/d/b.txt''"
  "path_join demo_env ''/d'' ''c.txt'' = ''/d/c.txt''"
  "path_join demo_env ''/d'' ''e.txt'' = ''/d/e.txt''"
  "path_join demo_env ''/d'' ''f.txt'' = ''/d/f.txt''"
  by (simp_all add: demo_env_def)

lemma demo_stat:
  "fs_stat p (fs_file demo_env ''/d/a.txt'') = Inr (5, 0, 0)"
  "fs_stat p (fs_file demo_env ''/d/b.txt'') = Inr (5, 0, 0)"
  "fs_stat p (fs_file demo_env ''/d/c.txt'') = Inr (5, 0, 0)"
  "fs_stat p (fs_file demo_env ''/d/e.txt'') = Inr (6, 0, 0)"
  "fs_stat p (fs_file demo_env ''/d/f.txt'') = Inr (6, 0, 0)"
  by (simp_all add: demo_env_def demo_fs_def fs_stat_def demo_hello_def demo_world_def
      demo_longer_def)

lemma demo_format: "format_size demo_env n = []"
  by (simp add: demo_env_def)

lemma demo_files:
  "scanned_files demo_env demo_opts ''/d'' demo_tree
   = [(demo_record ''/d/a.txt'' ''a.txt'')\<lparr>hash := None\<rparr>,
      (demo_record ''/d/b.txt'' ''b.txt'')\<lparr>hash := None\<rparr>,
      (demo_record ''/d/c.txt'' ''c.txt'')\<lparr>quickHash := ''776f726c64'', hash := None\<rparr>]"
  by (simp add: scanned_files_def demo_tree_def demo_opts_def demo_join demo_stat demo_format
      demo_quick excluded_def make_fileInfo_def demo_record_def)

lemma demo_files2:
  "scanned_files demo_env demo_opts ''/d'' demo_tree2
   = [(demo_record ''/d/a.txt'' ''a.txt'')\<lparr>hash := None\<rparr>,
      (demo_record2 ''/d/e.txt'' ''e.txt'')\<lparr>hash := None\<rparr>,
      (demo_record ''/d/b.txt'' ''b.txt'')\<lparr>hash := None\<rparr>,
      (demo_record2 ''/d/f.txt'' ''f.txt'')\<lparr>hash := None\<rparr>]"
  by (simp add: scanned_files_def demo_tree2_def demo_opts_def demo_join demo_stat demo_format
      demo_quick excluded_def make_fileInfo_def demo_record_def demo_record2_def)

lemma demo_candidates:
  "candidates (scanned_files demo_env demo_opts ''/d'' demo_tree)
   = [[(demo_record ''/d/a.txt'' ''a.txt'')\<lparr>hash := None\<rparr>,
       (demo_record ''/d/b.txt'' ''b.txt'')\<lparr>hash := None\<rparr>]]"
  by (simp add: demo_files candidates_def potentialDuplicates_def sizeGroups_def group_by_def
      demo_record_def)

lemma demo_candidates2:
  "candidates (scanned_files demo_env demo_opts ''/d'' demo_tree2)
   = [[(demo_record ''/d/a.txt'' ''a.txt'')\<lparr>hash := None\<rparr>,
       (demo_record ''/d/b.txt'' ''b.txt'')\<lparr>hash := None\<rparr>],
      [(demo_record2 ''/d/e.txt'' ''e.txt'')\<lparr>hash := None\<rparr>,
       (demo_record2 ''/d/f.txt'' ''f.txt'')\<lparr>hash := None\<rparr>]]"
  by (simp add: demo_files2 candidates_def potentialDuplicates_def sizeGroups_def group_by_def
      demo_record_def demo_record2_def)

lemma demo_discovery:
  "discovery demo_env (scanned_files demo_env demo_opts ''/d'' demo_tree)
   = [[demo_record ''/d/a.txt'' ''a.txt'', demo_record ''/d/b.txt'' ''b.txt'']]"
  by (simp add: discovery_def demo_candidates set_hash_def demo_record_def demo_full
      discovered_groups_def group_by_def)

lemma demo_discovery2:
  "discovery demo_env (scanned_files demo_env demo_opts ''/d'' demo_tree2)
   = [[demo_record ''/d/a.txt'' ''a.txt'', demo_record ''/d/b.txt'' ''b.txt''],
      [demo_record2 ''/d/e.txt'' ''e.txt'', demo_record2 ''/d/f.txt'' ''f.txt'']]"
  by (simp add: discovery_def demo_candidates2 set_hash_def demo_record_def demo_record2_def
      demo_full discovered_groups_def group_by_def)

lemma demo_dbPath: "choose_dbPath demo_env demo_opts = ''/d/.super-dee-duper.abababab''"
  by (simp add: choose_dbPath_def demo_opts_def generateIndexPath_def randomBytes_def
      demo_env_def toString_hex_def byte_hex_def hex_digit_def upt_rec)

lemma demo_opened:
  "findDuplicates demo_env demo_opts d dir listing = scanWithIndex demo_env demo_opts d dir listing"
  by (rule findDuplicates_opened) (simp add: demo_dbPath, simp add: demo_env_def)

lemma demo_scan_id: "new_scan_id demo_env demo_opts Map.empty = 1"
  by (simp add: new_scan_id_def open_database_def empty_database_def next_rowid_def)

lemma demo_run:
  "fst (scanWithIndex demo_env demo_opts Map.empty ''/d'' (Some demo_tree)) =
     Inr ([[demo_record ''/d/a.txt'' ''a.txt'', demo_record ''/d/b.txt'' ''b.txt'']],
          ''/d/.super-dee-duper.abababab'', 1)"
proof -
  have "\<forall>f\<in>set (concat (candidates (scanned_files demo_env demo_opts ''/d'' demo_tree))).
      \<not> isl (fullDigest demo_env (path f))"
    by (simp add: demo_candidates demo_record_def demo_full)
  from findDuplicates_result [OF this, of Map.empty] show ?thesis
    by (simp add: demo_discovery demo_dbPath demo_scan_id sort_groups_def)
qed

lemma demo_run2:
  "fst (scanWithIndex demo_env demo_opts Map.empty ''/d'' (Some demo_tree2)) =
     Inr ([[demo_record2 ''/d/e.txt'' ''e.txt'', demo_record2 ''/d/f.txt'' ''f.txt''],
           [demo_record ''/d/a.txt'' ''a.txt'', demo_record ''/d/b.txt'' ''b.txt'']],
          ''/d/.super-dee-duper.abababab'', 1)"
proof -
  have "\<forall>f\<in>set (concat (candidates (scanned_files demo_env demo_opts ''/d'' demo_tree2))).
      \<not> isl (fullDigest demo_env (path f))"
    by (simp add: demo_candidates2 demo_record_def demo_record2_def demo_full)
  from findDuplicates_result [OF this, of Map.empty] show ?thesis
    by (simp add: demo_discovery2 demo_dbPath demo_scan_id sort_groups_def first_size_def
        demo_record_def demo_record2_def)
qed

section \<open>Claims about the groups\<close>

lemma findDuplicates_Inr_classify:
  assumes "fst (scanWithIndex env opts d dir listing) = Inr (result, dbPath, scanId)"
  obtains es i t where "listing = Some es"
    and "fst (classify env i (scanned_files env opts dir es) t) = Inr result"
proof (cases listing)
  case None
  with assms show ?thesis by (simp add: findDuplicates_None)
next
  case (Some es)
  obtain i t where "fst (scanWithIndex env opts d dir (Some es)) =
     (case fst (classify env i (scanned_files env opts dir es) t) of
        Inl e \<Rightarrow> Inl (FindFailed e)
      | Inr r \<Rightarrow> Inr (r, choose_dbPath env opts, i))"
    by (rule findDuplicates_Some)
  with assms Some have "fst (classify env i (scanned_files env opts dir es) t) = Inr result"
    by (auto split: sum.splits)
  with Some show ?thesis by (rule that)
qed

lemma classify_groups:
  assumes "fst (classify env i fs t) = Inr r"
  shows "\<forall>g\<in>set r. 2 \<le> length g \<and>
         (\<exists>h. \<forall>f\<in>set g. hash f = Some h \<and> fullDigest env (path f) = Inr h)"
proof
  fix g assume g: "g \<in> set r"
  from classify_Inr [OF assms] have ok: "\<forall>f\<in>set (concat (candidates fs)).
      \<not> isl (fullDigest env (path f))" and r: "r = sort_groups (discovery env fs)"
    by blast+
  from g r have "g \<in> set (discovery env fs)" by (simp add: sort_groups_def)
  from discovery_group(1) [OF ok this] discovery_group(3) [OF ok this]
  show "2 \<le> length g \<and>
       (\<exists>h. \<forall>f\<in>set g. hash f = Some h \<and> fullDigest env (path f) = Inr h)"
    by (rule conjI)
qed

lemma classify_groups_content:
  assumes "fst (classify env i fs t) = Inr r"
  shows "\<forall>g\<in>set r. 2 \<le> length g \<and>
    (\<exists>h. \<forall>f\<in>set g. hash f = Some h \<and> fullDigest env (path f) = Inr h \<and>
       h = sha256 env (content (fs_file env (path f))))"
proof
  fix g assume "g \<in> set r"
  with classify_groups [OF assms] have l: "2 \<le> length g"
    and "\<exists>h. \<forall>f\<in>set g. hash f = Some h \<and> fullDigest env (path f) = Inr h" by blast+
  then obtain h where h: "\<forall>f\<in>set g. hash f = Some h \<and> fullDigest env (path f) = Inr h"
    by blast
  have "\<forall>f\<in>set g. hash f = Some h \<and> fullDigest env (path f) = Inr h \<and>
      h = sha256 env (content (fs_file env (path f)))"
  proof
    fix f assume "f \<in> set g"
    with h have a: "hash f = Some h" and b: "fullDigest env (path f) = Inr h" by blast+
    from b have "h = sha256 env (content (fs_file env (path f)))"
      unfolding fullDigest_def by (rule calculateHash_Inr)
    with a b show "hash f = Some h \<and> fullDigest env (path f) = Inr h \<and>
      h = sha256 env (content (fs_file env (path f)))" by simp
  qed
  with l show "2 \<le> length g \<and>
    (\<exists>h. \<forall>f\<in>set g. hash f = Some h \<and> fullDigest env (path f) = Inr h \<and>
       h = sha256 env (content (fs_file env (path f))))" by blast
qed

text \<open>
  Claim C1.  Whatever the records and whatever the index, every group the classifier
  returns has at least two members, and there is one digest that is the \<open>hash\<close> of every
  member, that the full digest of every member's path yields again, and that is the
  SHA-256 digest of the whole content of every member's file; so the members have the
  same content digest and no member has a null \<open>hash\<close>.  The same holds for the groups
  \<^verbatim>\<open>findDuplicates\<close> returns.
\<close>

theorem C1_duplicate_groups:
  "(fst (classify env sid files s) = Inr result \<longrightarrow>
      (\<forall>g\<in>set result. 2 \<le> length g \<and>
         (\<exists>h. \<forall>f\<in>set g. hash f = Some h \<and> fullDigest env (path f) = Inr h \<and>
            h = sha256 env (content (fs_file env (path f))))))
   \<and> (fst (findDuplicates env opts d dir listing) = Inr (result', dbPath, scanId) \<longrightarrow>
      (\<forall>g\<in>set result'. 2 \<le> length g \<and>
         (\<exists>h. \<forall>f\<in>set g. hash f = Some h \<and> fullDigest env (path f) = Inr h \<and>
            h = sha256 env (content (fs_file env (path f))))))"
proof (intro conjI impI)
  assume "fst (classify env sid files s) = Inr result"
  then show "\<forall>g\<in>set result. 2 \<le> length g \<and>
         (\<exists>h. \<forall>f\<in>set g. hash f = Some h \<and> fullDigest env (path f) = Inr h \<and>
            h = sha256 env (content (fs_file env (path f))))"
    by (rule classify_groups_content)
next
  assume "fst (findDuplicates env opts d dir listing) = Inr (result', dbPath, scanId)"
  then have "fst (scanWithIndex env opts d dir listing) = Inr (result', dbPath, scanId)"
    by (rule findDuplicates_Inr_scan(2))
  then obtain es i t where "fst (classify env i (scanned_files env opts dir es) t) = Inr result'"
    by (rule findDuplicates_Inr_classify)
  then show "\<forall>g\<in>set result'. 2 \<le> length g \<and>
         (\<exists>h. \<forall>f\<in>set g. hash f = Some h \<and> fullDigest env (path f) = Inr h \<and>
            h = sha256 env (content (fs_file env (path f))))"
    by (rule classify_groups_content)
qed

theorem C1_duplicate_groups_witness:
  "fst (findDuplicates demo_env demo_opts Map.empty ''/d'' (Some demo_tree)) =
     Inr ([[demo_record ''/d/a.txt'' ''a.txt'', demo_record ''/d/b.txt'' ''b.txt'']],
          ''/d/.super-dee-duper.abababab'', 1)
   \<and> 2 \<le> length [demo_record ''/d/a.txt'' ''a.txt'', demo_record ''/d/b.txt'' ''b.txt'']
   \<and> (\<exists>h. hash (demo_record ''/d/a.txt'' ''a.txt'') = Some h
          \<and> fullDigest demo_env (path (demo_record ''/d/a.txt'' ''a.txt'')) = Inr h
          \<and> h = sha256 demo_env (content (fs_file demo_env (path (demo_record ''/d/a.txt'' ''a.txt''))))
          \<and> hash (demo_record ''/d/b.txt'' ''b.txt'') = Some h
          \<and> fullDigest demo_env (path (demo_record ''/d/b.txt'' ''b.txt'')) = Inr h
          \<and> h = sha256 demo_env (content (fs_file demo_env (path (demo_record ''/d/b.txt'' ''b.txt'')))))"
proof -
  let ?a = "demo_record ''/d/a.txt'' ''a.txt''"
  let ?b = "demo_record ''/d/b.txt'' ''b.txt''"
  let ?g = "[?a, ?b]"
  have run: "fst (findDuplicates demo_env demo_opts Map.empty ''/d'' (Some demo_tree)) =
      Inr ([?g], ''/d/.super-dee-duper.abababab'', 1)"
    unfolding demo_opened by (rule demo_run)
  note T = C1_duplicate_groups [where env = demo_env and opts = demo_opts and d = Map.empty
      and dir = "''/d''" and listing = "Some demo_tree" and result' = "[?g]"
      and dbPath = "''/d/.super-dee-duper.abababab''" and scanId = 1]
  note B = T [THEN conjunct2, THEN mp, OF run]
  have m: "?g \<in> set [?g]" by simp
  from B m have G: "2 \<le> length ?g \<and>
      (\<exists>h. \<forall>f\<in>set ?g. hash f = Some h \<and> fullDigest demo_env (path f) = Inr h \<and>
            h = sha256 demo_env (content (fs_file demo_env (path f))))"
    by (rule bspec)
  from G have l: "2 \<le> length ?g" by (rule conjunct1)
  from G have "\<exists>h. \<forall>f\<in>set ?g. hash f = Some h \<and> fullDigest demo_env (path f) = Inr h \<and>
            h = sha256 demo_env (content (fs_file demo_env (path f)))"
    by (rule conjunct2)
  then obtain h where all: "\<forall>f\<in>set ?g. hash f = Some h \<and>
      fullDigest demo_env (path f) = Inr h \<and>
      h = sha256 demo_env (content (fs_file demo_env (path f)))" ..
  have ma: "?a \<in> set ?g" and mb: "?b \<in> set ?g" by simp_all
  from all ma have a: "hash ?a = Some h \<and> fullDigest demo_env (path ?a) = Inr h
      \<and> h = sha256 demo_env (content (fs_file demo_env (path ?a)))"
    by (rule bspec)
  from all mb have b: "hash ?b = Some h \<and> fullDigest demo_env (path ?b) = Inr h
      \<and> h = sha256 demo_env (content (fs_file demo_env (path ?b)))"
    by (rule bspec)
  have ab: "hash ?a = Some h \<and> fullDigest demo_env (path ?a) = Inr h
      \<and> h = sha256 demo_env (content (fs_file demo_env (path ?a)))
      \<and> hash ?b = Some h \<and> fullDigest demo_env (path ?b) = Inr h
      \<and> h = sha256 demo_env (content (fs_file demo_env (path ?b)))"
    by (rule conjI [OF a [THEN conjunct1] conjI [OF a [THEN conjunct2, THEN conjunct1]
        conjI [OF a [THEN conjunct2, THEN conjunct2] b]]])
  have e: "\<exists>h. hash ?a = Some h \<and> fullDigest demo_env (path ?a) = Inr h
      \<and> h = sha256 demo_env (content (fs_file demo_env (path ?a)))
      \<and> hash ?b = Some h \<and> fullDigest demo_env (path ?b) = Inr h
      \<and> h = sha256 demo_env (content (fs_file demo_env (path ?b)))"
  proof (rule exI)
    show "hash ?a = Some h \<and> fullDigest demo_env (path ?a) = Inr h
      \<and> h = sha256 demo_env (content (fs_file demo_env (path ?a)))
      \<and> hash ?b = Some h \<and> fullDigest demo_env (path ?b) = Inr h
      \<and> h = sha256 demo_env (content (fs_file demo_env (path ?b)))"
      by (rule ab)
  qed
  show ?thesis by (rule conjI [OF run conjI [OF l e]])
qed

lemma classify_ordering:
  assumes "fst (classify env i fs t) = Inr r"
  shows "sorted_wrt (\<lambda>a b. first_size b \<le> first_size a) r
      \<and> (\<forall>k. filter (\<lambda>g. first_size g = k) r = filter (\<lambda>g. first_size g = k) (discovery env fs))
      \<and> mset r = mset (discovery env fs)
      \<and> (\<forall>g\<in>set r. g \<noteq> [])"
proof -
  from classify_Inr [OF assms] have r: "r = sort_groups (discovery env fs)" by blast
  have "sorted (map (\<lambda>g. - int (first_size g)) r)"
    unfolding r sort_groups_def by (rule sorted_sort_key)
  then have 1: "sorted_wrt (\<lambda>a b. first_size b \<le> first_size a) r"
    by (simp add: sorted_map)
  have 2: "filter (\<lambda>g. first_size g = k) r = filter (\<lambda>g. first_size g = k) (discovery env fs)"
    for k
    using sort_key_stable [of "\<lambda>g. - int (first_size g)" "- int k" "discovery env fs"]
    unfolding r sort_groups_def by simp
  have 3: "mset r = mset (discovery env fs)"
    unfolding r sort_groups_def by simp
  have "\<forall>g\<in>set (discovery env fs). g \<noteq> []"
    unfolding discovery_def discovered_groups_def by auto
  then have 4: "\<forall>g\<in>set r. g \<noteq> []"
    unfolding r sort_groups_def by simp
  from 1 2 3 4 show ?thesis by (intro conjI allI)
qed

lemma ordering_indexed:
  "(fst (classify env sid files s) = Inr result \<longrightarrow>
      (sorted_wrt (\<lambda>a b. first_size b \<le> first_size a) result
       \<and> (\<forall>k. filter (\<lambda>g. first_size g = k) result
              = filter (\<lambda>g. first_size g = k) (discovery env files))
       \<and> mset result = mset (discovery env files)
       \<and> (\<forall>g\<in>set result. g \<noteq> []))
      \<and> (\<forall>sid' s'. fst (classify env sid' files s') = Inr result))
   \<and> (fst (scanWithIndex env opts d dir (Some ents)) = Inr (result', dbPath, scanId) \<longrightarrow>
      sorted_wrt (\<lambda>a b. first_size b \<le> first_size a) result'
      \<and> (\<forall>k. filter (\<lambda>g. first_size g = k) result'
             = filter (\<lambda>g. first_size g = k) (discovery env (scanned_files env opts dir ents)))
      \<and> mset result' = mset (discovery env (scanned_files env opts dir ents))
      \<and> (\<forall>g\<in>set result'. g \<noteq> []))"
proof (rule conjI)
  show "fst (classify env sid files s) = Inr result \<longrightarrow>
      (sorted_wrt (\<lambda>a b. first_size b \<le> first_size a) result
       \<and> (\<forall>k. filter (\<lambda>g. first_size g = k) result
              = filter (\<lambda>g. first_size g = k) (discovery env files))
       \<and> mset result = mset (discovery env files)
       \<and> (\<forall>g\<in>set result. g \<noteq> []))
      \<and> (\<forall>sid' s'. fst (classify env sid' files s') = Inr result)"
  proof (rule impI, rule conjI)
    assume c: "fst (classify env sid files s) = Inr result"
    show "sorted_wrt (\<lambda>a b. first_size b \<le> first_size a) result
       \<and> (\<forall>k. filter (\<lambda>g. first_size g = k) result
              = filter (\<lambda>g. first_size g = k) (discovery env files))
       \<and> mset result = mset (discovery env files)
       \<and> (\<forall>g\<in>set result. g \<noteq> [])"
      by (rule classify_ordering [OF c])
    show "\<forall>sid' s'. fst (classify env sid' files s') = Inr result"
      using classify_state_independent [OF c] by blast
  qed
next
  show "fst (scanWithIndex env opts d dir (Some ents)) = Inr (result', dbPath, scanId) \<longrightarrow>
      sorted_wrt (\<lambda>a b. first_size b \<le> first_size a) result'
      \<and> (\<forall>k. filter (\<lambda>g. first_size g = k) result'
             = filter (\<lambda>g. first_size g = k) (discovery env (scanned_files env opts dir ents)))
      \<and> mset result' = mset (discovery env (scanned_files env opts dir ents))
      \<and> (\<forall>g\<in>set result'. g \<noteq> [])"
  proof (rule impI)
    assume "fst (scanWithIndex env opts d dir (Some ents)) = Inr (result', dbPath, scanId)"
    then obtain es i t where es: "Some ents = Some es"
      and "fst (classify env i (scanned_files env opts dir es) t) = Inr result'"
      by (rule findDuplicates_Inr_classify)
    then have c: "fst (classify env i (scanned_files env opts dir ents) t) = Inr result'"
      by simp
    show "sorted_wrt (\<lambda>a b. first_size b \<le> first_size a) result'
        \<and> (\<forall>k. filter (\<lambda>g. first_size g = k) result'
               = filter (\<lambda>g. first_size g = k) (discovery env (scanned_files env opts dir ents)))
        \<and> mset result' = mset (discovery env (scanned_files env opts dir ents))
        \<and> (\<forall>g\<in>set result'. g \<noteq> [])"
      by (rule classify_ordering [OF c])
  qed
qed

text \<open>
  Claim C6.  The result is the stable sort of the discovered groups by the size of their
  first member, largest first: it is in non-increasing order of that size, groups of
  equal size keep their order of discovery, no group is lost or added, every group has a
  first member, and the same records give the same result whatever the scan id and the
  state of the index and the trace.  The same holds for the result of
  \<^verbatim>\<open>findDuplicates\<close> on the records of its walk.
\<close>

theorem C6_ordering:
  "(fst (classify env sid files s) = Inr result \<longrightarrow>
      (sorted_wrt (\<lambda>a b. first_size b \<le> first_size a) result
       \<and> (\<forall>k. filter (\<lambda>g. first_size g = k) result
              = filter (\<lambda>g. first_size g = k) (discovery env files))
       \<and> mset result = mset (discovery env files)
       \<and> (\<forall>g\<in>set result. g \<noteq> []))
      \<and> (\<forall>sid' s'. fst (classify env sid' files s') = Inr result))
   \<and> (fst (findDuplicates env opts d dir (Some ents)) = Inr (result', dbPath, scanId) \<longrightarrow>
      sorted_wrt (\<lambda>a b. first_size b \<le> first_size a) result'
      \<and> (\<forall>k. filter (\<lambda>g. first_size g = k) result'
             = filter (\<lambda>g. first_size g = k) (discovery env (scanned_files env opts dir ents)))
      \<and> mset result' = mset (discovery env (scanned_files env opts dir ents))
      \<and> (\<forall>g\<in>set result'. g \<noteq> []))"
proof (cases "db_openable env (choose_dbPath env opts)")
  case True
  show ?thesis
    unfolding findDuplicates_opened [OF True] by (rule ordering_indexed)
next
  case False
  show ?thesis
    unfolding findDuplicates_unopened [OF False]
    by (rule conjI [OF ordering_indexed [THEN conjunct1]]) simp
qed

theorem C6_ordering_witness:
  "fst (findDuplicates demo_env demo_opts Map.empty ''/d'' (Some demo_tree2)) =
     Inr ([[demo_record2 ''/d/e.txt'' ''e.txt'', demo_record2 ''/d/f.txt'' ''f.txt''],
           [demo_record ''/d/a.txt'' ''a.txt'', demo_record ''/d/b.txt'' ''b.txt'']],
          ''/d/.super-dee-duper.abababab'', 1)
   \<and> discovery demo_env (scanned_files demo_env demo_opts ''/d'' demo_tree2)
     = [[demo_record ''/d/a.txt'' ''a.txt'', demo_record ''/d/b.txt'' ''b.txt''],
        [demo_record2 ''/d/e.txt'' ''e.txt'', demo_record2 ''/d/f.txt'' ''f.txt'']]
   \<and> sorted_wrt (\<lambda>a b. first_size b \<le> first_size a)
       [[demo_record2 ''/d/e.txt'' ''e.txt'', demo_record2 ''/d/f.txt'' ''f.txt''],
        [demo_record ''/d/a.txt'' ''a.txt'', demo_record ''/d/b.txt'' ''b.txt'']]"
proof -
  have w:
    "fst (scanWithIndex demo_env demo_opts Map.empty ''/d'' (Some demo_tree2)) =
       Inr ([[demo_record2 ''/d/e.txt'' ''e.txt'', demo_record2 ''/d/f.txt'' ''f.txt''],
             [demo_record ''/d/a.txt'' ''a.txt'', demo_record ''/d/b.txt'' ''b.txt'']],
            ''/d/.super-dee-duper.abababab'', 1)
     \<and> discovery demo_env (scanned_files demo_env demo_opts ''/d'' demo_tree2)
       = [[demo_record ''/d/a.txt'' ''a.txt'', demo_record ''/d/b.txt'' ''b.txt''],
          [demo_record2 ''/d/e.txt'' ''e.txt'', demo_record2 ''/d/f.txt'' ''f.txt'']]
     \<and> sorted_wrt (\<lambda>a b. first_size b \<le> first_size a)
         [[demo_record2 ''/d/e.txt'' ''e.txt'', demo_record2 ''/d/f.txt'' ''f.txt''],
          [demo_record ''/d/a.txt'' ''a.txt'', demo_record ''/d/b.txt'' ''b.txt'']]"
  proof -
    let ?r = "[[demo_record2 ''/d/e.txt'' ''e.txt'', demo_record2 ''/d/f.txt'' ''f.txt''],
          [demo_record ''/d/a.txt'' ''a.txt'', demo_record ''/d/b.txt'' ''b.txt'']]"
    let ?fs = "scanned_files demo_env demo_opts ''/d'' demo_tree2"
    have "fst (scanWithIndex demo_env demo_opts Map.empty ''/d'' (Some demo_tree2)) =
        Inr (?r, ''/d/.super-dee-duper.abababab'', 1) \<longrightarrow>
        sorted_wrt (\<lambda>a b. first_size b \<le> first_size a) ?r
        \<and> (\<forall>k. filter (\<lambda>g. first_size g = k) ?r
               = filter (\<lambda>g. first_size g = k) (discovery demo_env ?fs))
        \<and> mset ?r = mset (discovery demo_env ?fs)
        \<and> (\<forall>g\<in>set ?r. g \<noteq> [])"
      by (rule C6_ordering [where env = demo_env and opts = demo_opts, unfolded demo_opened, THEN conjunct2])
    with demo_run2 have "sorted_wrt (\<lambda>a b. first_size b \<le> first_size a) ?r
        \<and> (\<forall>k. filter (\<lambda>g. first_size g = k) ?r
               = filter (\<lambda>g. first_size g = k) (discovery demo_env ?fs))
        \<and> mset ?r = mset (discovery demo_env ?fs)
        \<and> (\<forall>g\<in>set ?r. g \<noteq> [])"
      by (rule rev_mp)
    then have "sorted_wrt (\<lambda>a b. first_size b \<le> first_size a) ?r" by (rule conjunct1)
    with demo_run2 demo_discovery2 show ?thesis by (intro conjI)
  qed
  show ?thesis unfolding demo_opened by (rule w)
qed

section \<open>The funnel\<close>

lemma candidate_bucket:
  assumes "f \<in> set (concat (candidates files))"
  shows "f \<in> set files" and "2 \<le> length (bucket files f)"
proof -
  from assms obtain G q where G: "G \<in> set (map snd (group_by fsize files []))"
    and q: "q \<in> set (map snd (group_by quickHash G []))" and len: "1 < length q"
    and f: "f \<in> set q"
    by (auto simp: candidates_def potentialDuplicates_def sizeGroups_def)
  from G obtain s where s: "G = filter (\<lambda>x. fsize x = s) files"
    by (auto simp: groups_closed)
  from q obtain k where k: "q = filter (\<lambda>x. quickHash x = k) G"
    by (auto simp: groups_closed)
  from f k s show "f \<in> set files" by simp
  from f k s have fk: "quickHash f = k" "fsize f = s" by simp_all
  have "q = bucket files f"
    unfolding k s bucket_def fk filter_filter
    by (rule filter_cong) auto
  with len show "2 \<le> length (bucket files f)" by simp
qed

lemma set_hash_fields [simp]:
  "path (set_hash env f) = path f" "fsize (set_hash env f) = fsize f"
  "quickHash (set_hash env f) = quickHash f"
  by (simp_all add: set_hash_def split: sum.splits)

lemma storeFileHash_trace [simp]: "st_trace (storeFileHash f s) = st_trace s"
  by (simp add: storeFileHash_def Let_def split: option.splits)

lemma hashGroupFiles_trace:
  "FullRead p \<in> set (st_trace (snd (hashGroupFiles env fs s))) \<Longrightarrow>
   FullRead p \<in> set (st_trace s) \<or> p \<in> path ` set fs"
proof (induction fs arbitrary: s)
  case Nil
  then show ?case by simp
next
  case (Cons f fs)
  show ?case
  proof (cases "fullDigest env (path f)")
    case (Inl e)
    with Cons.prems show ?thesis by (auto simp: log_events_def)
  next
    case (Inr h)
    let ?s = "storeFileHash (f\<lparr>hash := Some h\<rparr>) (log_events [FullRead (path f)] s)"
    from Cons.prems Inr have "FullRead p \<in> set (st_trace (snd (hashGroupFiles env fs ?s)))"
      by (auto simp: Let_def split: prod.splits sum.splits)
    from Cons.IH [OF this] show ?thesis by (auto simp: log_events_def)
  qed
qed

lemma processQuick_trace:
  "FullRead p \<in> set (st_trace (snd (processQuickHashGroups env sid n qgs acc s))) \<Longrightarrow>
   FullRead p \<in> set (st_trace s) \<or> p \<in> path ` set (concat (filter (\<lambda>q. 1 < length q) qgs))"
proof (induction qgs arbitrary: acc s)
  case Nil
  then show ?case by simp
next
  case (Cons q qgs)
  show ?case
  proof (cases "1 < length q")
    case False
    with Cons.prems Cons.IH [of acc s] show ?thesis by auto
  next
    case True
    obtain r s' where h: "hashGroupFiles env q s = (r, s')"
      by (cases "hashGroupFiles env q s")
    have s': "FullRead p \<in> set (st_trace s') \<Longrightarrow>
        FullRead p \<in> set (st_trace s) \<or> p \<in> path ` set q"
      using hashGroupFiles_trace [of p env q s] h by simp
    show ?thesis
    proof (cases r)
      case (Inl e)
      with Cons.prems True h s' show ?thesis by auto
    next
      case (Inr hashed)
      let ?acc = "pushDuplicates hashed acc"
      from Cons.prems True h Inr
      have "FullRead p \<in> set (st_trace (snd (processQuickHashGroups env sid n qgs ?acc
          (reportHashing sid n (snd ?acc) s'))))"
        by (simp add: Let_def)
      from Cons.IH [OF this] s' True show ?thesis
        by (auto simp: reportHashing_def)
    qed
  qed
qed

lemma processSize_trace:
  "FullRead p \<in> set (st_trace (snd (processSizeGroups env sid n sgs acc s))) \<Longrightarrow>
   FullRead p \<in> set (st_trace s) \<or>
   p \<in> path ` set (concat (concat (map (\<lambda>g. filter (\<lambda>q. 1 < length q)
        (map snd (group_by quickHash g []))) sgs)))"
proof (induction sgs arbitrary: acc s)
  case Nil
  then show ?case by simp
next
  case (Cons g sgs)
  let ?qs = "map snd (group_by quickHash g [])"
  obtain r s' where h: "processQuickHashGroups env sid n ?qs acc s = (r, s')"
    by (cases "processQuickHashGroups env sid n ?qs acc s")
  have s': "FullRead p \<in> set (st_trace s') \<Longrightarrow>
      FullRead p \<in> set (st_trace s) \<or>
      p \<in> path ` set (concat (filter (\<lambda>q. 1 < length q) ?qs))"
    using processQuick_trace [of p env sid n ?qs acc s] h by simp
  have eq: "path ` set (concat (concat (map (\<lambda>g. filter (\<lambda>q. 1 < length q)
        (map snd (group_by quickHash g []))) (g # sgs)))) =
      path ` set (concat (filter (\<lambda>q. 1 < length q) ?qs)) \<union>
      path ` set (concat (concat (map (\<lambda>g. filter (\<lambda>q. 1 < length q)
        (map snd (group_by quickHash g []))) sgs)))"
    by (simp add: image_Un)
  show ?case
  proof (cases r)
    case (Inl e)
    with Cons.prems h have "FullRead p \<in> set (st_trace s')" by (simp add: Let_def)
    from s' [OF this] show ?thesis unfolding eq by blast
  next
    case (Inr acc')
    from Cons.prems h Inr
    have "FullRead p \<in> set (st_trace (snd (processSizeGroups env sid n sgs acc' s')))"
      by (simp add: Let_def)
    from Cons.IH [OF this] s' show ?thesis unfolding eq by blast
  qed
qed

lemma classify_trace:
  assumes "FullRead p \<in> set (st_trace (snd (classify env sid files s)))"
  shows "FullRead p \<in> set (st_trace s) \<or> p \<in> path ` set (concat (candidates files))"
proof -
  have "snd (classify env sid files s) =
      snd (processSizeGroups env sid (length files) (potentialDuplicates files) ([], 0) s)"
    by (simp add: classify_def split: prod.splits sum.splits)
  with assms show ?thesis
    using processSize_trace [of p env sid "length files" "potentialDuplicates files" "([], 0)" s]
    by (simp add: candidates_def)
qed

lemma walk_trace_no_FullRead:
  "FullRead p \<in> set (st_trace (snd (scanDirectory env rc ex sid dir listing s))) \<Longrightarrow>
     FullRead p \<in> set (st_trace s)"
  "FullRead p \<in> set (st_trace (snd (scanEntries env rc ex sid dir es acc n s))) \<Longrightarrow>
     FullRead p \<in> set (st_trace s)"
proof (induction env rc ex sid dir listing s and env rc ex sid dir es acc n s
    rule: scanDirectory_scanEntries.induct)
  case (1 env rc ex sid dir s)
  then show ?case by (simp add: log_events_def)
next
  case (2 env rc ex sid dir ents s)
  then show ?case by (auto simp: log_events_def split: prod.splits)
next
  case (3 env rc ex sid dir allFiles n s)
  then show ?case by simp
next
  case (4 env rc ex sid dir nm ents allFiles n s)
  then show ?case
    by (auto simp: Let_def log_events_def progressCallback_def split: sum.splits if_splits)
next
  case (5 env rc ex sid dir nm listing ents allFiles n s)
  then show ?case
    by (auto simp: Let_def log_events_def split: sum.splits prod.splits if_splits)
next
  case (6 env rc ex sid dir nm ents allFiles n s)
  then show ?case by simp
qed

lemma findDuplicates_trace:
  assumes "FullRead p \<in> set (snd (snd (scanWithIndex env opts d dir (Some es))))"
  shows "p \<in> path ` set (concat (candidates (scanned_files env opts dir es)))"
proof -
  let ?db = "open_database d (choose_dbPath env opts)"
  obtain sid db1 where st: "startScan (path_resolve env dir) (date_now env 0) ?db = (sid, db1)"
    by (cases "startScan (path_resolve env dir) (date_now env 0) ?db")
  let ?s0 = "\<lparr>st_db = db1, st_trace = []\<rparr>"
  obtain r s1 where sc: "scanDirectory env (recursive opts) (exclude opts) sid dir (Some es) ?s0
      = (r, s1)"
    by (cases "scanDirectory env (recursive opts) (exclude opts) sid dir (Some es) ?s0")
  have r: "r = Inr (scanned_files env opts dir es)"
    using walk_files(1) [of env "recursive opts" "exclude opts" sid dir "Some es" ?s0] sc
    by (simp add: scanned_files_def)
  have s1: "FullRead p \<notin> set (st_trace s1)"
    using walk_trace_no_FullRead(1) [of p env "recursive opts" "exclude opts" sid dir
        "Some es" ?s0] sc
    by auto
  obtain c s2 where cl: "classify env sid (scanned_files env opts dir es) s1 = (c, s2)"
    by (cases "classify env sid (scanned_files env opts dir es) s1")
  have "snd (snd (scanWithIndex env opts d dir (Some es))) = st_trace s2"
    unfolding scanWithIndex_def Let_def st prod.case sc r
    using cl by (cases c) auto
  with assms have "FullRead p \<in> set (st_trace (snd (classify env sid
      (scanned_files env opts dir es) s1)))"
    using cl by simp
  from classify_trace [OF this] s1 show ?thesis by simp
qed

lemma fullDigest_Inr:
  "fullDigest env p = Inr h \<Longrightarrow> h = sha256 env (content (fs_file env p))"
  unfolding fullDigest_def by (rule calculateHash_Inr)

lemma quickDigest_Inr:
  "quickDigest env p = Inr q \<Longrightarrow>
   q = sha256 env (take (min (length (content (fs_file env p))) 65536) (content (fs_file env p)))"
  unfolding quickDigest_def by (rule calculateQuickHash_Inr)

lemma funnel_same_bucket:
  assumes cf: "collision_free env"
    and fd: "fst (scanWithIndex env opts d dir (Some ents)) = Inr (result, dbPath, scanId)"
    and g: "g \<in> set result" and a: "a \<in> set g" and b: "b \<in> set g"
  shows "fsize a = fsize b \<and> quickHash a = quickHash b"
proof -
  let ?fs = "scanned_files env opts dir ents"
  from fd obtain es i t where "Some ents = Some es"
    and "fst (classify env i (scanned_files env opts dir es) t) = Inr result"
    by (rule findDuplicates_Inr_classify)
  then have c: "fst (classify env i ?fs t) = Inr result" by simp
  from classify_Inr [OF c] have ok: "\<forall>f\<in>set (concat (candidates ?fs)).
      \<not> isl (fullDigest env (path f))" and r: "result = sort_groups (discovery env ?fs)"
    by blast+
  from g r have gd: "g \<in> set (discovery env ?fs)" by (simp add: sort_groups_def)
  from discovery_group(3) [OF ok gd] obtain h
    where h: "\<forall>f\<in>set g. hash f = Some h \<and> fullDigest env (path f) = Inr h" by blast
  have rec: "\<exists>f0\<in>set ?fs. path f0 = path f \<and> fsize f0 = fsize f \<and> quickHash f0 = quickHash f"
    if "f \<in> set g" for f
  proof -
    from discovery_group(4) [OF ok gd] that obtain f0
      where "f0 \<in> set (concat (candidates ?fs))" and "f = set_hash env f0" by blast
    with candidate_bucket(1) [of f0 ?fs] show ?thesis by auto
  qed
  have fields: "fsize f = length (content (fs_file env (path f))) \<and>
      quickHash f = sha256 env (take (min (length (content (fs_file env (path f)))) 65536)
        (content (fs_file env (path f))))"
    if "f \<in> set g" for f
  proof -
    from rec [OF that] obtain f0 where f0: "f0 \<in> set ?fs" and eq: "path f0 = path f"
      "fsize f0 = fsize f" "quickHash f0 = quickHash f" by blast
    from entries_files_consistent(2) [of f0 env "recursive opts" "exclude opts" dir ents] f0
    have "fsize f0 = length (content (fs_file env (path f0)))"
      and "quickDigest env (path f0) = Inr (quickHash f0)"
      by (simp_all add: scanned_files_def)
    with quickDigest_Inr [of env "path f0" "quickHash f0"] eq show ?thesis by simp
  qed
  from h a b have "sha256 env (content (fs_file env (path a))) =
      sha256 env (content (fs_file env (path b)))"
    using fullDigest_Inr [of env "path a" h] fullDigest_Inr [of env "path b" h] by simp
  with cf have "content (fs_file env (path a)) = content (fs_file env (path b))"
    unfolding collision_free_def by blast
  with fields [OF a] fields [OF b] show ?thesis by simp
qed

lemma staged_funnel_indexed:
  "(collision_free env \<and>
      fst (scanWithIndex env opts d dir (Some ents)) = Inr (result, dbPath, scanId) \<longrightarrow>
      (\<forall>g\<in>set result. \<forall>a\<in>set g. \<forall>b\<in>set g. fsize a = fsize b \<and> quickHash a = quickHash b))
   \<and> (\<forall>p. FullRead p \<in> set (snd (snd (scanWithIndex env opts d dir (Some ents)))) \<longrightarrow>
        (\<exists>f\<in>set (scanned_files env opts dir ents).
           path f = p \<and> 2 \<le> length (bucket (scanned_files env opts dir ents) f)))
   \<and> (distinct (map path (scanned_files env opts dir ents)) \<longrightarrow>
        (\<forall>f\<in>set (scanned_files env opts dir ents).
           length (bucket (scanned_files env opts dir ents) f) = 1 \<longrightarrow>
           FullRead (path f) \<notin> set (snd (snd (scanWithIndex env opts d dir (Some ents))))))"
proof -
  let ?fs = "scanned_files env opts dir ents"
  let ?tr = "snd (snd (scanWithIndex env opts d dir (Some ents)))"
  have 1: "collision_free env \<and>
      fst (scanWithIndex env opts d dir (Some ents)) = Inr (result, dbPath, scanId) \<longrightarrow>
      (\<forall>g\<in>set result. \<forall>a\<in>set g. \<forall>b\<in>set g. fsize a = fsize b \<and> quickHash a = quickHash b)"
    using funnel_same_bucket [of env opts d dir ents result dbPath scanId] by blast
  have 2: "\<exists>f\<in>set ?fs. path f = p \<and> 2 \<le> length (bucket ?fs f)" if "FullRead p \<in> set ?tr" for p
  proof -
    from findDuplicates_trace [OF that] obtain f where "f \<in> set (concat (candidates ?fs))"
      and "p = path f" by blast
    with candidate_bucket [of f ?fs] show ?thesis by blast
  qed
  have 3: "FullRead (path f) \<notin> set ?tr"
    if dist: "distinct (map path ?fs)" and f: "f \<in> set ?fs" and one: "length (bucket ?fs f) = 1"
    for f
  proof
    assume "FullRead (path f) \<in> set ?tr"
    from 2 [OF this] obtain f' where f': "f' \<in> set ?fs" "path f' = path f"
      "2 \<le> length (bucket ?fs f')" by blast
    from dist have "inj_on path (set ?fs)" by (simp add: distinct_map)
    with f f' have "f' = f" by (auto dest: inj_onD)
    with f' one show False by simp
  qed
  from 1 2 3 show ?thesis by blast
qed

lemma demo_collision_free: "collision_free demo_env"
  unfolding collision_free_def
proof (intro allI impI)
  fix p q
  have c: "content (demo_fs p) = [104, 101, 108, 108, 111] \<or>
      content (demo_fs p) = [119, 111, 114, 108, 100] \<or>
      content (demo_fs p) = [104, 101, 108, 108, 111, 33] \<or> content (demo_fs p) = []" for p
    by (simp add: demo_fs_def demo_hello_def demo_world_def demo_longer_def demo_missing_def)
  have h0: "toString_hex [] = []" by (simp add: toString_hex_def)
  assume "sha256 demo_env (content (fs_file demo_env p)) =
      sha256 demo_env (content (fs_file demo_env q))"
  then have e: "toString_hex (content (demo_fs p)) = toString_hex (content (demo_fs q))"
    by (simp add: demo_env_def)
  from c [of p] c [of q] e have "content (demo_fs p) = content (demo_fs q)"
    by (elim disjE) (simp_all add: hex_hello hex_world hex_longer h0)
  then show "content (fs_file demo_env p) = content (fs_file demo_env q)"
    by (simp add: demo_env_def)
qed

text \<open>
  Claim C2.  Where SHA-256 has no collision among the files of the file system (the
  standing assumption of the data model), the members of a returned group have the same
  size and the same quick hash.  In every run, whether it returns or throws, a full
  digest is computed only for the path of a record whose bucket of equal size and quick
  hash has at least two members; the paths of a walk being distinct, a record alone in
  its bucket is never hashed in full.
\<close>

theorem C2_staged_funnel:
  "(collision_free env \<and>
      fst (findDuplicates env opts d dir (Some ents)) = Inr (result, dbPath, scanId) \<longrightarrow>
      (\<forall>g\<in>set result. \<forall>a\<in>set g. \<forall>b\<in>set g. fsize a = fsize b \<and> quickHash a = quickHash b))
   \<and> (\<forall>p. FullRead p \<in> set (snd (snd (findDuplicates env opts d dir (Some ents)))) \<longrightarrow>
        (\<exists>f\<in>set (scanned_files env opts dir ents).
           path f = p \<and> 2 \<le> length (bucket (scanned_files env opts dir ents) f)))
   \<and> (distinct (map path (scanned_files env opts dir ents)) \<longrightarrow>
        (\<forall>f\<in>set (scanned_files env opts dir ents).
           length (bucket (scanned_files env opts dir ents) f) = 1 \<longrightarrow>
           FullRead (path f) \<notin> set (snd (snd (findDuplicates env opts d dir (Some ents))))))"
proof (cases "db_openable env (choose_dbPath env opts)")
  case True
  show ?thesis
    unfolding findDuplicates_opened [OF True] by (rule staged_funnel_indexed)
next
  case False
  show ?thesis
    unfolding findDuplicates_unopened [OF False]
    by simp
qed

theorem C2_staged_funnel_witness:
  "collision_free demo_env
   \<and> fst (findDuplicates demo_env demo_opts Map.empty ''/d'' (Some demo_tree)) =
     Inr ([[demo_record ''/d/a.txt'' ''a.txt'', demo_record ''/d/b.txt'' ''b.txt'']],
          ''/d/.super-dee-duper.abababab'', 1)
   \<and> fsize (demo_record ''/d/a.txt'' ''a.txt'') = fsize (demo_record ''/d/b.txt'' ''b.txt'')
   \<and> quickHash (demo_record ''/d/a.txt'' ''a.txt'') = quickHash (demo_record ''/d/b.txt'' ''b.txt'')
   \<and> distinct (map path (scanned_files demo_env demo_opts ''/d'' demo_tree))
   \<and> length (bucket (scanned_files demo_env demo_opts ''/d'' demo_tree)
        ((demo_record ''/d/c.txt'' ''c.txt'')\<lparr>quickHash := ''776f726c64'', hash := None\<rparr>)) = 1
   \<and> FullRead ''/d/c.txt''
        \<notin> set (snd (snd (findDuplicates demo_env demo_opts Map.empty ''/d'' (Some demo_tree))))"
proof -
  have w:
    "collision_free demo_env
     \<and> fst (scanWithIndex demo_env demo_opts Map.empty ''/d'' (Some demo_tree)) =
       Inr ([[demo_record ''/d/a.txt'' ''a.txt'', demo_record ''/d/b.txt'' ''b.txt'']],
            ''/d/.super-dee-duper.abababab'', 1)
     \<and> fsize (demo_record ''/d/a.txt'' ''a.txt'') = fsize (demo_record ''/d/b.txt'' ''b.txt'')
     \<and> quickHash (demo_record ''/d/a.txt'' ''a.txt'') = quickHash (demo_record ''/d/b.txt'' ''b.txt'')
     \<and> distinct (map path (scanned_files demo_env demo_opts ''/d'' demo_tree))
     \<and> length (bucket (scanned_files demo_env demo_opts ''/d'' demo_tree)
          ((demo_record ''/d/c.txt'' ''c.txt'')\<lparr>quickHash := ''776f726c64'', hash := None\<rparr>)) = 1
     \<and> FullRead ''/d/c.txt''
          \<notin> set (snd (snd (scanWithIndex demo_env demo_opts Map.empty ''/d'' (Some demo_tree))))"
  proof -
    let ?a = "demo_record ''/d/a.txt'' ''a.txt''"
    let ?b = "demo_record ''/d/b.txt'' ''b.txt''"
    let ?c = "(demo_record ''/d/c.txt'' ''c.txt'')\<lparr>quickHash := ''776f726c64'', hash := None\<rparr>"
    let ?fs = "scanned_files demo_env demo_opts ''/d'' demo_tree"
    note T = C2_staged_funnel [of demo_env demo_opts Map.empty "''/d''" demo_tree "[[?a, ?b]]"
        "''/d/.super-dee-duper.abababab''" 1, unfolded demo_opened]
    from T have "collision_free demo_env \<and>
        fst (scanWithIndex demo_env demo_opts Map.empty ''/d'' (Some demo_tree)) =
          Inr ([[?a, ?b]], ''/d/.super-dee-duper.abababab'', 1) \<longrightarrow>
        (\<forall>g\<in>set [[?a, ?b]]. \<forall>a\<in>set g. \<forall>b\<in>set g. fsize a = fsize b \<and> quickHash a = quickHash b)"
      by (rule conjunct1)
    from this conjI [OF demo_collision_free demo_run]
    have "\<forall>g\<in>set [[?a, ?b]]. \<forall>a\<in>set g. \<forall>b\<in>set g. fsize a = fsize b \<and> quickHash a = quickHash b"
      by (rule mp)
    then have "\<forall>a\<in>set [?a, ?b]. \<forall>b\<in>set [?a, ?b]. fsize a = fsize b \<and> quickHash a = quickHash b"
      by (rule bspec) simp
    then have "\<forall>b\<in>set [?a, ?b]. fsize ?a = fsize b \<and> quickHash ?a = quickHash b"
      by (rule bspec) simp
    then have 1: "fsize ?a = fsize ?b \<and> quickHash ?a = quickHash ?b"
      by (rule bspec) simp
    have d: "distinct (map path ?fs)"
      by (simp add: demo_files demo_record_def)
    have c: "?c \<in> set ?fs" by (simp add: demo_files)
    have one: "length (bucket ?fs ?c) = 1"
      by (simp add: demo_files bucket_def demo_record_def)
    from T have "distinct (map path ?fs) \<longrightarrow>
          (\<forall>f\<in>set ?fs. length (bucket ?fs f) = 1 \<longrightarrow>
             FullRead (path f) \<notin> set (snd (snd (scanWithIndex demo_env demo_opts Map.empty
               ''/d'' (Some demo_tree)))))"
      by (rule conjunct2 [THEN conjunct2])
    from this d have "\<forall>f\<in>set ?fs. length (bucket ?fs f) = 1 \<longrightarrow>
             FullRead (path f) \<notin> set (snd (snd (scanWithIndex demo_env demo_opts Map.empty
               ''/d'' (Some demo_tree))))"
      by (rule mp)
    from this c have "length (bucket ?fs ?c) = 1 \<longrightarrow>
             FullRead (path ?c) \<notin> set (snd (snd (scanWithIndex demo_env demo_opts Map.empty
               ''/d'' (Some demo_tree))))"
      by (rule bspec)
    from this one have "FullRead (path ?c) \<notin> set (snd (snd (scanWithIndex demo_env demo_opts
        Map.empty ''/d'' (Some demo_tree))))"
      by (rule mp)
    then have 3: "FullRead ''/d/c.txt'' \<notin> set (snd (snd (scanWithIndex demo_env demo_opts
        Map.empty ''/d'' (Some demo_tree))))"
      by (simp add: demo_record_def)
    from 1 have sa: "fsize ?a = fsize ?b" and sb: "quickHash ?a = quickHash ?b"
      by (rule conjunct1, rule conjunct2)
    show ?thesis
      by (rule conjI [OF demo_collision_free conjI [OF demo_run conjI [OF sa conjI [OF sb
        conjI [OF d conjI [OF one 3]]]]]])
  qed
  show ?thesis unfolding demo_opened by (rule w)
qed

section \<open>Independence of the traversal order\<close>

lemma mset_map_mset_filter_length:
  "mset (map mset (filter (\<lambda>g. 1 < length g) xss)) =
     filter_mset (\<lambda>G. 1 < size G) (mset (map mset xss))"
  by (induction xss) simp_all

lemma mset_groups:
  "mset (map mset (map snd (group_by key xs []))) = groups_mset key (mset xs)"
proof -
  let ?K = "first_keys (map key xs)"
  have "mset ?K = mset_set (set ?K)"
    by (rule mset_set_set [symmetric]) simp
  then have K: "mset ?K = mset_set (key ` set xs)" by simp
  have "mset (map mset (map snd (group_by key xs []))) =
      image_mset (\<lambda>k. filter_mset (\<lambda>x. key x = k) (mset xs)) (mset ?K)"
    by (simp add: groups_closed multiset.map_comp comp_def)
  then show ?thesis by (simp add: K groups_mset_def)
qed

lemma mset_concat_sum: "mset (concat xss) = sum_mset (mset (map mset xss))"
  by (induction xss) simp_all

lemma mset_funnel:
  "mset (concat (filter (\<lambda>q. 1 < length q) (map snd (group_by key G [])))) =
     funnel_mset key (mset G)"
  unfolding mset_concat_sum mset_map_mset_filter_length mset_groups funnel_mset_def ..

lemma mset_candidates: "mset (concat (candidates files)) = candidates_mset (mset files)"
proof -
  have pd: "mset (map mset (potentialDuplicates files)) =
      filter_mset (\<lambda>G. 1 < size G) (groups_mset fsize (mset files))"
    unfolding potentialDuplicates_def sizeGroups_def mset_map_mset_filter_length mset_groups ..
  have gen: "mset (concat (concat (map F Gs))) =
      sum_mset (image_mset (\<lambda>G. mset (concat (F G))) (mset Gs))"
    for F :: "fileinfo list \<Rightarrow> fileinfo list list" and Gs
    by (induction Gs) simp_all
  have step: "(\<lambda>G. mset (concat (filter (\<lambda>q. 1 < length q)
      (map snd (group_by quickHash G []))))) = (\<lambda>G. funnel_mset quickHash (mset G))"
    by (rule ext) (rule mset_funnel)
  have "mset (concat (candidates files)) =
      sum_mset (image_mset (\<lambda>G. funnel_mset quickHash (mset G)) (mset (potentialDuplicates files)))"
    unfolding candidates_def gen step ..
  also have "\<dots> = sum_mset (image_mset (funnel_mset quickHash)
      (mset (map mset (potentialDuplicates files))))"
    by (simp add: multiset.map_comp comp_def)
  finally show ?thesis using pd by (simp add: candidates_mset_def)
qed

lemma mset_discovery: "mset (map mset (discovery env files)) = discovery_mset env (mset files)"
proof -
  let ?X = "map (set_hash env) (concat (candidates files))"
  have "mset (map mset (discovery env files)) =
      filter_mset (\<lambda>G. 1 < size G) (groups_mset hash (mset ?X))"
    unfolding discovery_def discovered_groups_def mset_map_mset_filter_length mset_groups ..
  also have "mset ?X = image_mset (set_hash env) (candidates_mset (mset files))"
    by (simp add: mset_candidates)
  finally show ?thesis by (simp add: discovery_mset_def)
qed

lemma membership_mset:
  "membership r = (\<lambda>G. path ` set_mset G) ` set_mset (mset (map mset r))"
  by (simp add: membership_def image_image)

lemma classify_permuted:
  assumes "mset files = mset files'"
  shows "isl (fst (classify env sid files s)) = isl (fst (classify env sid' files' s'))"
    and "fst (classify env sid files s) = Inr r \<Longrightarrow> fst (classify env sid' files' s') = Inr r'
      \<Longrightarrow> mset (map mset r) = mset (map mset r') \<and> membership r = membership r'"
proof -
  have "set (concat (candidates files)) = set (concat (candidates files'))"
    using mset_candidates [of files] mset_candidates [of files'] assms
    by (metis set_mset_mset)
  then have ok: "(\<forall>f\<in>set (concat (candidates files)). \<not> isl (fullDigest env (path f))) =
      (\<forall>f\<in>set (concat (candidates files')). \<not> isl (fullDigest env (path f)))"
    by simp
  show "isl (fst (classify env sid files s)) = isl (fst (classify env sid' files' s'))"
  proof (cases "\<forall>f\<in>set (concat (candidates files)). \<not> isl (fullDigest env (path f))")
    case True
    with ok have "\<forall>f\<in>set (concat (candidates files')). \<not> isl (fullDigest env (path f))"
      by simp
    from classify_ok [OF True, of sid s] classify_ok [OF this, of sid' s']
    show ?thesis by simp
  next
    case False
    with ok have "\<exists>f\<in>set (concat (candidates files')). isl (fullDigest env (path f))" by simp
    moreover from False have "\<exists>f\<in>set (concat (candidates files)). isl (fullDigest env (path f))"
      by simp
    ultimately show ?thesis
      using classify_fail [of files env sid s] classify_fail [of files' env sid' s'] by simp
  qed
  assume a: "fst (classify env sid files s) = Inr r"
    and b: "fst (classify env sid' files' s') = Inr r'"
  from classify_Inr(2) [OF a] classify_Inr(2) [OF b] have "mset (map mset r) = mset (map mset (discovery env files))"
    "mset (map mset r') = mset (map mset (discovery env files'))"
    by (simp_all add: sort_groups_def)
  with assms have "mset (map mset r) = mset (map mset r')"
    unfolding mset_discovery by simp
  then show "mset (map mset r) = mset (map mset r') \<and> membership r = membership r'"
    unfolding membership_mset by simp
qed

lemma reordered_files:
  "reordered es es' \<Longrightarrow>
     (\<forall>dir. mset (entries_files env rc ex dir es) = mset (entries_files env rc ex dir es'))"
  "reordered_entry e e' \<Longrightarrow>
     (\<forall>dir. mset (entry_files env rc ex dir e) = mset (entry_files env rc ex dir e'))"
proof (induction rule: reordered_reordered_entry.inducts)
  case reordered_Nil
  show ?case by simp
next
  case (reordered_Cons e e' es es')
  then show ?case by simp
next
  case (reordered_swap a b es)
  show ?case by (simp add: ac_simps)
next
  case (reordered_trans es es' es'')
  then show ?case by simp
next
  case (reordered_File nm)
  show ?case by simp
next
  case (reordered_Other nm)
  show ?case by simp
next
  case (reordered_Dir_failed nm)
  show ?case by simp
next
  case (reordered_Dir es es' nm)
  then show ?case by (auto simp: Let_def)
qed

lemma findDuplicates_isl:
  obtains i t where
    "isl (fst (scanWithIndex env opts d dir (Some es))) =
       isl (fst (classify env i (scanned_files env opts dir es) t))"
proof -
  obtain i t where "fst (scanWithIndex env opts d dir (Some es)) =
       (case fst (classify env i (scanned_files env opts dir es) t) of
          Inl e \<Rightarrow> Inl (FindFailed e)
        | Inr r \<Rightarrow> Inr (r, choose_dbPath env opts, i))"
    by (rule findDuplicates_Some)
  then have "isl (fst (scanWithIndex env opts d dir (Some es))) =
       isl (fst (classify env i (scanned_files env opts dir es) t))"
    by (simp split: sum.splits)
  then show thesis by (rule that)
qed

lemma findDuplicates_reordered:
  assumes "reordered ents ents'"
  shows "mset (scanned_files env opts dir ents) = mset (scanned_files env opts dir ents')"
    and "isl (fst (scanWithIndex env opts d dir (Some ents))) =
      isl (fst (scanWithIndex env opts d' dir (Some ents')))"
    and "fst (scanWithIndex env opts d dir (Some ents)) = Inr (r, p, i) \<Longrightarrow>
      fst (scanWithIndex env opts d' dir (Some ents')) = Inr (r', p', i') \<Longrightarrow>
      membership r = membership r'"
proof -
  show m: "mset (scanned_files env opts dir ents) = mset (scanned_files env opts dir ents')"
    using reordered_files(1) [OF assms, of env "recursive opts" "exclude opts"]
    by (simp add: scanned_files_def)
  obtain j t where 1: "isl (fst (scanWithIndex env opts d dir (Some ents))) =
       isl (fst (classify env j (scanned_files env opts dir ents) t))"
    by (rule findDuplicates_isl)
  obtain j' t' where 2: "isl (fst (scanWithIndex env opts d' dir (Some ents'))) =
       isl (fst (classify env j' (scanned_files env opts dir ents') t'))"
    by (rule findDuplicates_isl)
  from classify_permuted(1) [OF m, of env j t j' t'] 1 2
  show "isl (fst (scanWithIndex env opts d dir (Some ents))) =
      isl (fst (scanWithIndex env opts d' dir (Some ents')))"
    by simp
  assume "fst (scanWithIndex env opts d dir (Some ents)) = Inr (r, p, i)"
  then obtain es k u where "Some ents = Some es"
    and "fst (classify env k (scanned_files env opts dir es) u) = Inr r"
    by (rule findDuplicates_Inr_classify)
  then have a: "fst (classify env k (scanned_files env opts dir ents) u) = Inr r" by simp
  assume "fst (scanWithIndex env opts d' dir (Some ents')) = Inr (r', p', i')"
  then obtain es' k' u' where "Some ents' = Some es'"
    and "fst (classify env k' (scanned_files env opts dir es') u') = Inr r'"
    by (rule findDuplicates_Inr_classify)
  then have b: "fst (classify env k' (scanned_files env opts dir ents') u') = Inr r'" by simp
  from classify_permuted(2) [OF m a b] show "membership r = membership r'" by simp
qed

lemma findDuplicates_repeat:
  assumes "fst (scanWithIndex env opts d dir (Some ents)) = Inr (r, p, i)"
    and "fst (scanWithIndex env opts d' dir (Some ents)) = Inr (r', p', i')"
  shows "r = r'"
proof -
  from assms(1) obtain es k u where "Some ents = Some es"
    and "fst (classify env k (scanned_files env opts dir es) u) = Inr r"
    by (rule findDuplicates_Inr_classify)
  then have a: "fst (classify env k (scanned_files env opts dir ents) u) = Inr r" by simp
  from assms(2) obtain es' k' u' where "Some ents = Some es'"
    and "fst (classify env k' (scanned_files env opts dir es') u') = Inr r'"
    by (rule findDuplicates_Inr_classify)
  then have b: "fst (classify env k' (scanned_files env opts dir ents) u') = Inr r'" by simp
  from classify_state_independent [OF a, of k' u'] b show ?thesis by simp
qed

lemma traversal_order_indexed:
  "(mset files = mset files' \<longrightarrow>
      isl (fst (classify env sid files s)) = isl (fst (classify env sid' files' s')) \<and>
      (\<forall>r r'. fst (classify env sid files s) = Inr r \<and>
          fst (classify env sid' files' s') = Inr r' \<longrightarrow>
          mset (map mset r) = mset (map mset r') \<and> membership r = membership r'))
   \<and> (reordered ents ents' \<longrightarrow>
      mset (scanned_files env opts dir ents) = mset (scanned_files env opts dir ents') \<and>
      isl (fst (scanWithIndex env opts d dir (Some ents))) =
        isl (fst (scanWithIndex env opts d' dir (Some ents'))) \<and>
      (\<forall>r p i r' p' i'. fst (scanWithIndex env opts d dir (Some ents)) = Inr (r, p, i) \<and>
          fst (scanWithIndex env opts d' dir (Some ents')) = Inr (r', p', i') \<longrightarrow>
          membership r = membership r'))
   \<and> (\<forall>r p i r' p' i'. fst (scanWithIndex env opts d dir (Some ents)) = Inr (r, p, i) \<and>
          fst (scanWithIndex env opts d' dir (Some ents)) = Inr (r', p', i') \<longrightarrow> r = r')"
proof (rule conjI)
  show "mset files = mset files' \<longrightarrow>
      isl (fst (classify env sid files s)) = isl (fst (classify env sid' files' s')) \<and>
      (\<forall>r r'. fst (classify env sid files s) = Inr r \<and>
          fst (classify env sid' files' s') = Inr r' \<longrightarrow>
          mset (map mset r) = mset (map mset r') \<and> membership r = membership r')"
  proof (rule impI, rule conjI)
    assume m: "mset files = mset files'"
    show "isl (fst (classify env sid files s)) = isl (fst (classify env sid' files' s'))"
      by (rule classify_permuted(1) [OF m])
    show "\<forall>r r'. fst (classify env sid files s) = Inr r \<and>
          fst (classify env sid' files' s') = Inr r' \<longrightarrow>
          mset (map mset r) = mset (map mset r') \<and> membership r = membership r'"
      using classify_permuted(2) [OF m, of env sid s _ sid' s'] by blast
  qed
next
  show "(reordered ents ents' \<longrightarrow>
      mset (scanned_files env opts dir ents) = mset (scanned_files env opts dir ents') \<and>
      isl (fst (scanWithIndex env opts d dir (Some ents))) =
        isl (fst (scanWithIndex env opts d' dir (Some ents'))) \<and>
      (\<forall>r p i r' p' i'. fst (scanWithIndex env opts d dir (Some ents)) = Inr (r, p, i) \<and>
          fst (scanWithIndex env opts d' dir (Some ents')) = Inr (r', p', i') \<longrightarrow>
          membership r = membership r'))
   \<and> (\<forall>r p i r' p' i'. fst (scanWithIndex env opts d dir (Some ents)) = Inr (r, p, i) \<and>
          fst (scanWithIndex env opts d' dir (Some ents)) = Inr (r', p', i') \<longrightarrow> r = r')"
  proof (rule conjI)
    show "reordered ents ents' \<longrightarrow>
      mset (scanned_files env opts dir ents) = mset (scanned_files env opts dir ents') \<and>
      isl (fst (scanWithIndex env opts d dir (Some ents))) =
        isl (fst (scanWithIndex env opts d' dir (Some ents'))) \<and>
      (\<forall>r p i r' p' i'. fst (scanWithIndex env opts d dir (Some ents)) = Inr (r, p, i) \<and>
          fst (scanWithIndex env opts d' dir (Some ents')) = Inr (r', p', i') \<longrightarrow>
          membership r = membership r')"
    proof (rule impI, intro conjI)
      assume re: "reordered ents ents'"
      show "mset (scanned_files env opts dir ents) = mset (scanned_files env opts dir ents')"
        by (rule findDuplicates_reordered(1) [OF re])
      show "isl (fst (scanWithIndex env opts d dir (Some ents))) =
          isl (fst (scanWithIndex env opts d' dir (Some ents')))"
        by (rule findDuplicates_reordered(2) [OF re])
      show "\<forall>r p i r' p' i'. fst (scanWithIndex env opts d dir (Some ents)) = Inr (r, p, i) \<and>
          fst (scanWithIndex env opts d' dir (Some ents')) = Inr (r', p', i') \<longrightarrow>
          membership r = membership r'"
        using findDuplicates_reordered(3) [OF re, of env opts d dir _ _ _ d'] by blast
    qed
    show "\<forall>r p i r' p' i'. fst (scanWithIndex env opts d dir (Some ents)) = Inr (r, p, i) \<and>
          fst (scanWithIndex env opts d' dir (Some ents)) = Inr (r', p', i') \<longrightarrow> r = r'"
      using findDuplicates_repeat [of env opts d dir ents _ _ _ d'] by blast
  qed
qed

lemma demo_files3:
  "scanned_files demo_env demo_opts ''/d'' demo_tree3
   = [(demo_record ''/d/b.txt'' ''b.txt'')\<lparr>hash := None\<rparr>,
      (demo_record ''/d/a.txt'' ''a.txt'')\<lparr>hash := None\<rparr>,
      (demo_record ''/d/c.txt'' ''c.txt'')\<lparr>quickHash := ''776f726c64'', hash := None\<rparr>]"
  by (simp add: scanned_files_def demo_tree3_def demo_opts_def demo_join demo_stat demo_format
      demo_quick excluded_def make_fileInfo_def demo_record_def)

lemma demo_candidates3:
  "candidates (scanned_files demo_env demo_opts ''/d'' demo_tree3)
   = [[(demo_record ''/d/b.txt'' ''b.txt'')\<lparr>hash := None\<rparr>,
       (demo_record ''/d/a.txt'' ''a.txt'')\<lparr>hash := None\<rparr>]]"
  by (simp add: demo_files3 candidates_def potentialDuplicates_def sizeGroups_def group_by_def
      demo_record_def)

lemma demo_discovery3:
  "discovery demo_env (scanned_files demo_env demo_opts ''/d'' demo_tree3)
   = [[demo_record ''/d/b.txt'' ''b.txt'', demo_record ''/d/a.txt'' ''a.txt'']]"
  by (simp add: discovery_def demo_candidates3 set_hash_def demo_record_def demo_full
      discovered_groups_def group_by_def)

lemma demo_run3:
  "fst (scanWithIndex demo_env demo_opts Map.empty ''/d'' (Some demo_tree3)) =
     Inr ([[demo_record ''/d/b.txt'' ''b.txt'', demo_record ''/d/a.txt'' ''a.txt'']],
          ''/d/.super-dee-duper.abababab'', 1)"
proof -
  have "\<forall>f\<in>set (concat (candidates (scanned_files demo_env demo_opts ''/d'' demo_tree3))).
      \<not> isl (fullDigest demo_env (path f))"
    by (simp add: demo_candidates3 demo_record_def demo_full)
  from findDuplicates_result [OF this, of Map.empty] show ?thesis
    by (simp add: demo_discovery3 demo_dbPath demo_scan_id sort_groups_def)
qed

text \<open>
  Claim C7.  Two lists of the same records in different orders are classified alike: one
  run throws exactly when the other does, and when both return, their results have the
  same groups with the same members, so the same membership.  For two answers of
  \<^verbatim>\<open>readdir\<close> that list the same tree in different orders, at every level, the walks
  collect the same records, and two runs of \<^verbatim>\<open>findDuplicates\<close>, whatever index files
  each finds on disk, throw together or return results of the same membership; with the
  same order they return the same result.
\<close>

theorem C7_traversal_order:
  "(mset files = mset files' \<longrightarrow>
      isl (fst (classify env sid files s)) = isl (fst (classify env sid' files' s')) \<and>
      (\<forall>r r'. fst (classify env sid files s) = Inr r \<and>
          fst (classify env sid' files' s') = Inr r' \<longrightarrow>
          mset (map mset r) = mset (map mset r') \<and> membership r = membership r'))
   \<and> (reordered ents ents' \<longrightarrow>
      mset (scanned_files env opts dir ents) = mset (scanned_files env opts dir ents') \<and>
      isl (fst (findDuplicates env opts d dir (Some ents))) =
        isl (fst (findDuplicates env opts d' dir (Some ents'))) \<and>
      (\<forall>r p i r' p' i'. fst (findDuplicates env opts d dir (Some ents)) = Inr (r, p, i) \<and>
          fst (findDuplicates env opts d' dir (Some ents')) = Inr (r', p', i') \<longrightarrow>
          membership r = membership r'))
   \<and> (\<forall>r p i r' p' i'. fst (findDuplicates env opts d dir (Some ents)) = Inr (r, p, i) \<and>
          fst (findDuplicates env opts d' dir (Some ents)) = Inr (r', p', i') \<longrightarrow> r = r')"
proof (cases "db_openable env (choose_dbPath env opts)")
  case True
  show ?thesis
    unfolding findDuplicates_opened [OF True] by (rule traversal_order_indexed)
next
  case False
  show ?thesis
    unfolding findDuplicates_unopened [OF False]
    using traversal_order_indexed [THEN conjunct1, of files files' env sid s sid' s']
      reordered_files(1) [of ents ents' env "recursive opts" "exclude opts"]
    by (simp add: scanned_files_def)
qed

theorem C7_traversal_order_witness:
  "reordered demo_tree demo_tree3
   \<and> fst (findDuplicates demo_env demo_opts Map.empty ''/d'' (Some demo_tree)) =
     Inr ([[demo_record ''/d/a.txt'' ''a.txt'', demo_record ''/d/b.txt'' ''b.txt'']],
          ''/d/.super-dee-duper.abababab'', 1)
   \<and> fst (findDuplicates demo_env demo_opts Map.empty ''/d'' (Some demo_tree3)) =
     Inr ([[demo_record ''/d/b.txt'' ''b.txt'', demo_record ''/d/a.txt'' ''a.txt'']],
          ''/d/.super-dee-duper.abababab'', 1)
   \<and> membership [[demo_record ''/d/a.txt'' ''a.txt'', demo_record ''/d/b.txt'' ''b.txt'']]
     = membership [[demo_record ''/d/b.txt'' ''b.txt'', demo_record ''/d/a.txt'' ''a.txt'']]"
proof -
  have w:
    "reordered demo_tree demo_tree3
     \<and> fst (scanWithIndex demo_env demo_opts Map.empty ''/d'' (Some demo_tree)) =
       Inr ([[demo_record ''/d/a.txt'' ''a.txt'', demo_record ''/d/b.txt'' ''b.txt'']],
            ''/d/.super-dee-duper.abababab'', 1)
     \<and> fst (scanWithIndex demo_env demo_opts Map.empty ''/d'' (Some demo_tree3)) =
       Inr ([[demo_record ''/d/b.txt'' ''b.txt'', demo_record ''/d/a.txt'' ''a.txt'']],
            ''/d/.super-dee-duper.abababab'', 1)
     \<and> membership [[demo_record ''/d/a.txt'' ''a.txt'', demo_record ''/d/b.txt'' ''b.txt'']]
       = membership [[demo_record ''/d/b.txt'' ''b.txt'', demo_record ''/d/a.txt'' ''a.txt'']]"
  proof -
    let ?r = "[[demo_record ''/d/a.txt'' ''a.txt'', demo_record ''/d/b.txt'' ''b.txt'']]"
    let ?r' = "[[demo_record ''/d/b.txt'' ''b.txt'', demo_record ''/d/a.txt'' ''a.txt'']]"
    let ?p = "''/d/.super-dee-duper.abababab''"
    have re: "reordered demo_tree demo_tree3"
      unfolding demo_tree_def demo_tree3_def by (rule reordered_swap)
    have "reordered demo_tree demo_tree3 \<longrightarrow>
        mset (scanned_files demo_env demo_opts ''/d'' demo_tree) =
          mset (scanned_files demo_env demo_opts ''/d'' demo_tree3) \<and>
        isl (fst (scanWithIndex demo_env demo_opts Map.empty ''/d'' (Some demo_tree))) =
          isl (fst (scanWithIndex demo_env demo_opts Map.empty ''/d'' (Some demo_tree3))) \<and>
        (\<forall>r p i r' p' i'.
            fst (scanWithIndex demo_env demo_opts Map.empty ''/d'' (Some demo_tree)) = Inr (r, p, i) \<and>
            fst (scanWithIndex demo_env demo_opts Map.empty ''/d'' (Some demo_tree3)) = Inr (r', p', i')
            \<longrightarrow> membership r = membership r')"
      by (rule C7_traversal_order [where env = demo_env and opts = demo_opts, unfolded demo_opened, THEN conjunct2, THEN conjunct1])
    from this re have "(\<forall>r p i r' p' i'.
            fst (scanWithIndex demo_env demo_opts Map.empty ''/d'' (Some demo_tree)) = Inr (r, p, i) \<and>
            fst (scanWithIndex demo_env demo_opts Map.empty ''/d'' (Some demo_tree3)) = Inr (r', p', i')
            \<longrightarrow> membership r = membership r')"
      by (rule mp [THEN conjunct2, THEN conjunct2])
    then have "fst (scanWithIndex demo_env demo_opts Map.empty ''/d'' (Some demo_tree)) = Inr (?r, ?p, 1) \<and>
            fst (scanWithIndex demo_env demo_opts Map.empty ''/d'' (Some demo_tree3)) = Inr (?r', ?p, 1)
            \<longrightarrow> membership ?r = membership ?r'"
      by blast
    from this conjI [OF demo_run demo_run3] have m: "membership ?r = membership ?r'"
      by (rule mp)
    show ?thesis
      by (rule conjI [OF re conjI [OF demo_run conjI [OF demo_run3 m]]])
  qed
  show ?thesis unfolding demo_opened by (rule w)
qed

section \<open>Groups of the index\<close>

lemma group_by_group_id_iff:
  "(g, rs) \<in> set (group_by_group_id rows) \<longleftrightarrow>
     rs = filter (\<lambda>r. group_id r = Some g) rows \<and> (\<exists>r\<in>set rows. group_id r = Some g)"
  by (auto simp: group_by_group_id_def List.map_filter_def image_iff)

lemma getDuplicateGroups_iff:
  "(g, js) \<in> set (getDuplicateGroups scanId db) \<longleftrightarrow>
     js = map json_object (group_rows scanId g db) \<and> 1 < length (group_rows scanId g db)"
proof -
  have rows: "filter (\<lambda>r. group_id r = Some g) (scan_group_rows scanId db) = group_rows scanId g db"
    by (auto simp: scan_group_rows_def group_rows_def intro: filter_cong)
  have ex: "(\<exists>r\<in>set (scan_group_rows scanId db). group_id r = Some g)"
    if "1 < length (group_rows scanId g db)"
  proof -
    from that obtain r where "r \<in> set (group_rows scanId g db)"
      by (cases "group_rows scanId g db") auto
    then show ?thesis by (auto simp: scan_group_rows_def group_rows_def)
  qed
  have "(g, js) \<in> set (getDuplicateGroups scanId db) \<longleftrightarrow>
      (\<exists>rs. (g, rs) \<in> set (group_by_group_id (scan_group_rows scanId db)) \<and> 1 < length rs
        \<and> js = map json_object rs)"
    by (auto simp: getDuplicateGroups_def image_iff)
  also have "\<dots> \<longleftrightarrow> js = map json_object (group_rows scanId g db)
      \<and> 1 < length (group_rows scanId g db)"
    using ex by (auto simp: group_by_group_id_iff rows)
  finally show ?thesis .
qed

lemma group_rows_deleteFile:
  "group_rows scanId g (deleteFile p db) = filter (\<lambda>r. row_path r \<noteq> p) (group_rows scanId g db)"
  by (auto simp: group_rows_def deleteFile_def intro: filter_cong)

lemma json_path_object [simp]: "json_path (json_object r) = row_path r"
  by (simp add: json_path_def json_object_def)

text \<open>
  Claim C5.  After \<^verbatim>\<open>deleteFile(p)\<close> no group of any scan contains the path \<open>p\<close>, every
  group reported is a group reported before with the rows of \<open>p\<close> removed and has at
  least two members, and a group that held exactly two members, one of them \<open>p\<close>, is no
  longer reported.
\<close>

theorem C5_delete_consistency:
  "(\<forall>g js. (g, js) \<in> set (getDuplicateGroups scanId (deleteFile p db)) \<longrightarrow>
        p \<notin> set (map json_path js) \<and> 2 \<le> length js \<and>
        (\<exists>js0. (g, js0) \<in> set (getDuplicateGroups scanId db) \<and>
           js = filter (\<lambda>j. json_path j \<noteq> p) js0))
   \<and> (\<forall>g js. (g, js) \<in> set (getDuplicateGroups scanId db) \<and> length js = 2 \<and>
        p \<in> set (map json_path js) \<longrightarrow>
        g \<notin> fst ` set (getDuplicateGroups scanId (deleteFile p db)))"
proof (intro conjI allI impI)
  fix g js
  assume a: "(g, js) \<in> set (getDuplicateGroups scanId (deleteFile p db))"
  let ?rs = "group_rows scanId g db"
  from a have js: "js = map json_object (filter (\<lambda>r. row_path r \<noteq> p) ?rs)"
    and len: "1 < length (filter (\<lambda>r. row_path r \<noteq> p) ?rs)"
    by (simp_all add: getDuplicateGroups_iff group_rows_deleteFile)
  from js show "p \<notin> set (map json_path js)" by (auto simp: comp_def)
  from js len show "2 \<le> length js" by simp
  have "length (filter (\<lambda>r. row_path r \<noteq> p) ?rs) \<le> length ?rs" by (rule length_filter_le)
  with len have "1 < length ?rs" by linarith
  then have "(g, map json_object ?rs) \<in> set (getDuplicateGroups scanId db)"
    by (simp add: getDuplicateGroups_iff)
  moreover have "js = filter (\<lambda>j. json_path j \<noteq> p) (map json_object ?rs)"
    by (simp add: js filter_map comp_def)
  ultimately show "\<exists>js0. (g, js0) \<in> set (getDuplicateGroups scanId db) \<and>
      js = filter (\<lambda>j. json_path j \<noteq> p) js0"
    by blast
next
  fix g js
  assume a: "(g, js) \<in> set (getDuplicateGroups scanId db) \<and> length js = 2 \<and>
      p \<in> set (map json_path js)"
  let ?rs = "group_rows scanId g db"
  from a have js: "js = map json_object ?rs" by (simp add: getDuplicateGroups_iff)
  with a have two: "length ?rs = 2" and "p \<in> set (map row_path ?rs)"
    by (auto simp: comp_def)
  then obtain r where "r \<in> set ?rs" "row_path r = p" by auto
  then have "length (filter (\<lambda>r. row_path r \<noteq> p) ?rs) < length ?rs"
    by (intro length_filter_less) auto
  with two have "\<not> 1 < length (filter (\<lambda>r. row_path r \<noteq> p) ?rs)" by simp
  then show "g \<notin> fst ` set (getDuplicateGroups scanId (deleteFile p db))"
    by (auto simp: getDuplicateGroups_iff group_rows_deleteFile)
qed

lemma demo_db_groups:
  "group_rows 1 ''aa'' demo_db = [demo_row 1 ''/d/a.txt'' ''aa'', demo_row 2 ''/d/b.txt'' ''aa'']"
  "group_rows 1 ''bb'' demo_db = [demo_row 3 ''/d/x.txt'' ''bb'', demo_row 4 ''/d/y.txt'' ''bb'',
      demo_row 5 ''/d/z.txt'' ''bb'']"
  by (simp_all add: group_rows_def demo_db_def demo_row_def)

theorem C5_delete_consistency_witness:
  "(''aa'', map json_object [demo_row 1 ''/d/a.txt'' ''aa'', demo_row 2 ''/d/b.txt'' ''aa''])
      \<in> set (getDuplicateGroups 1 demo_db)
   \<and> length (map json_object [demo_row 1 ''/d/a.txt'' ''aa'', demo_row 2 ''/d/b.txt'' ''aa'']) = 2
   \<and> ''/d/a.txt'' \<in> set (map json_path
        (map json_object [demo_row 1 ''/d/a.txt'' ''aa'', demo_row 2 ''/d/b.txt'' ''aa'']))
   \<and> ''aa'' \<notin> fst ` set (getDuplicateGroups 1 (deleteFile ''/d/a.txt'' demo_db))
   \<and> (''bb'', map json_object [demo_row 3 ''/d/x.txt'' ''bb'', demo_row 4 ''/d/y.txt'' ''bb'',
        demo_row 5 ''/d/z.txt'' ''bb''])
      \<in> set (getDuplicateGroups 1 (deleteFile ''/d/a.txt'' demo_db))"
proof -
  let ?js = "map json_object [demo_row 1 ''/d/a.txt'' ''aa'', demo_row 2 ''/d/b.txt'' ''aa'']"
  have m: "(''aa'', ?js) \<in> set (getDuplicateGroups 1 demo_db)"
    using demo_db_groups by (simp add: getDuplicateGroups_iff)
  have l: "length ?js = 2" by simp
  have p: "''/d/a.txt'' \<in> set (map json_path ?js)" by (simp add: demo_row_def)
  have "(''aa'', ?js) \<in> set (getDuplicateGroups 1 demo_db) \<and> length ?js = 2 \<and>
        ''/d/a.txt'' \<in> set (map json_path ?js) \<longrightarrow>
        ''aa'' \<notin> fst ` set (getDuplicateGroups 1 (deleteFile ''/d/a.txt'' demo_db))"
    using C5_delete_consistency [of 1 "''/d/a.txt''" demo_db] by blast
  from this conjI [OF m conjI [OF l p]]
  have gone: "''aa'' \<notin> fst ` set (getDuplicateGroups 1 (deleteFile ''/d/a.txt'' demo_db))"
    by (rule mp)
  have kept: "(''bb'', map json_object [demo_row 3 ''/d/x.txt'' ''bb'', demo_row 4 ''/d/y.txt'' ''bb'',
        demo_row 5 ''/d/z.txt'' ''bb''])
      \<in> set (getDuplicateGroups 1 (deleteFile ''/d/a.txt'' demo_db))"
    using demo_db_groups by (simp add: getDuplicateGroups_iff group_rows_deleteFile demo_row_def)
  show ?thesis
    by (rule conjI [OF m conjI [OF l conjI [OF p conjI [OF gone kept]]]])
qed

section \<open>Exclusion and partial failure in the walk\<close>

lemma excluded_skip:
  assumes "excluded env ex (path_join env dir (entry_name e))"
  shows "scanEntries env rc ex sid dir (e # es) acc n s = scanEntries env rc ex sid dir es acc n s"
  using assms by (cases e) (simp_all add: Let_def)

lemma walk_trace_paths:
  "\<exists>evs. st_trace (snd (scanDirectory env rc ex sid dir listing s)) =
       st_trace s @ Readdir dir # evs \<and>
     (\<forall>ev\<in>set evs. \<forall>p. event_path ev = Some p \<longrightarrow> \<not> excluded env ex p)"
  "\<exists>evs. st_trace (snd (scanEntries env rc ex sid dir es acc n s)) = st_trace s @ evs \<and>
     (\<forall>ev\<in>set evs. \<forall>p. event_path ev = Some p \<longrightarrow> \<not> excluded env ex p)"
proof (induction env rc ex sid dir listing s and env rc ex sid dir es acc n s
    rule: scanDirectory_scanEntries.induct)
  case (1 env rc ex sid dir s)
  show ?case by (simp add: log_events_def)
next
  case (2 env rc ex sid dir ents s)
  from "2.IH" obtain evs where
    "st_trace (snd (scanEntries env rc ex sid dir ents [] 0 (log_events [Readdir dir] s))) =
       st_trace (log_events [Readdir dir] s) @ evs"
    and "\<forall>ev\<in>set evs. \<forall>p. event_path ev = Some p \<longrightarrow> \<not> excluded env ex p"
    by blast
  then show ?case by (auto simp: log_events_def split: prod.splits)
next
  case (3 env rc ex sid dir allFiles n s)
  show ?case by simp
next
  case (4 env rc ex sid dir nm ents allFiles n s)
  let ?p = "path_join env dir nm"
  show ?case
  proof (cases "excluded env ex ?p")
    case True
    with "4.IH"(1) [OF refl True] show ?thesis by (simp add: Let_def)
  next
    case False
    show ?thesis
    proof (cases "fs_stat ?p (fs_file env ?p)")
      case (Inl e)
      from "4.IH"(2) [OF refl False Inl] obtain evs where
        "st_trace (snd (scanEntries env rc ex sid dir ents allFiles n
            (log_events [Stat ?p, ConsoleError ?p] s))) =
          st_trace (log_events [Stat ?p, ConsoleError ?p] s) @ evs"
        and "\<forall>ev\<in>set evs. \<forall>p. event_path ev = Some p \<longrightarrow> \<not> excluded env ex p"
        by blast
      with False Inl show ?thesis
        by (intro exI [of _ "[Stat ?p, ConsoleError ?p] @ evs"])
          (auto simp: Let_def log_events_def)
    next
      case (Inr stats)
      show ?thesis
      proof (cases "quickDigest env ?p")
        case (Inl e)
        from "4.IH"(3) [OF refl False Inr Inl] obtain evs where
          "st_trace (snd (scanEntries env rc ex sid dir ents allFiles n
              (log_events [Stat ?p, QuickRead ?p, ConsoleError ?p] s))) =
            st_trace (log_events [Stat ?p, QuickRead ?p, ConsoleError ?p] s) @ evs"
          and "\<forall>ev\<in>set evs. \<forall>p. event_path ev = Some p \<longrightarrow> \<not> excluded env ex p"
          by blast
        with False Inr Inl show ?thesis
          by (intro exI [of _ "[Stat ?p, QuickRead ?p, ConsoleError ?p] @ evs"])
            (auto simp: Let_def log_events_def)
      next
        case (Inr q)
        let ?fi = "make_fileInfo env ?p nm stats q"
        let ?s1 = "log_events [Stat ?p, QuickRead ?p] s"
        let ?s2 = "?s1\<lparr>st_db := addFile sid ?fi None (st_db ?s1)\<rparr>"
        let ?s3 = "progressCallback sid (n + 1) ?s2"
        from "4.IH"(4) [OF refl False \<open>fs_stat ?p (fs_file env ?p) = Inr stats\<close> Inr refl refl refl]
        obtain evs where
          "st_trace (snd (scanEntries env rc ex sid dir ents (allFiles @ [?fi]) (n + 1) ?s3)) =
            st_trace ?s3 @ evs"
          and "\<forall>ev\<in>set evs. \<forall>p. event_path ev = Some p \<longrightarrow> \<not> excluded env ex p"
          by blast
        with False \<open>fs_stat ?p (fs_file env ?p) = Inr stats\<close> Inr show ?thesis
          by (intro exI [of _ "[Stat ?p, QuickRead ?p, OnProgress (n + 1) 0 Scanning] @ evs"])
            (auto simp: Let_def log_events_def progressCallback_def)
      qed
    qed
  qed
next
  case (5 env rc ex sid dir nm listing ents allFiles n s)
  let ?p = "path_join env dir nm"
  show ?case
  proof (cases "excluded env ex ?p")
    case True
    with "5.IH"(1) [OF refl True] show ?thesis by (simp add: Let_def)
  next
    case False
    show ?thesis
    proof (cases rc)
      case False
      with "5.IH"(5) [OF refl \<open>\<not> excluded env ex ?p\<close> False] \<open>\<not> excluded env ex ?p\<close>
      show ?thesis by (simp add: Let_def)
    next
      case True
      obtain r s' where sd: "scanDirectory env rc ex sid ?p listing s = (r, s')"
        by (cases "scanDirectory env rc ex sid ?p listing s")
      from "5.IH"(2) [OF refl False True] sd obtain evs1 where
        e1: "st_trace s' = st_trace s @ Readdir ?p # evs1"
        and p1: "\<forall>ev\<in>set evs1. \<forall>p. event_path ev = Some p \<longrightarrow> \<not> excluded env ex p"
        by auto
      show ?thesis
      proof (cases r)
        case (Inl e)
        from "5.IH"(3) [OF refl False True sd [symmetric] Inl] obtain evs where
          "st_trace (snd (scanEntries env rc ex sid dir ents allFiles n
              (log_events [ConsoleError ?p] s'))) =
            st_trace (log_events [ConsoleError ?p] s') @ evs"
          and "\<forall>ev\<in>set evs. \<forall>p. event_path ev = Some p \<longrightarrow> \<not> excluded env ex p"
          by blast
        with False True sd Inl e1 p1 show ?thesis
          by (intro exI [of _ "Readdir ?p # evs1 @ [ConsoleError ?p] @ evs"])
            (auto simp: Let_def log_events_def)
      next
        case (Inr sub)
        from "5.IH"(4) [OF refl False True sd [symmetric] Inr] obtain evs where
          "st_trace (snd (scanEntries env rc ex sid dir ents (allFiles @ sub) n s')) =
            st_trace s' @ evs"
          and "\<forall>ev\<in>set evs. \<forall>p. event_path ev = Some p \<longrightarrow> \<not> excluded env ex p"
          by blast
        with False True sd Inr e1 p1 show ?thesis
          by (intro exI [of _ "Readdir ?p # evs1 @ evs"])
            (auto simp: Let_def log_events_def)
      qed
    qed
  qed
next
  case (6 env rc ex sid dir nm ents allFiles n s)
  then show ?case by simp
qed

lemma files_not_excluded:
  "f \<in> set (entry_files env rc ex dir e) \<Longrightarrow> \<not> excluded env ex (path f)"
  "f \<in> set (entries_files env rc ex dir es) \<Longrightarrow> \<not> excluded env ex (path f)"
proof (induction env rc ex dir e and env rc ex dir es rule: entry_files_entries_files.induct)
  case (1 env rc ex dir nm)
  then show ?case
    by (auto simp: Let_def make_fileInfo_def split: if_splits sum.splits prod.splits)
next
  case (2 env rc ex dir nm listing)
  then show ?case by (auto simp: Let_def split: if_splits option.splits)
next
  case (3 env rc ex dir nm)
  then show ?case by simp
next
  case (4 env rc ex dir)
  then show ?case by simp
next
  case (5 env rc ex dir e es)
  then show ?case by auto
qed

lemma append_rows_append:
  "append_rows sid (xs @ ys) t = append_rows sid ys (append_rows sid xs t)"
  by (simp add: append_rows_def)

lemma append_rows_simps [simp]:
  "append_rows sid [] t = t"
  "append_rows sid (f # fs) t =
     append_rows sid fs (t @ [file_row_of (next_rowid (map row_id t)) sid f])"
  by (simp_all add: append_rows_def)

lemma files_tbl_addFile:
  "hash f = None \<Longrightarrow> files_tbl (addFile sid f None db) =
     files_tbl db @ [file_row_of (next_rowid (map row_id (files_tbl db))) sid f]"
  by (simp add: addFile_def file_row_of_def)

lemma make_fileInfo_hash [simp]: "hash (make_fileInfo env p nm stats q) = None"
  by (simp add: make_fileInfo_def split: prod.splits)

lemma walk_db:
  "files_tbl (st_db (snd (scanDirectory env rc ex sid dir listing s))) =
     append_rows sid (case listing of None \<Rightarrow> [] | Some es \<Rightarrow> entries_files env rc ex dir es)
       (files_tbl (st_db s))
   \<and> scan_keys (st_db (snd (scanDirectory env rc ex sid dir listing s))) = scan_keys (st_db s)"
  "files_tbl (st_db (snd (scanEntries env rc ex sid dir es acc n s))) =
     append_rows sid (entries_files env rc ex dir es) (files_tbl (st_db s))
   \<and> scan_keys (st_db (snd (scanEntries env rc ex sid dir es acc n s))) = scan_keys (st_db s)"
proof (induction env rc ex sid dir listing s and env rc ex sid dir es acc n s
    rule: scanDirectory_scanEntries.induct)
  case (1 env rc ex sid dir s)
  show ?case by (simp add: log_events_def)
next
  case (2 env rc ex sid dir ents s)
  then show ?case by (auto simp: log_events_def split: prod.splits)
next
  case (3 env rc ex sid dir allFiles n s)
  show ?case by simp
next
  case (4 env rc ex sid dir nm ents allFiles n s)
  let ?p = "path_join env dir nm"
  show ?case
  proof (cases "excluded env ex ?p")
    case True
    with "4.IH"(1) [OF refl True] show ?thesis by (simp add: Let_def)
  next
    case False
    show ?thesis
    proof (cases "fs_stat ?p (fs_file env ?p)")
      case (Inl e)
      with False "4.IH"(2) [OF refl False Inl] show ?thesis
        by (simp add: Let_def log_events_def)
    next
      case (Inr stats)
      show ?thesis
      proof (cases "quickDigest env ?p")
        case (Inl e)
        with False Inr "4.IH"(3) [OF refl False Inr Inl] show ?thesis
          by (simp add: Let_def log_events_def)
      next
        case q: (Inr q)
        have db: "files_tbl (st_db (progressCallback sid k
            (log_events [Stat ?p, QuickRead ?p] s
              \<lparr>st_db := addFile sid (make_fileInfo env ?p nm stats q) None
                (st_db (log_events [Stat ?p, QuickRead ?p] s))\<rparr>))) =
            files_tbl (st_db s) @ [file_row_of (next_rowid (map row_id (files_tbl (st_db s))))
              sid (make_fileInfo env ?p nm stats q)]" for k
          by (simp add: progressCallback_def log_events_def updateScanProgress_def
              files_tbl_addFile)
        have keys: "scan_keys (st_db (progressCallback sid k
            (log_events [Stat ?p, QuickRead ?p] s
              \<lparr>st_db := addFile sid (make_fileInfo env ?p nm stats q) None
                (st_db (log_events [Stat ?p, QuickRead ?p] s))\<rparr>))) = scan_keys (st_db s)" for k
          by (simp add: progressCallback_def log_events_def updateScanProgress_def
              addFile_def scan_keys_def comp_def)
        from "4.IH"(4) [OF refl False Inr q refl refl refl] False Inr q show ?thesis
          by (simp add: Let_def db keys)
      qed
    qed
  qed
next
  case (5 env rc ex sid dir nm listing ents allFiles n s)
  let ?p = "path_join env dir nm"
  show ?case
  proof (cases "excluded env ex ?p \<or> \<not> rc")
    case True
    with "5.IH"(1,5) show ?thesis by (auto simp: Let_def)
  next
    case False
    then have ne: "\<not> excluded env ex ?p" and rc: rc by simp_all
    obtain r s' where sd: "scanDirectory env rc ex sid ?p listing s = (r, s')"
      by (cases "scanDirectory env rc ex sid ?p listing s")
    from "5.IH"(2) [OF refl ne rc] sd
    have s': "files_tbl (st_db s') =
        append_rows sid (case listing of None \<Rightarrow> [] | Some es \<Rightarrow> entries_files env rc ex ?p es)
          (files_tbl (st_db s))"
      and k': "scan_keys (st_db s') = scan_keys (st_db s)"
      by simp_all
    from walk_files(1) [of env rc ex sid ?p listing s] sd
    have r: "r = (case listing of None \<Rightarrow> Inl (ScanFailed ?p)
        | Some es \<Rightarrow> Inr (entries_files env rc ex ?p es))"
      by simp
    show ?thesis
    proof (cases listing)
      case None
      with r have rl: "r = Inl (ScanFailed ?p)" by simp
      from "5.IH"(3) [OF refl ne rc sd [symmetric] rl] s' k' None ne rc sd rl
      show ?thesis by (simp add: Let_def log_events_def)
    next
      case (Some sub)
      with r have rr: "r = Inr (entries_files env rc ex ?p sub)" by simp
      from "5.IH"(4) [OF refl ne rc sd [symmetric] rr] s' k' Some ne rc sd rr
      show ?thesis by (simp add: Let_def append_rows_append)
    qed
  qed
next
  case (6 env rc ex sid dir nm ents allFiles n s)
  then show ?case by simp
qed

lemma append_rows_paths:
  "row_path ` set (append_rows sid fs t) = row_path ` set t \<union> path ` set fs"
  by (induction fs arbitrary: t) (auto simp: file_row_of_def)

lemma append_rows_prefix: "\<exists>new. append_rows sid fs t = t @ new \<and> map row_path new = map path fs"
proof (induction fs arbitrary: t)
  case Nil
  show ?case by simp
next
  case (Cons f fs)
  from Cons [of "t @ [file_row_of (next_rowid (map row_id t)) sid f]"]
  obtain new where "append_rows sid fs (t @ [file_row_of (next_rowid (map row_id t)) sid f]) =
      (t @ [file_row_of (next_rowid (map row_id t)) sid f]) @ new"
    and "map row_path new = map path fs" by blast
  then show ?case
    by (intro exI [of _ "file_row_of (next_rowid (map row_id t)) sid f # new"])
      (simp add: file_row_of_def)
qed

text \<open>
  Claim C9.  An entry is excluded when some pattern matches its path taken relative to
  the working directory.  The loop passes over an excluded entry without any effect: the
  records collected, the index and the trace are those of the walk of the remaining
  entries, so the entry is not stat-ed, not hashed, not recorded, not reported and, a
  directory, not descended into.  In a whole walk, every event after the \<^verbatim>\<open>readdir\<close> of
  the root is about a path that is not excluded, and so is every record collected and
  every row added to the index.
\<close>

theorem C9_exclusion:
  "excluded env ex p =
     (\<exists>pattern\<in>set ex. minimatch env (path_relative env (cwd env) p) pattern)
   \<and> (excluded env ex (path_join env dir (entry_name e)) \<longrightarrow>
        scanEntries env rc ex sid dir (e # es) acc n s =
          scanEntries env rc ex sid dir es acc n s)
   \<and> (\<exists>evs. st_trace (snd (scanDirectory env rc ex sid dir listing s)) =
          st_trace s @ Readdir dir # evs \<and>
        (\<forall>ev\<in>set evs. \<forall>q. event_path ev = Some q \<longrightarrow> \<not> excluded env ex q))
   \<and> (\<forall>f\<in>set (entries_files env rc ex dir es). \<not> excluded env ex (path f))
   \<and> (\<exists>new. files_tbl (st_db (snd (scanDirectory env rc ex sid dir listing s))) =
          files_tbl (st_db s) @ new \<and>
        (\<forall>r\<in>set new. \<not> excluded env ex (row_path r)))"
proof (intro conjI)
  show "excluded env ex p =
     (\<exists>pattern\<in>set ex. minimatch env (path_relative env (cwd env) p) pattern)"
    by (simp add: excluded_def list_ex_iff)
  show "excluded env ex (path_join env dir (entry_name e)) \<longrightarrow>
        scanEntries env rc ex sid dir (e # es) acc n s =
          scanEntries env rc ex sid dir es acc n s"
    using excluded_skip by blast
  show "\<exists>evs. st_trace (snd (scanDirectory env rc ex sid dir listing s)) =
          st_trace s @ Readdir dir # evs \<and>
        (\<forall>ev\<in>set evs. \<forall>q. event_path ev = Some q \<longrightarrow> \<not> excluded env ex q)"
    by (rule walk_trace_paths(1))
  show "\<forall>f\<in>set (entries_files env rc ex dir es). \<not> excluded env ex (path f)"
    using files_not_excluded(2) by blast
  let ?fs = "case listing of None \<Rightarrow> [] | Some es \<Rightarrow> entries_files env rc ex dir es"
  obtain new where new: "append_rows sid ?fs (files_tbl (st_db s)) = files_tbl (st_db s) @ new"
    and paths: "map row_path new = map path ?fs"
    using append_rows_prefix by blast
  have "\<forall>f\<in>set ?fs. \<not> excluded env ex (path f)"
    using files_not_excluded(2) by (cases listing) auto
  then have "\<forall>q\<in>set (map path ?fs). \<not> excluded env ex q" by simp
  with paths have "\<forall>r\<in>set new. \<not> excluded env ex (row_path r)"
    by (metis image_eqI list.set_map)
  with new walk_db(1) [of env rc ex sid dir listing s]
  show "\<exists>new. files_tbl (st_db (snd (scanDirectory env rc ex sid dir listing s))) =
          files_tbl (st_db s) @ new \<and>
        (\<forall>r\<in>set new. \<not> excluded env ex (row_path r))"
    by auto
qed

theorem C9_exclusion_witness:
  "excluded demo_env [''b.txt''] (path_join demo_env ''/d'' (entry_name (FileEnt ''b.txt'')))
   \<and> scanEntries demo_env True [''b.txt''] 1 ''/d'' (FileEnt ''b.txt'' # [FileEnt ''a.txt''])
        [] 0 demo_st
     = scanEntries demo_env True [''b.txt''] 1 ''/d'' [FileEnt ''a.txt''] [] 0 demo_st
   \<and> entries_files demo_env True [''b.txt''] ''/d'' demo_tree
     = [(demo_record ''/d/a.txt'' ''a.txt'')\<lparr>hash := None\<rparr>,
        (demo_record ''/d/c.txt'' ''c.txt'')\<lparr>quickHash := ''776f726c64'', hash := None\<rparr>]"
proof -
  have rel: "path_relative demo_env (cwd demo_env) p = drop 3 p" for p
    by (simp add: demo_env_def numeral_3_eq_3)
  have mm: "minimatch demo_env q pat = (q = pat)" for q pat
    by (simp add: demo_env_def)
  have x: "excluded demo_env [''b.txt''] (path_join demo_env ''/d'' (entry_name (FileEnt ''b.txt'')))"
    by (simp add: excluded_def demo_join rel mm)
  have "excluded demo_env [''b.txt''] (path_join demo_env ''/d'' (entry_name (FileEnt ''b.txt'')))
      \<longrightarrow> scanEntries demo_env True [''b.txt''] 1 ''/d'' (FileEnt ''b.txt'' # [FileEnt ''a.txt''])
        [] 0 demo_st
     = scanEntries demo_env True [''b.txt''] 1 ''/d'' [FileEnt ''a.txt''] [] 0 demo_st"
    by (rule C9_exclusion [THEN conjunct2, THEN conjunct1])
  from this x have skip: "scanEntries demo_env True [''b.txt''] 1 ''/d''
        (FileEnt ''b.txt'' # [FileEnt ''a.txt'']) [] 0 demo_st
     = scanEntries demo_env True [''b.txt''] 1 ''/d'' [FileEnt ''a.txt''] [] 0 demo_st"
    by (rule mp)
  have fs: "entries_files demo_env True [''b.txt''] ''/d'' demo_tree
     = [(demo_record ''/d/a.txt'' ''a.txt'')\<lparr>hash := None\<rparr>,
        (demo_record ''/d/c.txt'' ''c.txt'')\<lparr>quickHash := ''776f726c64'', hash := None\<rparr>]"
    by (simp add: demo_tree_def demo_join demo_stat demo_format demo_quick excluded_def rel mm
        make_fileInfo_def demo_record_def)
  show ?thesis by (rule conjI [OF x conjI [OF skip fs]])
qed

section \<open>Errors of a scan\<close>

lemma fullDigest_Inl: "fullDigest env p = Inl e \<Longrightarrow> e = ReadFailed p"
  by (auto simp: fullDigest_def calculateHash_def createReadStream_def
      split: sum.splits fault.splits if_splits)

lemma hashGroupFiles_Inl:
  "fst (hashGroupFiles env fs s) = Inl e \<Longrightarrow>
   \<exists>f\<in>set fs. e = ReadFailed (path f) \<and> isl (fullDigest env (path f))"
proof (induction fs arbitrary: s)
  case Nil
  then show ?case by simp
next
  case (Cons f fs)
  show ?case
  proof (cases "fullDigest env (path f)")
    case (Inl e')
    with Cons.prems fullDigest_Inl [OF Inl] show ?thesis by simp
  next
    case (Inr h)
    let ?s = "storeFileHash (f\<lparr>hash := Some h\<rparr>) (log_events [FullRead (path f)] s)"
    from Cons.prems Inr have "fst (hashGroupFiles env fs ?s) = Inl e"
      by (auto simp: Let_def split: prod.splits sum.splits)
    from Cons.IH [OF this] show ?thesis by auto
  qed
qed

lemma processQuick_Inl:
  "fst (processQuickHashGroups env sid n qgs acc s) = Inl e \<Longrightarrow>
   \<exists>f\<in>set (concat (filter (\<lambda>q. 1 < length q) qgs)).
      e = ReadFailed (path f) \<and> isl (fullDigest env (path f))"
proof (induction qgs arbitrary: acc s)
  case Nil
  then show ?case by simp
next
  case (Cons q qgs)
  show ?case
  proof (cases "1 < length q")
    case False
    with Cons.prems Cons.IH [of acc s] show ?thesis by auto
  next
    case True
    obtain r s' where h: "hashGroupFiles env q s = (r, s')"
      by (cases "hashGroupFiles env q s")
    show ?thesis
    proof (cases r)
      case (Inl e')
      with Cons.prems True h have "fst (hashGroupFiles env q s) = Inl e" by simp
      from hashGroupFiles_Inl [OF this] True show ?thesis by auto
    next
      case (Inr hashed)
      let ?acc = "pushDuplicates hashed acc"
      from Cons.prems True h Inr
      have "fst (processQuickHashGroups env sid n qgs ?acc (reportHashing sid n (snd ?acc) s'))
          = Inl e"
        by (simp add: Let_def)
      from Cons.IH [OF this] True show ?thesis by auto
    qed
  qed
qed

lemma processSize_Inl:
  "fst (processSizeGroups env sid n sgs acc s) = Inl e \<Longrightarrow>
   \<exists>f\<in>set (concat (concat (map (\<lambda>g. filter (\<lambda>q. 1 < length q)
        (map snd (group_by quickHash g []))) sgs))).
      e = ReadFailed (path f) \<and> isl (fullDigest env (path f))"
proof (induction sgs arbitrary: acc s)
  case Nil
  then show ?case by simp
next
  case (Cons g sgs)
  let ?qs = "map snd (group_by quickHash g [])"
  obtain r s' where h: "processQuickHashGroups env sid n ?qs acc s = (r, s')"
    by (cases "processQuickHashGroups env sid n ?qs acc s")
  have eq: "set (concat (concat (map (\<lambda>g. filter (\<lambda>q. 1 < length q)
        (map snd (group_by quickHash g []))) (g # sgs)))) =
      set (concat (filter (\<lambda>q. 1 < length q) ?qs)) \<union>
      set (concat (concat (map (\<lambda>g. filter (\<lambda>q. 1 < length q)
        (map snd (group_by quickHash g []))) sgs)))"
    by simp
  show ?case
  proof (cases r)
    case (Inl e')
    with Cons.prems h have "fst (processQuickHashGroups env sid n ?qs acc s) = Inl e"
      by (simp add: Let_def)
    from processQuick_Inl [OF this] show ?thesis unfolding eq by blast
  next
    case (Inr acc')
    with Cons.prems h have "fst (processSizeGroups env sid n sgs acc' s') = Inl e"
      by (simp add: Let_def)
    from Cons.IH [OF this] show ?thesis unfolding eq by blast
  qed
qed

lemma classify_Inl:
  assumes "fst (classify env sid files s) = Inl e"
  shows "\<exists>f\<in>set (concat (candidates files)).
      e = ReadFailed (path f) \<and> isl (fullDigest env (path f))"
proof -
  from assms
  have "fst (processSizeGroups env sid (length files) (potentialDuplicates files) ([], 0) s)
      = Inl e"
    by (auto simp: classify_def split: prod.splits sum.splits)
  from processSize_Inl [OF this] show ?thesis by (simp add: candidates_def)
qed

lemma findDuplicates_Inl:
  assumes "fst (scanWithIndex env opts d dir (Some ents)) = Inl e"
  shows "\<exists>f\<in>set (concat (candidates (scanned_files env opts dir ents))).
      e = FindFailed (ReadFailed (path f)) \<and> isl (fullDigest env (path f))"
proof -
  obtain i t where "fst (scanWithIndex env opts d dir (Some ents)) =
     (case fst (classify env i (scanned_files env opts dir ents) t) of
        Inl e \<Rightarrow> Inl (FindFailed e)
      | Inr r \<Rightarrow> Inr (r, choose_dbPath env opts, i))"
    by (rule findDuplicates_Some)
  with assms obtain e' where "fst (classify env i (scanned_files env opts dir ents) t) = Inl e'"
    and "e = FindFailed e'"
    by (auto split: sum.splits)
  with classify_Inl [of env i "scanned_files env opts dir ents" t e'] show ?thesis by auto
qed

lemma quick_ok_full_ok:
  assumes nl: "no_late_fault env" and q: "quickDigest env p = Inr h"
  shows "\<not> isl (fullDigest env p)"
proof (cases "read_fault (fs_file env p)")
  case NoFault
  then show ?thesis by (simp add: fullDigest_def calculateHash_ok)
next
  case OpenFault
  with q show ?thesis
    by (simp add: quickDigest_def calculateQuickHash_def createReadStream_def)
next
  case (FaultAt k)
  with q have "\<not> k < length (stream_range (fs_file env p) 0 (Some 65535))"
    by (auto simp: quickDigest_def calculateQuickHash_def createReadStream_def
        split: if_splits)
  then have "\<not> k < min (length (content (fs_file env p))) 65536"
    by (simp add: stream_range_quick)
  moreover from nl FaultAt have "k < 65536 \<or> length (content (fs_file env p)) \<le> k"
    unfolding no_late_fault_def by blast
  ultimately have "length (content (fs_file env p)) \<le> k" by auto
  with FaultAt show ?thesis
    by (simp add: fullDigest_def calculateHash_def createReadStream_def stream_range_full)
qed

lemma findDuplicates_no_late_fault:
  assumes "no_late_fault env"
  shows "fst (scanWithIndex env opts d dir (Some ents)) =
    Inr (sort_groups (discovery env (scanned_files env opts dir ents)), choose_dbPath env opts,
      new_scan_id env opts d)"
proof (rule findDuplicates_result, rule ballI)
  fix f assume "f \<in> set (concat (candidates (scanned_files env opts dir ents)))"
  then have "f \<in> set (scanned_files env opts dir ents)" by (rule candidate_bucket(1))
  then have "quickDigest env (path f) = Inr (quickHash f)"
    using entries_files_consistent(2) [of f env "recursive opts" "exclude opts" dir ents]
    by (simp add: scanned_files_def)
  with assms show "\<not> isl (fullDigest env (path f))" by (rule quick_ok_full_ok)
qed

lemma file_stat_failure:
  assumes "\<not> excluded env ex (path_join env dir nm)"
    and "isl (fs_stat (path_join env dir nm) (fs_file env (path_join env dir nm)))"
  shows "scanEntries env rc ex sid dir (FileEnt nm # es) acc n s =
      scanEntries env rc ex sid dir es acc n
        (log_events [Stat (path_join env dir nm), ConsoleError (path_join env dir nm)] s)"
    and "entry_files env rc ex dir (FileEnt nm) = []"
  using assms
  by (cases "fs_stat (path_join env dir nm) (fs_file env (path_join env dir nm))";
      simp add: Let_def)+

lemma file_quick_failure:
  assumes "\<not> excluded env ex (path_join env dir nm)"
    and "\<not> isl (fs_stat (path_join env dir nm) (fs_file env (path_join env dir nm)))"
    and "isl (quickDigest env (path_join env dir nm))"
  shows "scanEntries env rc ex sid dir (FileEnt nm # es) acc n s =
      scanEntries env rc ex sid dir es acc n
        (log_events [Stat (path_join env dir nm), QuickRead (path_join env dir nm),
           ConsoleError (path_join env dir nm)] s)"
    and "entry_files env rc ex dir (FileEnt nm) = []"
  using assms
  by (cases "fs_stat (path_join env dir nm) (fs_file env (path_join env dir nm))";
      cases "quickDigest env (path_join env dir nm)"; simp add: Let_def)+

lemma dir_failure:
  assumes "\<not> excluded env ex (path_join env dir nm)" and rc
  shows "scanEntries env rc ex sid dir (DirEnt nm None # es) acc n s =
      scanEntries env rc ex sid dir es acc n
        (log_events [Readdir (path_join env dir nm), ConsoleError (path_join env dir nm)] s)"
    and "entry_files env rc ex dir (DirEnt nm None) = []"
  using assms by (simp_all add: Let_def log_events_def)

text \<open>
  The policy of the walk.  A file whose \<^verbatim>\<open>stat\<close> or quick digest fails is reported
  by \<^verbatim>\<open>console.error\<close> and yields no record, and the loop goes on with the next
  entry, the records collected so far unchanged.  A directory that cannot be read is
  reported likewise by the loop of its parent, which goes on.  So the walk of a root that
  can be read never throws, and its records are those of the files read with success.
  With its index open, \<^verbatim>\<open>findDuplicates\<close> on such a root throws only when the full
  digest of a file of a bucket of two or more fails afterwards; where no file has a read
  fault beyond its first 64 KiB, it returns the groups of the records of the walk.
\<close>

lemma walk_partial_failure:
  "(\<not> excluded env ex (path_join env dir nm) \<and>
      isl (fs_stat (path_join env dir nm) (fs_file env (path_join env dir nm))) \<longrightarrow>
      scanEntries env rc ex sid dir (FileEnt nm # es) acc n s =
        scanEntries env rc ex sid dir es acc n
          (log_events [Stat (path_join env dir nm), ConsoleError (path_join env dir nm)] s)
      \<and> entry_files env rc ex dir (FileEnt nm) = [])
   \<and> (\<not> excluded env ex (path_join env dir nm) \<and>
      \<not> isl (fs_stat (path_join env dir nm) (fs_file env (path_join env dir nm))) \<and>
      isl (quickDigest env (path_join env dir nm)) \<longrightarrow>
      scanEntries env rc ex sid dir (FileEnt nm # es) acc n s =
        scanEntries env rc ex sid dir es acc n
          (log_events [Stat (path_join env dir nm), QuickRead (path_join env dir nm),
             ConsoleError (path_join env dir nm)] s)
      \<and> entry_files env rc ex dir (FileEnt nm) = [])
   \<and> (\<not> excluded env ex (path_join env dir nm) \<and> rc \<longrightarrow>
      scanEntries env rc ex sid dir (DirEnt nm None # es) acc n s =
        scanEntries env rc ex sid dir es acc n
          (log_events [Readdir (path_join env dir nm), ConsoleError (path_join env dir nm)] s)
      \<and> entry_files env rc ex dir (DirEnt nm None) = [])
   \<and> fst (scanDirectory env rc ex sid dir (Some ents) s) = Inr (entries_files env rc ex dir ents)
   \<and> fst (scanEntries env rc ex sid dir es acc n s) = acc @ entries_files env rc ex dir es
   \<and> (\<forall>e. fst (scanWithIndex env opts d dir (Some ents)) = Inl e \<longrightarrow>
        (\<exists>f\<in>set (concat (candidates (scanned_files env opts dir ents))).
           e = FindFailed (ReadFailed (path f)) \<and> isl (fullDigest env (path f))))
   \<and> (no_late_fault env \<longrightarrow>
        fst (scanWithIndex env opts d dir (Some ents)) =
          Inr (sort_groups (discovery env (scanned_files env opts dir ents)),
               choose_dbPath env opts, new_scan_id env opts d))"
proof (intro conjI impI allI)
  assume a: "\<not> excluded env ex (path_join env dir nm) \<and>
      isl (fs_stat (path_join env dir nm) (fs_file env (path_join env dir nm)))"
  then have x: "\<not> excluded env ex (path_join env dir nm)"
    and y: "isl (fs_stat (path_join env dir nm) (fs_file env (path_join env dir nm)))"
    by simp_all
  show "scanEntries env rc ex sid dir (FileEnt nm # es) acc n s =
        scanEntries env rc ex sid dir es acc n
          (log_events [Stat (path_join env dir nm), ConsoleError (path_join env dir nm)] s)"
    by (rule file_stat_failure(1) [OF x y])
  show "entry_files env rc ex dir (FileEnt nm) = []"
    by (rule file_stat_failure(2) [OF x y])
next
  assume a: "\<not> excluded env ex (path_join env dir nm) \<and>
      \<not> isl (fs_stat (path_join env dir nm) (fs_file env (path_join env dir nm))) \<and>
      isl (quickDigest env (path_join env dir nm))"
  then have x: "\<not> excluded env ex (path_join env dir nm)"
    and y: "\<not> isl (fs_stat (path_join env dir nm) (fs_file env (path_join env dir nm)))"
    and z: "isl (quickDigest env (path_join env dir nm))"
    by simp_all
  show "scanEntries env rc ex sid dir (FileEnt nm # es) acc n s =
        scanEntries env rc ex sid dir es acc n
          (log_events [Stat (path_join env dir nm), QuickRead (path_join env dir nm),
             ConsoleError (path_join env dir nm)] s)"
    by (rule file_quick_failure(1) [OF x y z])
  show "entry_files env rc ex dir (FileEnt nm) = []"
    by (rule file_quick_failure(2) [OF x y z])
next
  assume a: "\<not> excluded env ex (path_join env dir nm) \<and> rc"
  then have x: "\<not> excluded env ex (path_join env dir nm)" and y: rc
    by simp_all
  show "scanEntries env rc ex sid dir (DirEnt nm None # es) acc n s =
        scanEntries env rc ex sid dir es acc n
          (log_events [Readdir (path_join env dir nm), ConsoleError (path_join env dir nm)] s)"
    by (rule dir_failure(1) [OF x y])
  show "entry_files env rc ex dir (DirEnt nm None) = []"
    by (rule dir_failure(2) [OF x y])
next
  show "fst (scanDirectory env rc ex sid dir (Some ents) s) = Inr (entries_files env rc ex dir ents)"
    by (simp only: walk_files(1) option.case)
  show "fst (scanEntries env rc ex sid dir es acc n s) = acc @ entries_files env rc ex dir es"
    by (rule walk_files(2))
next
  fix e assume "fst (scanWithIndex env opts d dir (Some ents)) = Inl e"
  then show "\<exists>f\<in>set (concat (candidates (scanned_files env opts dir ents))).
           e = FindFailed (ReadFailed (path f)) \<and> isl (fullDigest env (path f))"
    by (rule findDuplicates_Inl)
next
  assume "no_late_fault env"
  then show "fst (scanWithIndex env opts d dir (Some ents)) =
          Inr (sort_groups (discovery env (scanned_files env opts dir ents)),
               choose_dbPath env opts, new_scan_id env opts d)"
    by (rule findDuplicates_no_late_fault)
qed

lemma demo_no_late_fault: "no_late_fault demo_env"
  by (simp add: no_late_fault_def demo_env_def demo_fs_def demo_hello_def demo_world_def
      demo_longer_def demo_missing_def)

lemma demo_bad_entries:
  "path_join demo_env ''/d'' ''zz.txt'' = ''/d/zz.txt''"
  "path_join demo_env ''/d'' ''sub'' = ''/d/sub''"
  "fs_stat p (fs_file demo_env ''/d/zz.txt'') = Inl (StatFailed p)"
  by (simp_all add: demo_env_def demo_fs_def fs_stat_def demo_missing_def)

lemma demo_files_bad:
  "scanned_files demo_env demo_opts_rec ''/d'' demo_tree_bad =
     scanned_files demo_env demo_opts ''/d'' demo_tree"
  by (simp add: scanned_files_def demo_tree_bad_def demo_opts_rec_def demo_opts_def
      demo_bad_entries excluded_def demo_tree_def)

lemma demo_dbPath_rec: "choose_dbPath demo_env demo_opts_rec = ''/d/.super-dee-duper.abababab''"
  by (simp add: choose_dbPath_def demo_opts_rec_def generateIndexPath_def randomBytes_def
      demo_env_def toString_hex_def byte_hex_def hex_digit_def upt_rec)

lemma demo_scan_id_rec: "new_scan_id demo_env demo_opts_rec Map.empty = 1"
  by (simp add: new_scan_id_def open_database_def empty_database_def next_rowid_def)

lemma walk_partial_failure_example:
  "\<not> excluded demo_env [] (path_join demo_env ''/d'' ''zz.txt'')
   \<and> isl (fs_stat (path_join demo_env ''/d'' ''zz.txt'')
        (fs_file demo_env (path_join demo_env ''/d'' ''zz.txt'')))
   \<and> scanEntries demo_env True [] 1 ''/d'' (FileEnt ''zz.txt'' # demo_tree) [] 0 demo_st =
       scanEntries demo_env True [] 1 ''/d'' demo_tree [] 0
         (log_events [Stat (path_join demo_env ''/d'' ''zz.txt''),
            ConsoleError (path_join demo_env ''/d'' ''zz.txt'')] demo_st)
   \<and> no_late_fault demo_env
   \<and> fst (scanWithIndex demo_env demo_opts_rec Map.empty ''/d'' (Some demo_tree_bad)) =
       Inr ([[demo_record ''/d/a.txt'' ''a.txt'', demo_record ''/d/b.txt'' ''b.txt'']],
            ''/d/.super-dee-duper.abababab'', 1)"
proof -
  let ?p = "path_join demo_env ''/d'' ''zz.txt''"
  note T = walk_partial_failure [where env = demo_env and ex = "[]" and dir = "''/d''"
      and nm = "''zz.txt''" and rc = True and sid = 1 and es = demo_tree and acc = "[]"
      and n = 0 and s = demo_st and ents = demo_tree_bad and opts = demo_opts_rec
      and d = Map.empty]
  have x: "\<not> excluded demo_env [] ?p" by (simp add: excluded_def)
  have st: "isl (fs_stat ?p (fs_file demo_env ?p))" by (simp add: demo_bad_entries)
  from T have "\<not> excluded demo_env [] ?p \<and> isl (fs_stat ?p (fs_file demo_env ?p)) \<longrightarrow>
      scanEntries demo_env True [] 1 ''/d'' (FileEnt ''zz.txt'' # demo_tree) [] 0 demo_st =
        scanEntries demo_env True [] 1 ''/d'' demo_tree [] 0
          (log_events [Stat ?p, ConsoleError ?p] demo_st)
      \<and> entry_files demo_env True [] ''/d'' (FileEnt ''zz.txt'') = []"
    by (rule conjunct1)
  from this conjI [OF x st]
  have "scanEntries demo_env True [] 1 ''/d'' (FileEnt ''zz.txt'' # demo_tree) [] 0 demo_st =
        scanEntries demo_env True [] 1 ''/d'' demo_tree [] 0
          (log_events [Stat ?p, ConsoleError ?p] demo_st)
      \<and> entry_files demo_env True [] ''/d'' (FileEnt ''zz.txt'') = []"
    by (rule mp)
  then have skip: "scanEntries demo_env True [] 1 ''/d'' (FileEnt ''zz.txt'' # demo_tree) [] 0
      demo_st = scanEntries demo_env True [] 1 ''/d'' demo_tree [] 0
          (log_events [Stat ?p, ConsoleError ?p] demo_st)"
    by (rule conjunct1)
  from T have "no_late_fault demo_env \<longrightarrow>
        fst (scanWithIndex demo_env demo_opts_rec Map.empty ''/d'' (Some demo_tree_bad)) =
          Inr (sort_groups (discovery demo_env
                 (scanned_files demo_env demo_opts_rec ''/d'' demo_tree_bad)),
               choose_dbPath demo_env demo_opts_rec, new_scan_id demo_env demo_opts_rec Map.empty)"
    by (rule conjunct2 [THEN conjunct2, THEN conjunct2, THEN conjunct2, THEN conjunct2,
        THEN conjunct2])
  from this demo_no_late_fault
  have "fst (scanWithIndex demo_env demo_opts_rec Map.empty ''/d'' (Some demo_tree_bad)) =
          Inr (sort_groups (discovery demo_env
                 (scanned_files demo_env demo_opts_rec ''/d'' demo_tree_bad)),
               choose_dbPath demo_env demo_opts_rec, new_scan_id demo_env demo_opts_rec Map.empty)"
    by (rule mp)
  then have run: "fst (scanWithIndex demo_env demo_opts_rec Map.empty ''/d''
      (Some demo_tree_bad)) =
       Inr ([[demo_record ''/d/a.txt'' ''a.txt'', demo_record ''/d/b.txt'' ''b.txt'']],
            ''/d/.super-dee-duper.abababab'', 1)"
    by (simp add: demo_files_bad demo_discovery demo_dbPath_rec demo_scan_id_rec sort_groups_def)
  show ?thesis
    by (rule conjI [OF x conjI [OF st conjI [OF skip conjI [OF demo_no_late_fault run]]]])
qed

text \<open>
  A full digest that fails.  The loop over a bucket, \<^verbatim>\<open>for (const file of quickHashGroup)\<close>,
  awaits \<^verbatim>\<open>calculateHash\<close> with no \<^verbatim>\<open>try\<close> of its own, so the error reaches the
  \<^verbatim>\<open>catch\<close> of \<^verbatim>\<open>findDuplicates\<close>, which throws it again.
\<close>

lemma calculateHash_late_fault:
  assumes "read_fault f = FaultAt k" and "k < length (content f)"
  shows "calculateHash sha p f = Inl (ReadFailed p)"
  using assms by (simp add: calculateHash_def createReadStream_def stream_range_full)

lemma length_demo_big_content: "length demo_big_content = 70001"
  by (simp add: demo_big_content_def)

lemma demo_big_env:
  "path_join demo_env_big = path_join demo_env"
  "path_relative demo_env_big = path_relative demo_env"
  "minimatch demo_env_big = minimatch demo_env"
  "cwd demo_env_big = cwd demo_env"
  "format_size demo_env_big = format_size demo_env"
  "sha256 demo_env_big = toString_hex"
  "fs_file demo_env_big = demo_fs_big"
  "db_openable demo_env_big = db_openable demo_env"
  "random_source demo_env_big = random_source demo_env"
  by (simp_all add: demo_env_big_def demo_env_def)

lemma demo_big_files:
  "demo_fs_big ''/d/a.txt'' = demo_hello" "demo_fs_big ''/d/b.txt'' = demo_hello"
  "demo_fs_big ''/d/x.bin'' = demo_big" "demo_fs_big ''/d/y.bin'' = demo_big_fault"
  by (simp_all add: demo_fs_big_def)

lemma demo_big_stat:
  "fs_stat p (fs_file demo_env_big ''/d/a.txt'') = Inr (5, 0, 0)"
  "fs_stat p (fs_file demo_env_big ''/d/b.txt'') = Inr (5, 0, 0)"
  "fs_stat p (fs_file demo_env_big ''/d/x.bin'') = Inr (70001, 0, 0)"
  "fs_stat p (fs_file demo_env_big ''/d/y.bin'') = Inr (70001, 0, 0)"
  by (simp_all add: demo_big_env demo_big_files fs_stat_def demo_hello_def demo_big_def
      demo_big_fault_def length_demo_big_content)

lemma demo_big_quick:
  "quickDigest demo_env_big ''/d/a.txt'' = Inr ''68656c6c6f''"
  "quickDigest demo_env_big ''/d/b.txt'' = Inr ''68656c6c6f''"
  "quickDigest demo_env_big ''/d/x.bin'' = Inr (toString_hex (take 65536 demo_big_content))"
  "quickDigest demo_env_big ''/d/y.bin'' = Inr (toString_hex (take 65536 demo_big_content))"
  by (simp_all add: quickDigest_def demo_big_env demo_big_files calculateQuickHash_ok
      demo_hello_def demo_big_def demo_big_fault_def length_demo_big_content hex_hello)

lemma demo_big_full:
  "fullDigest demo_env_big ''/d/a.txt'' = Inr ''68656c6c6f''"
  "fullDigest demo_env_big ''/d/b.txt'' = Inr ''68656c6c6f''"
  "fullDigest demo_env_big ''/d/x.bin'' = Inr (toString_hex demo_big_content)"
  "fullDigest demo_env_big ''/d/y.bin'' = Inl (ReadFailed ''/d/y.bin'')"
  by (simp_all add: fullDigest_def demo_big_env demo_big_files calculateHash_ok
      calculateHash_late_fault [where k = 70000]
      demo_hello_def demo_big_def demo_big_fault_def length_demo_big_content hex_hello)

lemma demo_big_join:
  "path_join demo_env_big ''/d'' ''a.txt'' = ''/d/a.txt''"
  "path_join demo_env_big ''/d'' ''b.txt'' = ''/d/b.txt''"
  "path_join demo_env_big ''/d'' ''x.bin'' = ''/d/x.bin''"
  "path_join demo_env_big ''/d'' ''y.bin'' = ''/d/y.bin''"
  by (simp_all add: demo_big_env demo_env_def)

lemma demo_big_format: "format_size demo_env_big n = []"
  by (simp add: demo_big_env demo_env_def)

lemma demo_files_big:
  "scanned_files demo_env_big demo_opts ''/d'' demo_tree_big
   = [demo_record ''/d/a.txt'' ''a.txt''\<lparr>hash := None\<rparr>,
      demo_record ''/d/b.txt'' ''b.txt''\<lparr>hash := None\<rparr>,
      demo_record_big ''/d/x.bin'' ''x.bin'',
      demo_record_big ''/d/y.bin'' ''y.bin'']"
  by (simp add: scanned_files_def demo_tree_big_def demo_opts_def demo_big_join demo_big_stat
      demo_big_quick excluded_def make_fileInfo_def demo_record_def demo_record_big_def
      demo_big_format)

lemma demo_candidates_big:
  "candidates (scanned_files demo_env_big demo_opts ''/d'' demo_tree_big)
   = [[demo_record ''/d/a.txt'' ''a.txt''\<lparr>hash := None\<rparr>,
       demo_record ''/d/b.txt'' ''b.txt''\<lparr>hash := None\<rparr>],
      [demo_record_big ''/d/x.bin'' ''x.bin'', demo_record_big ''/d/y.bin'' ''y.bin'']]"
  by (simp add: demo_files_big candidates_def potentialDuplicates_def sizeGroups_def
      group_by_def demo_record_def demo_record_big_def)

lemma demo_big_opened:
  "findDuplicates demo_env_big demo_opts d dir listing =
     scanWithIndex demo_env_big demo_opts d dir listing"
proof (rule findDuplicates_opened)
  have "choose_dbPath demo_env_big demo_opts = choose_dbPath demo_env demo_opts"
    by (simp add: choose_dbPath_def generateIndexPath_def randomBytes_def demo_big_env
        demo_opts_def)
  then show "db_openable demo_env_big (choose_dbPath demo_env_big demo_opts)"
    unfolding demo_big_env demo_dbPath by (simp add: demo_env_def)
qed

lemma demo_run_big:
  "fst (findDuplicates demo_env_big demo_opts Map.empty ''/d'' (Some demo_tree_big)) =
     Inl (FindFailed (ReadFailed ''/d/y.bin''))"
proof -
  let ?fs = "scanned_files demo_env_big demo_opts ''/d'' demo_tree_big"
  let ?run = "scanWithIndex demo_env_big demo_opts Map.empty ''/d'' (Some demo_tree_big)"
  have bad: "\<exists>f\<in>set (concat (candidates ?fs)). isl (fullDigest demo_env_big (path f))"
    by (simp add: demo_candidates_big demo_record_big_def demo_big_full)
  obtain i t where "isl (fst ?run) = isl (fst (classify demo_env_big i ?fs t))"
    by (rule findDuplicates_isl)
  with classify_fail [OF bad, of i t] have "isl (fst ?run)" by simp
  then obtain e where e: "fst ?run = Inl e" by (cases "fst ?run") auto
  from findDuplicates_Inl [OF e] obtain f where f: "f \<in> set (concat (candidates ?fs))"
    and ef: "e = FindFailed (ReadFailed (path f))"
    and fl: "isl (fullDigest demo_env_big (path f))" by blast
  from f fl have "path f = ''/d/y.bin''"
    by (auto simp: demo_candidates_big demo_record_def demo_record_big_def demo_big_full)
  with e ef show ?thesis unfolding demo_big_opened by simp
qed

text \<open>
  Claim C8.  In the walk the policy holds: a file whose \<^verbatim>\<open>stat\<close> or quick digest fails
  and a directory that cannot be read are reported and passed over (above).  In the
  classification it does not.  The directory has \<^verbatim>\<open>a.txt\<close> and \<^verbatim>\<open>b.txt\<close>, equal and
  read with success, and \<^verbatim>\<open>x.bin\<close> and \<^verbatim>\<open>y.bin\<close> of 70001 bytes, where reading
  \<^verbatim>\<open>y.bin\<close> fails at byte 70000.  The walk records the four files, the quick digest of
  \<^verbatim>\<open>y.bin\<close> being that of \<^verbatim>\<open>x.bin\<close>; the full digest of \<^verbatim>\<open>y.bin\<close> fails, and the
  call throws that error: it returns no group, the group of \<^verbatim>\<open>a.txt\<close> and \<^verbatim>\<open>b.txt\<close>
  included.
\<close>

theorem C8_full_hash_failure:
  "map path (scanned_files demo_env_big demo_opts ''/d'' demo_tree_big) =
     [''/d/a.txt'', ''/d/b.txt'', ''/d/x.bin'', ''/d/y.bin'']
   \<and> quickDigest demo_env_big ''/d/y.bin'' = quickDigest demo_env_big ''/d/x.bin''
   \<and> \<not> isl (quickDigest demo_env_big ''/d/y.bin'')
   \<and> fullDigest demo_env_big ''/d/y.bin'' = Inl (ReadFailed ''/d/y.bin'')
   \<and> fullDigest demo_env_big ''/d/a.txt'' = Inr ''68656c6c6f''
   \<and> fullDigest demo_env_big ''/d/b.txt'' = Inr ''68656c6c6f''
   \<and> fst (findDuplicates demo_env_big demo_opts Map.empty ''/d'' (Some demo_tree_big)) =
       Inl (FindFailed (ReadFailed ''/d/y.bin''))"
proof -
  have a: "map path (scanned_files demo_env_big demo_opts ''/d'' demo_tree_big) =
     [''/d/a.txt'', ''/d/b.txt'', ''/d/x.bin'', ''/d/y.bin'']"
    by (simp add: demo_files_big demo_record_def demo_record_big_def)
  have b: "quickDigest demo_env_big ''/d/y.bin'' = quickDigest demo_env_big ''/d/x.bin''"
    by (simp only: demo_big_quick)
  have c: "\<not> isl (quickDigest demo_env_big ''/d/y.bin'')"
    by (simp add: demo_big_quick)
  show ?thesis
    by (rule conjI [OF a conjI [OF b conjI [OF c conjI [OF demo_big_full(4)
        conjI [OF demo_big_full(1) conjI [OF demo_big_full(2) demo_run_big]]]]]])
qed

section \<open>The index written by a run\<close>

lemma storeFileHash_frame:
  "scan_keys (st_db (storeFileHash f s)) = scan_keys (st_db s)
   \<and> map row_path (files_tbl (st_db (storeFileHash f s))) = map row_path (files_tbl (st_db s))"
  by (auto simp: storeFileHash_def Let_def updateFileHash_def scan_keys_def comp_def
      split: option.splits intro!: map_cong)

lemma reportHashing_frame:
  "scan_keys (st_db (reportHashing sid n g s)) = scan_keys (st_db s)
   \<and> files_tbl (st_db (reportHashing sid n g s)) = files_tbl (st_db s)"
  by (auto simp: reportHashing_def updateScanProgress_def scan_keys_def comp_def
      intro!: map_cong)

lemma hashGroupFiles_frame:
  "scan_keys (st_db (snd (hashGroupFiles env fs s))) = scan_keys (st_db s)
   \<and> map row_path (files_tbl (st_db (snd (hashGroupFiles env fs s)))) =
       map row_path (files_tbl (st_db s))"
proof (induction fs arbitrary: s)
  case Nil
  show ?case by simp
next
  case (Cons f fs)
  show ?case
  proof (cases "fullDigest env (path f)")
    case (Inl e)
    then show ?thesis by (simp add: log_events_def)
  next
    case (Inr h)
    let ?s = "storeFileHash (f\<lparr>hash := Some h\<rparr>) (log_events [FullRead (path f)] s)"
    have "snd (hashGroupFiles env (f # fs) s) = snd (hashGroupFiles env fs ?s)"
      using Inr by (simp add: Let_def split: prod.splits sum.splits)
    with Cons.IH [of ?s] storeFileHash_frame [of "f\<lparr>hash := Some h\<rparr>"
        "log_events [FullRead (path f)] s"]
    show ?thesis by (simp add: log_events_def)
  qed
qed

lemma processQuick_frame:
  "scan_keys (st_db (snd (processQuickHashGroups env sid n qgs acc s))) = scan_keys (st_db s)
   \<and> map row_path (files_tbl (st_db (snd (processQuickHashGroups env sid n qgs acc s)))) =
       map row_path (files_tbl (st_db s))"
proof (induction qgs arbitrary: acc s)
  case Nil
  show ?case by simp
next
  case (Cons q qgs)
  show ?case
  proof (cases "1 < length q")
    case False
    with Cons.IH [of acc s] show ?thesis by simp
  next
    case True
    obtain r s' where h: "hashGroupFiles env q s = (r, s')"
      by (cases "hashGroupFiles env q s")
    from hashGroupFiles_frame [of env q s] h
    have s': "scan_keys (st_db s') = scan_keys (st_db s)"
      "map row_path (files_tbl (st_db s')) = map row_path (files_tbl (st_db s))"
      by simp_all
    show ?thesis
    proof (cases r)
      case (Inl e)
      with True h s' show ?thesis by simp
    next
      case (Inr hashed)
      let ?acc = "pushDuplicates hashed acc"
      have "snd (processQuickHashGroups env sid n (q # qgs) acc s) =
          snd (processQuickHashGroups env sid n qgs ?acc (reportHashing sid n (snd ?acc) s'))"
        using True h Inr by (simp add: Let_def)
      with Cons.IH [of ?acc "reportHashing sid n (snd ?acc) s'"]
        reportHashing_frame [of sid n "snd ?acc" s'] s'
      show ?thesis by simp
    qed
  qed
qed

lemma processSize_frame:
  "scan_keys (st_db (snd (processSizeGroups env sid n sgs acc s))) = scan_keys (st_db s)
   \<and> map row_path (files_tbl (st_db (snd (processSizeGroups env sid n sgs acc s)))) =
       map row_path (files_tbl (st_db s))"
proof (induction sgs arbitrary: acc s)
  case Nil
  show ?case by simp
next
  case (Cons g sgs)
  let ?qs = "map snd (group_by quickHash g [])"
  obtain r s' where h: "processQuickHashGroups env sid n ?qs acc s = (r, s')"
    by (cases "processQuickHashGroups env sid n ?qs acc s")
  from processQuick_frame [of env sid n ?qs acc s] h
  have s': "scan_keys (st_db s') = scan_keys (st_db s)"
    "map row_path (files_tbl (st_db s')) = map row_path (files_tbl (st_db s))"
    by simp_all
  show ?case
  proof (cases r)
    case (Inl e)
    with h s' show ?thesis by (simp add: Let_def)
  next
    case (Inr acc')
    have "snd (processSizeGroups env sid n (g # sgs) acc s) =
        snd (processSizeGroups env sid n sgs acc' s')"
      using h Inr by (simp add: Let_def)
    with Cons.IH [of acc' s'] s' show ?thesis by simp
  qed
qed

lemma snd_classify:
  "snd (classify env sid files s) =
     snd (processSizeGroups env sid (length files) (potentialDuplicates files) ([], 0) s)"
  by (simp add: classify_def split: prod.splits sum.splits)

lemma classify_frame:
  "scan_keys (st_db (snd (classify env sid files s))) = scan_keys (st_db s)
   \<and> map row_path (files_tbl (st_db (snd (classify env sid files s)))) =
       map row_path (files_tbl (st_db s))"
  unfolding snd_classify by (rule processSize_frame)

lemma completeScan_frame:
  "scan_keys (completeScan sid t db) = scan_keys db
   \<and> files_tbl (completeScan sid t db) = files_tbl db"
  by (auto simp: completeScan_def scan_keys_def comp_def intro!: map_cong)

lemma startScan_effect:
  "startScan b t db = (i, db1) \<Longrightarrow>
   i = next_rowid (map info_id (scan_info_tbl db)) \<and> scan_keys db1 = scan_keys db @ [(i, b)]
   \<and> files_tbl db1 = files_tbl db"
  by (auto simp: startScan_def Let_def scan_keys_def)

text \<open>The index a run leaves at its index path, whether it returns or throws.\<close>

lemma findDuplicates_disk:
  obtains db where
    "fst (snd (scanWithIndex env opts d dir listing)) = d(choose_dbPath env opts \<mapsto> db)"
    and "scan_keys db = scan_keys (open_database d (choose_dbPath env opts)) @
      [(new_scan_id env opts d, path_resolve env dir)]"
    and "map row_path (files_tbl db) =
      map row_path (files_tbl (open_database d (choose_dbPath env opts))) @
      map path (case listing of None \<Rightarrow> [] | Some ents \<Rightarrow> scanned_files env opts dir ents)"
proof -
  let ?p = "choose_dbPath env opts"
  let ?db = "open_database d ?p"
  let ?fs = "case listing of None \<Rightarrow> [] | Some ents \<Rightarrow> scanned_files env opts dir ents"
  obtain sid db1 where st: "startScan (path_resolve env dir) (date_now env 0) ?db = (sid, db1)"
    by (cases "startScan (path_resolve env dir) (date_now env 0) ?db")
  from startScan_effect [OF st]
  have sid: "sid = new_scan_id env opts d"
    and k1: "scan_keys db1 = scan_keys ?db @ [(sid, path_resolve env dir)]"
    and f1: "files_tbl db1 = files_tbl ?db"
    by (simp_all add: new_scan_id_def)
  let ?s0 = "\<lparr>st_db = db1, st_trace = []\<rparr>"
  obtain r s1 where sc: "scanDirectory env (recursive opts) (exclude opts) sid dir listing ?s0
      = (r, s1)"
    by (cases "scanDirectory env (recursive opts) (exclude opts) sid dir listing ?s0")
  from walk_db(1) [of env "recursive opts" "exclude opts" sid dir listing ?s0] sc
  have t1: "files_tbl (st_db s1) = append_rows sid ?fs (files_tbl db1)"
    and ks1: "scan_keys (st_db s1) = scan_keys db1"
    by (simp_all add: scanned_files_def cong: option.case_cong)
  from append_rows_prefix [of sid ?fs "files_tbl db1"] t1 f1
  have p1: "map row_path (files_tbl (st_db s1)) = map row_path (files_tbl ?db) @ map path ?fs"
    by auto
  from walk_files(1) [of env "recursive opts" "exclude opts" sid dir listing ?s0] sc
  have r: "r = (case listing of None \<Rightarrow> Inl (ScanFailed dir)
      | Some es \<Rightarrow> Inr (scanned_files env opts dir es))"
    by (simp add: scanned_files_def cong: option.case_cong)
  show thesis
  proof (cases listing)
    case None
    with r have "r = Inl (ScanFailed dir)" by simp
    then have "fst (snd (scanWithIndex env opts d dir listing)) = d(?p \<mapsto> st_db s1)"
      unfolding scanWithIndex_def Let_def st prod.case sc by simp
    with ks1 k1 sid p1 show ?thesis by (intro that [of "st_db s1"]) simp_all
  next
    case (Some ents)
    with r have rr: "r = Inr (scanned_files env opts dir ents)" by simp
    obtain c s2 where cl: "classify env sid (scanned_files env opts dir ents) s1 = (c, s2)"
      by (cases "classify env sid (scanned_files env opts dir ents) s1")
    from classify_frame [of env sid "scanned_files env opts dir ents" s1] cl
    have k2: "scan_keys (st_db s2) = scan_keys (st_db s1)"
      and p2: "map row_path (files_tbl (st_db s2)) = map row_path (files_tbl (st_db s1))"
      by simp_all
    show ?thesis
    proof (cases c)
      case (Inl e)
      have "fst (snd (scanWithIndex env opts d dir listing)) = d(?p \<mapsto> st_db s2)"
        unfolding scanWithIndex_def Let_def st prod.case sc rr using cl Inl by simp
      with k2 p2 ks1 k1 sid p1 show ?thesis by (intro that [of "st_db s2"]) simp_all
    next
      case (Inr result)
      let ?db3 = "completeScan sid (date_now env 1) (st_db s2)"
      have "fst (snd (scanWithIndex env opts d dir listing)) = d(?p \<mapsto> ?db3)"
        unfolding scanWithIndex_def Let_def st prod.case sc rr using cl Inr by simp
      with k2 p2 ks1 k1 sid p1 completeScan_frame [of sid "date_now env 1" "st_db s2"]
      show ?thesis by (intro that [of ?db3]) simp_all
    qed
  qed
qed

lemma length_toString_hex: "length (toString_hex bs) = 2 * length bs"
  by (induction bs) (simp_all add: toString_hex_def byte_hex_def)

lemma hex_digit_mem: "hex_digit k \<in> set ''0123456789abcdef''"
  unfolding hex_digit_def by (rule nth_mem) simp

lemma set_toString_hex: "set (toString_hex bs) \<subseteq> set ''0123456789abcdef''"
proof
  fix c assume "c \<in> set (toString_hex bs)"
  then obtain b where "c \<in> set (byte_hex b)" by (auto simp: toString_hex_def)
  then have "c = hex_digit (unat b div 16) \<or> c = hex_digit (unat b mod 16)"
    by (simp add: byte_hex_def)
  then show "c \<in> set ''0123456789abcdef''" using hex_digit_mem by metis
qed

lemma length_randomBytes [simp]: "length (randomBytes env n) = n"
  by (simp add: randomBytes_def)

lemma findDuplicates_Inr_ids:
  assumes "fst (scanWithIndex env opts d dir listing) = Inr (result, dbPath, scanId)"
  shows "dbPath = choose_dbPath env opts \<and> scanId = new_scan_id env opts d"
proof -
  let ?db = "open_database d (choose_dbPath env opts)"
  obtain sid db1 where st: "startScan (path_resolve env dir) (date_now env 0) ?db = (sid, db1)"
    by (cases "startScan (path_resolve env dir) (date_now env 0) ?db")
  from startScan_effect [OF st] have sid: "sid = new_scan_id env opts d"
    by (simp add: new_scan_id_def)
  let ?s0 = "\<lparr>st_db = db1, st_trace = []\<rparr>"
  obtain r s1 where sc: "scanDirectory env (recursive opts) (exclude opts) sid dir listing ?s0
      = (r, s1)"
    by (cases "scanDirectory env (recursive opts) (exclude opts) sid dir listing ?s0")
  show ?thesis
  proof (cases r)
    case (Inl e)
    with assms show ?thesis
      unfolding scanWithIndex_def Let_def st prod.case sc by simp
  next
    case (Inr files)
    obtain c s2 where cl: "classify env sid files s1 = (c, s2)"
      by (cases "classify env sid files s1")
    from assms sid show ?thesis
      unfolding scanWithIndex_def Let_def st prod.case sc Inr
      using cl by (cases c) auto
  qed
qed

text \<open>The index a scan leaves, and the path and scan id it returns.\<close>

lemma index_written_indexed:
  "(indexPath opts = None \<or> indexPath opts = Some [] \<longrightarrow>
      choose_dbPath env opts =
        path_join env (cwd env) (''.super-dee-duper.'' @ toString_hex (randomBytes env 4)))
   \<and> length (toString_hex (randomBytes env 4)) = 8
   \<and> set (toString_hex (randomBytes env 4)) \<subseteq> set ''0123456789abcdef''
   \<and> (\<exists>db. fst (snd (scanWithIndex env opts d dir listing)) = d(choose_dbPath env opts \<mapsto> db)
        \<and> scan_keys db = scan_keys (open_database d (choose_dbPath env opts)) @
            [(new_scan_id env opts d, path_resolve env dir)]
        \<and> map row_path (files_tbl db) =
            map row_path (files_tbl (open_database d (choose_dbPath env opts))) @
            map path (case listing of None \<Rightarrow> []
                      | Some ents \<Rightarrow> scanned_files env opts dir ents))
   \<and> (\<forall>result dbPath scanId.
        fst (scanWithIndex env opts d dir listing) = Inr (result, dbPath, scanId) \<longrightarrow>
        dbPath = choose_dbPath env opts \<and> scanId = new_scan_id env opts d)"
proof (intro conjI)
  show "indexPath opts = None \<or> indexPath opts = Some [] \<longrightarrow>
      choose_dbPath env opts =
        path_join env (cwd env) (''.super-dee-duper.'' @ toString_hex (randomBytes env 4))"
    by (auto simp: choose_dbPath_def generateIndexPath_def Let_def)
  show "length (toString_hex (randomBytes env 4)) = 8"
    by (simp add: length_toString_hex)
  show "set (toString_hex (randomBytes env 4)) \<subseteq> set ''0123456789abcdef''"
    by (rule set_toString_hex)
  show "\<exists>db. fst (snd (scanWithIndex env opts d dir listing)) = d(choose_dbPath env opts \<mapsto> db)
        \<and> scan_keys db = scan_keys (open_database d (choose_dbPath env opts)) @
            [(new_scan_id env opts d, path_resolve env dir)]
        \<and> map row_path (files_tbl db) =
            map row_path (files_tbl (open_database d (choose_dbPath env opts))) @
            map path (case listing of None \<Rightarrow> []
                      | Some ents \<Rightarrow> scanned_files env opts dir ents)"
    using findDuplicates_disk [of env opts d dir listing] by metis
  show "\<forall>result dbPath scanId.
        fst (scanWithIndex env opts d dir listing) = Inr (result, dbPath, scanId) \<longrightarrow>
        dbPath = choose_dbPath env opts \<and> scanId = new_scan_id env opts d"
    using findDuplicates_Inr_ids [of env opts d dir listing] by blast
qed

text \<open>
  Claim C10.  With no index path, or an empty one, the index path of a call is the file
  \<^verbatim>\<open>.super-dee-duper.\<close> followed by the hexadecimal text of four random bytes, eight
  hexadecimal digits, joined to the working directory.  Every call whose database can be
  opened at its index path, whatever its options and whether it returns or throws
  afterwards, leaves an index there: the index that was there, or a new one, with a row
  for the new scan of the resolved directory and a row for every record of the walk.  A
  call whose database cannot be opened throws the error of the constructor: nothing is
  read and no index is written.  A call that returns, returns its index path and its scan
  id, and its database could be opened.
\<close>

theorem C10_index_written:
  "(indexPath opts = None \<or> indexPath opts = Some [] \<longrightarrow>
      choose_dbPath env opts =
        path_join env (cwd env) (''.super-dee-duper.'' @ toString_hex (randomBytes env 4)))
   \<and> length (toString_hex (randomBytes env 4)) = 8
   \<and> set (toString_hex (randomBytes env 4)) \<subseteq> set ''0123456789abcdef''
   \<and> (db_openable env (choose_dbPath env opts) \<longrightarrow>
        (\<exists>db. fst (snd (findDuplicates env opts d dir listing)) = d(choose_dbPath env opts \<mapsto> db)
          \<and> scan_keys db = scan_keys (open_database d (choose_dbPath env opts)) @
              [(new_scan_id env opts d, path_resolve env dir)]
          \<and> map row_path (files_tbl db) =
              map row_path (files_tbl (open_database d (choose_dbPath env opts))) @
              map path (case listing of None \<Rightarrow> []
                        | Some ents \<Rightarrow> scanned_files env opts dir ents)))
   \<and> (\<not> db_openable env (choose_dbPath env opts) \<longrightarrow>
        findDuplicates env opts d dir listing =
          (Inl (OpenFailed (choose_dbPath env opts)), d, []))
   \<and> (\<forall>result dbPath scanId.
        fst (findDuplicates env opts d dir listing) = Inr (result, dbPath, scanId) \<longrightarrow>
        dbPath = choose_dbPath env opts \<and> scanId = new_scan_id env opts d \<and>
        db_openable env dbPath)"
proof (intro conjI)
  show "indexPath opts = None \<or> indexPath opts = Some [] \<longrightarrow>
      choose_dbPath env opts =
        path_join env (cwd env) (''.super-dee-duper.'' @ toString_hex (randomBytes env 4))"
    by (rule index_written_indexed [THEN conjunct1])
  show "length (toString_hex (randomBytes env 4)) = 8"
    by (simp add: length_toString_hex)
  show "set (toString_hex (randomBytes env 4)) \<subseteq> set ''0123456789abcdef''"
    by (rule set_toString_hex)
  show "db_openable env (choose_dbPath env opts) \<longrightarrow>
        (\<exists>db. fst (snd (findDuplicates env opts d dir listing)) = d(choose_dbPath env opts \<mapsto> db)
          \<and> scan_keys db = scan_keys (open_database d (choose_dbPath env opts)) @
              [(new_scan_id env opts d, path_resolve env dir)]
          \<and> map row_path (files_tbl db) =
              map row_path (files_tbl (open_database d (choose_dbPath env opts))) @
              map path (case listing of None \<Rightarrow> []
                        | Some ents \<Rightarrow> scanned_files env opts dir ents))"
  proof
    assume op: "db_openable env (choose_dbPath env opts)"
    show "\<exists>db. fst (snd (findDuplicates env opts d dir listing)) = d(choose_dbPath env opts \<mapsto> db)
          \<and> scan_keys db = scan_keys (open_database d (choose_dbPath env opts)) @
              [(new_scan_id env opts d, path_resolve env dir)]
          \<and> map row_path (files_tbl db) =
              map row_path (files_tbl (open_database d (choose_dbPath env opts))) @
              map path (case listing of None \<Rightarrow> []
                        | Some ents \<Rightarrow> scanned_files env opts dir ents)"
      unfolding findDuplicates_opened [OF op]
      by (rule index_written_indexed [THEN conjunct2, THEN conjunct2, THEN conjunct2,
          THEN conjunct1])
  qed
  show "\<not> db_openable env (choose_dbPath env opts) \<longrightarrow>
        findDuplicates env opts d dir listing =
          (Inl (OpenFailed (choose_dbPath env opts)), d, [])"
    by (rule impI) (rule findDuplicates_unopened)
  show "\<forall>result dbPath scanId.
        fst (findDuplicates env opts d dir listing) = Inr (result, dbPath, scanId) \<longrightarrow>
        dbPath = choose_dbPath env opts \<and> scanId = new_scan_id env opts d \<and>
        db_openable env dbPath"
  proof (intro allI impI)
    fix result dbPath scanId
    assume a: "fst (findDuplicates env opts d dir listing) = Inr (result, dbPath, scanId)"
    note op = findDuplicates_Inr_scan(1) [OF a]
    from findDuplicates_Inr_ids [OF findDuplicates_Inr_scan(2) [OF a]] op
    show "dbPath = choose_dbPath env opts \<and> scanId = new_scan_id env opts d \<and>
        db_openable env dbPath"
      by simp
  qed
qed

lemma demo_missing_path: "choose_dbPath demo_env demo_opts_missing = ''/missing/idx''"
  by (simp add: choose_dbPath_def demo_opts_missing_def)

lemma demo_missing_unopenable: "\<not> db_openable demo_env ''/missing/idx''"
  by (simp add: demo_env_def)

theorem C10_index_written_witness:
  "indexPath demo_opts = None
   \<and> choose_dbPath demo_env demo_opts =
       path_join demo_env (cwd demo_env)
         (''.super-dee-duper.'' @ toString_hex (randomBytes demo_env 4))
   \<and> choose_dbPath demo_env demo_opts = ''/d/.super-dee-duper.abababab''
   \<and> db_openable demo_env (choose_dbPath demo_env demo_opts)
   \<and> (\<exists>db. fst (snd (findDuplicates demo_env demo_opts Map.empty ''/d'' (Some demo_tree))) =
          Map.empty(choose_dbPath demo_env demo_opts \<mapsto> db)
        \<and> scan_keys db =
            scan_keys (open_database Map.empty (choose_dbPath demo_env demo_opts)) @
            [(new_scan_id demo_env demo_opts Map.empty, path_resolve demo_env ''/d'')]
        \<and> map row_path (files_tbl db) =
            map row_path (files_tbl (open_database Map.empty (choose_dbPath demo_env demo_opts))) @
            map path (case Some demo_tree of None \<Rightarrow> []
                      | Some ents \<Rightarrow> scanned_files demo_env demo_opts ''/d'' ents))
   \<and> fst (findDuplicates demo_env demo_opts Map.empty ''/d'' (Some demo_tree)) =
       Inr ([[demo_record ''/d/a.txt'' ''a.txt'', demo_record ''/d/b.txt'' ''b.txt'']],
            ''/d/.super-dee-duper.abababab'', 1)
   \<and> new_scan_id demo_env demo_opts Map.empty = 1
   \<and> \<not> db_openable demo_env (choose_dbPath demo_env demo_opts_missing)
   \<and> findDuplicates demo_env demo_opts_missing Map.empty ''/d'' (Some demo_tree) =
       (Inl (OpenFailed (choose_dbPath demo_env demo_opts_missing)), Map.empty, [])"
proof -
  note T = C10_index_written [where env = demo_env and opts = demo_opts
      and d = Map.empty and dir = "''/d''" and listing = "Some demo_tree"]
  note U = C10_index_written [where env = demo_env and opts = demo_opts_missing
      and d = Map.empty and dir = "''/d''" and listing = "Some demo_tree"]
  have n: "indexPath demo_opts = None" by (simp add: demo_opts_def)
  note g = T [THEN conjunct1, THEN mp, OF disjI1 [OF n]]
  have op: "db_openable demo_env (choose_dbPath demo_env demo_opts)"
    unfolding demo_dbPath by (simp add: demo_env_def)
  note ex = T [THEN conjunct2, THEN conjunct2, THEN conjunct2, THEN conjunct1, THEN mp, OF op]
  have run: "fst (findDuplicates demo_env demo_opts Map.empty ''/d'' (Some demo_tree)) =
       Inr ([[demo_record ''/d/a.txt'' ''a.txt'', demo_record ''/d/b.txt'' ''b.txt'']],
            ''/d/.super-dee-duper.abababab'', 1)"
    unfolding demo_opened by (rule demo_run)
  have no: "\<not> db_openable demo_env (choose_dbPath demo_env demo_opts_missing)"
    unfolding demo_missing_path by (rule demo_missing_unopenable)
  note fail = U [THEN conjunct2, THEN conjunct2, THEN conjunct2, THEN conjunct2,
      THEN conjunct1, THEN mp, OF no]
  show ?thesis
    by (rule conjI [OF n conjI [OF g conjI [OF demo_dbPath conjI [OF op conjI [OF ex
        conjI [OF run conjI [OF demo_scan_id conjI [OF no fail]]]]]]]])
qed

text \<open>
  The example of an index path in a directory that does not exist: the call throws the
  error of the constructor, and there is no index at the path afterwards.
\<close>

theorem C10_unopenable_counterexample:
  "indexPath demo_opts_missing = Some ''/missing/idx''
   \<and> \<not> db_openable demo_env ''/missing/idx''
   \<and> fst (findDuplicates demo_env demo_opts_missing Map.empty ''/d'' (Some demo_tree)) =
       Inl (OpenFailed ''/missing/idx'')
   \<and> fst (snd (findDuplicates demo_env demo_opts_missing Map.empty ''/d'' (Some demo_tree)))
       ''/missing/idx'' = None
   \<and> snd (snd (findDuplicates demo_env demo_opts_missing Map.empty ''/d'' (Some demo_tree))) = []"
proof -
  have no: "\<not> db_openable demo_env (choose_dbPath demo_env demo_opts_missing)"
    unfolding demo_missing_path by (rule demo_missing_unopenable)
  note eq = findDuplicates_unopened [OF no, unfolded demo_missing_path]
  have a: "indexPath demo_opts_missing = Some ''/missing/idx''"
    by (simp add: demo_opts_missing_def)
  have b: "fst (findDuplicates demo_env demo_opts_missing Map.empty ''/d'' (Some demo_tree)) =
       Inl (OpenFailed ''/missing/idx'')"
    unfolding eq by simp
  have c: "fst (snd (findDuplicates demo_env demo_opts_missing Map.empty ''/d''
      (Some demo_tree))) ''/missing/idx'' = None"
    unfolding eq by simp
  have e: "snd (snd (findDuplicates demo_env demo_opts_missing Map.empty ''/d''
      (Some demo_tree))) = []"
    unfolding eq by simp
  show ?thesis
    by (rule conjI [OF a conjI [OF demo_missing_unopenable conjI [OF b conjI [OF c e]]]])
qed

section \<open>The index after the classification\<close>

lemma mark_row_fields [simp]:
  "row_path (mark_row env r) = row_path r" "row_id (mark_row env r) = row_id r"
  "scan_id (mark_row env r) = scan_id r"
  by (simp_all add: mark_row_def split: sum.splits)

lemma mark_row_idem [simp]: "mark_row env (mark_row env r) = mark_row env r"
  by (simp add: mark_row_def split: sum.splits)

lemma mark_rows_fields [simp]:
  "map row_path (mark_rows env P rows) = map row_path rows"
  "map row_id (mark_rows env P rows) = map row_id rows"
  by (simp_all add: mark_rows_def comp_def)

lemma wf_mark_rows [simp]: "wf_tbl (mark_rows env P rows) = wf_tbl rows"
  by (simp add: wf_tbl_def)

lemma mark_rows_empty [simp]: "mark_rows env {} rows = rows"
  by (simp add: mark_rows_def)

lemma mark_rows_Un: "mark_rows env P (mark_rows env Q rows) = mark_rows env (Q \<union> P) rows"
  by (simp add: mark_rows_def)

lemma find_path_unique:
  assumes "distinct (map row_path rows)" and "find (\<lambda>r. row_path r = p) rows = Some r0"
    and "r \<in> set rows"
  shows "row_path r = p \<longleftrightarrow> r = r0"
proof -
  from assms(2) have r0: "r0 \<in> set rows" "row_path r0 = p"
    by (auto simp: find_Some_iff)
  from assms(1) have "inj_on row_path (set rows)" by (simp add: distinct_map)
  with r0 assms(3) show ?thesis by (auto dest: inj_onD)
qed

lemma storeFileHash_tbl:
  assumes wf: "wf_tbl (files_tbl (st_db s))" and h: "fullDigest env (path f) = Inr h"
  shows "files_tbl (st_db (storeFileHash (f\<lparr>hash := Some h\<rparr>) s)) =
    mark_rows env {path f} (files_tbl (st_db s))"
proof (cases "find (\<lambda>r. row_path r = path f) (files_tbl (st_db s))")
  case None
  then have "\<forall>r\<in>set (files_tbl (st_db s)). row_path r \<noteq> path f"
    by (simp add: find_None_iff)
  then have "mark_rows env {path f} (files_tbl (st_db s)) = files_tbl (st_db s)"
    by (simp add: mark_rows_def map_idI)
  with None show ?thesis
    by (simp add: storeFileHash_def select_id_by_path_def)
next
  case (Some r0)
  let ?rows = "files_tbl (st_db s)"
  from Some have r0: "r0 \<in> set ?rows" by (auto simp: find_Some_iff)
  from wf have dp: "distinct (map row_path ?rows)" and di: "inj_on row_id (set ?rows)"
    and nz: "0 \<notin> row_id ` set ?rows"
    by (simp_all add: wf_tbl_def distinct_map)
  from nz r0 have id0: "row_id r0 \<noteq> 0" by auto
  have "map (\<lambda>r. if row_id r = row_id r0 then r\<lparr>full_hash := Some h, group_id := Some h\<rparr> else r)
      ?rows = mark_rows env {path f} ?rows"
    unfolding mark_rows_def
  proof (rule map_cong [OF refl])
    fix r assume r: "r \<in> set ?rows"
    from di r r0 have "row_id r = row_id r0 \<longleftrightarrow> r = r0" by (auto dest: inj_onD)
    with find_path_unique [OF dp Some r] h
    show "(if row_id r = row_id r0 then r\<lparr>full_hash := Some h, group_id := Some h\<rparr> else r) =
        (if row_path r \<in> {path f} then mark_row env r else r)"
      by (auto simp: mark_row_def)
  qed
  with Some id0 show ?thesis
    by (simp add: storeFileHash_def select_id_by_path_def updateFileHash_def)
qed

lemma hashGroupFiles_tbl:
  assumes "wf_tbl (files_tbl (st_db s))" and "\<forall>f\<in>set fs. \<not> isl (fullDigest env (path f))"
  shows "files_tbl (st_db (snd (hashGroupFiles env fs s))) =
    mark_rows env (path ` set fs) (files_tbl (st_db s))"
  using assms
proof (induction fs arbitrary: s)
  case Nil
  show ?case by simp
next
  case (Cons f fs)
  then obtain h where h: "fullDigest env (path f) = Inr h"
    by (cases "fullDigest env (path f)") auto
  let ?s1 = "log_events [FullRead (path f)] s"
  let ?s = "storeFileHash (f\<lparr>hash := Some h\<rparr>) ?s1"
  from Cons.prems(1) have wf1: "wf_tbl (files_tbl (st_db ?s1))" by (simp add: log_events_def)
  from storeFileHash_tbl [OF wf1 h]
  have t: "files_tbl (st_db ?s) = mark_rows env {path f} (files_tbl (st_db s))"
    by (simp add: log_events_def)
  with Cons.prems(1) have wf: "wf_tbl (files_tbl (st_db ?s))" by simp
  from Cons.prems(2) have rest: "\<forall>f\<in>set fs. \<not> isl (fullDigest env (path f))" by simp
  have "snd (hashGroupFiles env (f # fs) s) = snd (hashGroupFiles env fs ?s)"
    using h by (simp add: Let_def split: prod.splits sum.splits)
  with Cons.IH [OF wf rest] t show ?case by (simp add: mark_rows_Un)
qed

lemma processQuick_tbl:
  assumes "wf_tbl (files_tbl (st_db s))"
    and "\<forall>f\<in>set (concat (filter (\<lambda>q. 1 < length q) qgs)). \<not> isl (fullDigest env (path f))"
  shows "files_tbl (st_db (snd (processQuickHashGroups env sid n qgs acc s))) =
    mark_rows env (path ` set (concat (filter (\<lambda>q. 1 < length q) qgs))) (files_tbl (st_db s))"
  using assms
proof (induction qgs arbitrary: acc s)
  case Nil
  show ?case by simp
next
  case (Cons q qgs)
  from Cons.prems(2)
  have rest: "\<forall>f\<in>set (concat (filter (\<lambda>q. 1 < length q) qgs)). \<not> isl (fullDigest env (path f))"
    by (auto split: if_splits)
  show ?case
  proof (cases "1 < length q")
    case False
    with Cons.IH [OF Cons.prems(1) rest, of acc] show ?thesis by simp
  next
    case True
    with Cons.prems(2) have here: "\<forall>f\<in>set q. \<not> isl (fullDigest env (path f))" by auto
    obtain r s' where h: "hashGroupFiles env q s = (r, s')"
      by (cases "hashGroupFiles env q s")
    from hashGroupFiles_ok [OF here, of s] h have r: "r = Inr (map (set_hash env) q)" by simp
    from hashGroupFiles_tbl [OF Cons.prems(1) here] h
    have t: "files_tbl (st_db s') = mark_rows env (path ` set q) (files_tbl (st_db s))" by simp
    let ?acc = "pushDuplicates (map (set_hash env) q) acc"
    let ?s = "reportHashing sid n (snd ?acc) s'"
    from t Cons.prems(1) reportHashing_frame [of sid n "snd ?acc" s']
    have wf: "wf_tbl (files_tbl (st_db ?s))"
      and t': "files_tbl (st_db ?s) = mark_rows env (path ` set q) (files_tbl (st_db s))"
      by simp_all
    have "snd (processQuickHashGroups env sid n (q # qgs) acc s) =
        snd (processQuickHashGroups env sid n qgs ?acc ?s)"
      using True h r by (simp add: Let_def)
    with Cons.IH [OF wf rest, of ?acc] t' True show ?thesis
      by (simp add: mark_rows_Un image_Un)
  qed
qed

lemma processSize_tbl:
  assumes "wf_tbl (files_tbl (st_db s))"
    and "\<forall>f\<in>set (concat (concat (map (\<lambda>g. filter (\<lambda>q. 1 < length q)
        (map snd (group_by quickHash g []))) sgs))). \<not> isl (fullDigest env (path f))"
  shows "files_tbl (st_db (snd (processSizeGroups env sid n sgs acc s))) =
    mark_rows env (path ` set (concat (concat (map (\<lambda>g. filter (\<lambda>q. 1 < length q)
        (map snd (group_by quickHash g []))) sgs)))) (files_tbl (st_db s))"
  using assms
proof (induction sgs arbitrary: acc s)
  case Nil
  show ?case by simp
next
  case (Cons g sgs)
  let ?qs = "map snd (group_by quickHash g [])"
  from Cons.prems(2)
  have here: "\<forall>f\<in>set (concat (filter (\<lambda>q. 1 < length q) ?qs)). \<not> isl (fullDigest env (path f))"
    and rest: "\<forall>f\<in>set (concat (concat (map (\<lambda>g. filter (\<lambda>q. 1 < length q)
        (map snd (group_by quickHash g []))) sgs))). \<not> isl (fullDigest env (path f))"
    by auto
  obtain r s' where h: "processQuickHashGroups env sid n ?qs acc s = (r, s')"
    by (cases "processQuickHashGroups env sid n ?qs acc s")
  from processQuick_ok [OF here, of sid n acc s] h obtain acc' where r: "r = Inr acc'" by simp
  from processQuick_tbl [OF Cons.prems(1) here, of sid n acc] h
  have t: "files_tbl (st_db s') =
      mark_rows env (path ` set (concat (filter (\<lambda>q. 1 < length q) ?qs))) (files_tbl (st_db s))"
    by simp
  with Cons.prems(1) have wf: "wf_tbl (files_tbl (st_db s'))" by simp
  have "snd (processSizeGroups env sid n (g # sgs) acc s) =
      snd (processSizeGroups env sid n sgs acc' s')"
    using h r by (simp add: Let_def)
  with Cons.IH [OF wf rest, of acc'] t show ?case
    by (simp add: mark_rows_Un image_Un)
qed

lemma classify_tbl:
  assumes "wf_tbl (files_tbl (st_db s))"
    and "\<forall>f\<in>set (concat (candidates files)). \<not> isl (fullDigest env (path f))"
  shows "files_tbl (st_db (snd (classify env sid files s))) =
    mark_rows env (path ` set (concat (candidates files))) (files_tbl (st_db s))"
  unfolding snd_classify
  using processSize_tbl [OF assms(1), of "potentialDuplicates files" env sid "length files" "([], 0)"]
    assms(2)
  by (simp add: candidates_def)

lemma fold_max_ge_start: "m \<le> fold max ids (m::nat)"
proof (induction ids arbitrary: m)
  case Nil
  show ?case by simp
next
  case (Cons i ids)
  have "m \<le> max i m" by simp
  also have "max i m \<le> fold max ids (max i m)" by (rule Cons.IH)
  finally show ?case by simp
qed

lemma fold_max_ge_member: "x \<in> set ids \<Longrightarrow> x \<le> fold max ids (m::nat)"
proof (induction ids arbitrary: m)
  case Nil
  then show ?case by simp
next
  case (Cons i ids)
  show ?case
  proof (cases "x = i")
    case True
    have "i \<le> max i m" by simp
    also have "max i m \<le> fold max ids (max i m)" by (rule fold_max_ge_start)
    finally show ?thesis using True by simp
  next
    case False
    with Cons.prems have "x \<in> set ids" by simp
    from Cons.IH [OF this] show ?thesis by simp
  qed
qed

lemma next_rowid_fresh: "next_rowid ids \<notin> set ids" "next_rowid ids \<noteq> 0"
proof -
  show "next_rowid ids \<notin> set ids"
  proof
    assume "next_rowid ids \<in> set ids"
    from fold_max_ge_member [OF this, of 0] show False by (simp add: next_rowid_def)
  qed
  show "next_rowid ids \<noteq> 0" by (simp add: next_rowid_def)
qed

lemma append_rows_ids:
  assumes "distinct (map row_id t)" and "0 \<notin> set (map row_id t)"
  shows "distinct (map row_id (append_rows sid fs t)) \<and> 0 \<notin> set (map row_id (append_rows sid fs t))"
  using assms
proof (induction fs arbitrary: t)
  case Nil
  then show ?case by simp
next
  case (Cons f fs)
  let ?t = "t @ [file_row_of (next_rowid (map row_id t)) sid f]"
  have "distinct (map row_id ?t)" "0 \<notin> set (map row_id ?t)"
    using Cons.prems next_rowid_fresh [of "map row_id t"]
    by (auto simp: file_row_of_def)
  from Cons.IH [OF this] show ?case by simp
qed

lemma append_rows_new:
  "\<exists>new. append_rows sid fs t = t @ new \<and> map row_path new = map path fs
     \<and> (\<forall>r\<in>set new. scan_id r = sid \<and> group_id r = None)"
proof (induction fs arbitrary: t)
  case Nil
  show ?case by simp
next
  case (Cons f fs)
  let ?r = "file_row_of (next_rowid (map row_id t)) sid f"
  from Cons [of "t @ [?r]"]
  obtain new where "append_rows sid fs (t @ [?r]) = (t @ [?r]) @ new"
    and "map row_path new = map path fs"
    and "\<forall>r\<in>set new. scan_id r = sid \<and> group_id r = None" by blast
  then show ?case
    by (intro exI [of _ "?r # new"]) (simp add: file_row_of_def)
qed

text \<open>The table of files a returning run leaves in an index that had no file rows.\<close>

lemma findDuplicates_fresh_tbl:
  assumes fresh: "files_tbl (open_database d (choose_dbPath env opts)) = []"
    and dist: "distinct (map path (scanned_files env opts dir ents))"
    and ok: "\<forall>f\<in>set (concat (candidates (scanned_files env opts dir ents))).
      \<not> isl (fullDigest env (path f))"
  obtains rows0 where
    "files_tbl (index_after (scanWithIndex env opts d dir (Some ents)) (choose_dbPath env opts)) =
       mark_rows env (path ` set (concat (candidates (scanned_files env opts dir ents)))) rows0"
    and "map row_path rows0 = map path (scanned_files env opts dir ents)"
    and "\<forall>r\<in>set rows0. scan_id r = new_scan_id env opts d \<and> group_id r = None"
proof -
  let ?p = "choose_dbPath env opts"
  let ?db = "open_database d ?p"
  let ?fs = "scanned_files env opts dir ents"
  obtain sid db1 where st: "startScan (path_resolve env dir) (date_now env 0) ?db = (sid, db1)"
    by (cases "startScan (path_resolve env dir) (date_now env 0) ?db")
  from startScan_effect [OF st] fresh
  have sid: "sid = new_scan_id env opts d" and f1: "files_tbl db1 = []"
    by (simp_all add: new_scan_id_def)
  let ?s0 = "\<lparr>st_db = db1, st_trace = []\<rparr>"
  obtain r s1 where sc: "scanDirectory env (recursive opts) (exclude opts) sid dir (Some ents) ?s0
      = (r, s1)"
    by (cases "scanDirectory env (recursive opts) (exclude opts) sid dir (Some ents) ?s0")
  from walk_db(1) [of env "recursive opts" "exclude opts" sid dir "Some ents" ?s0] sc f1
  have t1: "files_tbl (st_db s1) = append_rows sid ?fs []"
    by (simp add: scanned_files_def)
  from append_rows_new [of sid ?fs "[]"] obtain rows0
    where r0: "append_rows sid ?fs [] = rows0" and p0: "map row_path rows0 = map path ?fs"
      and g0: "\<forall>r\<in>set rows0. scan_id r = sid \<and> group_id r = None"
    by auto
  from append_rows_ids [of "[]" sid ?fs] r0
  have "distinct (map row_id rows0)" "0 \<notin> set (map row_id rows0)" by simp_all
  with p0 dist have wf: "wf_tbl (files_tbl (st_db s1))"
    by (simp add: wf_tbl_def t1 r0)
  from walk_files(1) [of env "recursive opts" "exclude opts" sid dir "Some ents" ?s0] sc
  have rr: "r = Inr ?fs" by (simp add: scanned_files_def)
  obtain c s2 where cl: "classify env sid ?fs s1 = (c, s2)"
    by (cases "classify env sid ?fs s1")
  from classify_ok [OF ok, of sid s1] cl obtain result where c: "c = Inr result" by simp
  from classify_tbl [OF wf ok, of sid] cl t1 r0
  have t2: "files_tbl (st_db s2) = mark_rows env (path ` set (concat (candidates ?fs))) rows0"
    by simp
  let ?db3 = "completeScan sid (date_now env 1) (st_db s2)"
  have "fst (snd (scanWithIndex env opts d dir (Some ents))) = d(?p \<mapsto> ?db3)"
    unfolding scanWithIndex_def Let_def st prod.case sc rr using cl c by simp
  then have "index_after (scanWithIndex env opts d dir (Some ents)) ?p = ?db3"
    by (simp add: index_after_def open_database_def)
  with t2 completeScan_frame [of sid "date_now env 1" "st_db s2"]
  have "files_tbl (index_after (scanWithIndex env opts d dir (Some ents)) ?p) =
      mark_rows env (path ` set (concat (candidates ?fs))) rows0"
    by simp
  with p0 g0 sid show thesis by (intro that [of rows0]) simp_all
qed

lemma marked_group_paths:
  assumes "\<forall>r\<in>set rows. scan_id r = sid \<and> group_id r = None"
  shows "map row_path (filter (\<lambda>r. scan_id r = sid \<and> group_id r = Some g)
      (mark_rows env P rows)) =
    filter (\<lambda>p. p \<in> P \<and> fullDigest env p = Inr g) (map row_path rows)"
  using assms
proof (induction rows)
  case Nil
  show ?case by (simp add: mark_rows_def)
next
  case (Cons r rows)
  then have IH: "map row_path (filter (\<lambda>r. scan_id r = sid \<and> group_id r = Some g)
      (mark_rows env P rows)) =
    filter (\<lambda>p. p \<in> P \<and> fullDigest env p = Inr g) (map row_path rows)"
    and r: "scan_id r = sid" "group_id r = None"
    by simp_all
  show ?case
  proof (cases "row_path r \<in> P")
    case False
    with r IH show ?thesis by (simp add: mark_rows_def)
  next
    case True
    show ?thesis
    proof (cases "fullDigest env (row_path r)")
      case (Inl e)
      with True r IH show ?thesis by (simp add: mark_rows_def mark_row_def)
    next
      case (Inr h)
      with True r IH show ?thesis by (simp add: mark_rows_def mark_row_def)
    qed
  qed
qed

lemma mset_concat_filter_sub: "mset (concat (filter Q xss)) \<subseteq># mset (concat xss)"
  by (induction xss) (simp_all add: subset_mset.add_increasing)

lemma filter_mset_disjoint_add:
  "(\<And>x. \<not> (P x \<and> Q x)) \<Longrightarrow>
   filter_mset P M + filter_mset Q M = filter_mset (\<lambda>x. P x \<or> Q x) M"
  by (rule multiset_eqI) auto

lemma mset_concat_groups:
  "distinct K \<Longrightarrow>
   mset (concat (map (\<lambda>k. filter (\<lambda>x. key x = k) xs) K)) = mset (filter (\<lambda>x. key x \<in> set K) xs)"
proof (induction K)
  case Nil
  show ?case by simp
next
  case (Cons k K)
  then have IH: "mset (concat (map (\<lambda>k. filter (\<lambda>x. key x = k) xs) K)) =
      mset (filter (\<lambda>x. key x \<in> set K) xs)" and nk: "k \<notin> set K"
    by simp_all
  have "mset (concat (map (\<lambda>k. filter (\<lambda>x. key x = k) xs) (k # K))) =
      filter_mset (\<lambda>x. key x = k) (mset xs) + filter_mset (\<lambda>x. key x \<in> set K) (mset xs)"
    using IH by simp
  also have "\<dots> = filter_mset (\<lambda>x. key x = k \<or> key x \<in> set K) (mset xs)"
    by (rule filter_mset_disjoint_add) (use nk in auto)
  also have "\<dots> = mset (filter (\<lambda>x. key x \<in> set (k # K)) xs)"
    by simp
  finally show ?case .
qed

lemma mset_funnel_sub:
  "mset (concat (filter (\<lambda>q. 1 < length q) (map snd (group_by key xs [])))) \<subseteq># mset xs"
proof -
  let ?K = "first_keys (map key xs)"
  have all: "filter (\<lambda>x. key x \<in> set ?K) xs = xs"
    by (rule filter_True) simp
  have "mset (concat (map (\<lambda>k. filter (\<lambda>x. key x = k) xs) ?K)) =
      mset (filter (\<lambda>x. key x \<in> set ?K) xs)"
    by (rule mset_concat_groups) simp
  then have "mset (concat (map snd (group_by key xs []))) = mset xs"
    unfolding groups_closed all .
  with mset_concat_filter_sub [of "\<lambda>q. 1 < length q" "map snd (group_by key xs [])"]
  show ?thesis by simp
qed

lemma mset_candidates_sub: "mset (concat (candidates files)) \<subseteq># mset files"
proof -
  have gen: "mset (concat (concat (map F Gs))) \<subseteq># mset (concat Gs)"
    if "\<And>G. mset (concat (F G)) \<subseteq># mset G"
    for F :: "fileinfo list \<Rightarrow> fileinfo list list" and Gs
    using that by (induction Gs) (simp_all add: subset_mset.add_mono)
  have "mset (concat (candidates files)) \<subseteq># mset (concat (potentialDuplicates files))"
    unfolding candidates_def by (rule gen) (rule mset_funnel_sub)
  also have "\<dots> \<subseteq># mset files"
    unfolding potentialDuplicates_def sizeGroups_def by (rule mset_funnel_sub)
  finally show ?thesis .
qed

lemma distinct_sub:
  assumes "mset xs \<subseteq># mset ys" and "distinct ys"
  shows "distinct xs"
  unfolding distinct_count_atmost_1
proof
  fix a
  from assms(2) have "count (mset ys) a = (if a \<in> set ys then 1 else 0)"
    unfolding distinct_count_atmost_1 by blast
  then have "count (mset ys) a \<le> 1" by simp
  with mset_subset_eq_count [OF assms(1), of a] have le: "count (mset xs) a \<le> 1" by simp
  show "count (mset xs) a = (if a \<in> set xs then 1 else 0)"
  proof (cases "a \<in> set xs")
    case True
    then have pos: "0 < count (mset xs) a" by simp
    from le pos have "count (mset xs) a = 1" by linarith
    with True show ?thesis by simp
  next
    case False
    then show ?thesis by (simp add: count_mset_0_iff)
  qed
qed

lemma candidates_distinct_paths:
  assumes "distinct (map path files)"
  shows "distinct (map path (concat (candidates files)))"
proof -
  have "mset (map path (concat (candidates files))) \<subseteq># mset (map path files)"
    using mset_candidates_sub [of files] by (simp add: image_mset_subseteq_mono)
  then show ?thesis using assms by (rule distinct_sub)
qed

lemma hashed_group_paths:
  assumes "\<forall>f\<in>set H. \<not> isl (fullDigest env (path f))"
  shows "map path (filter (\<lambda>f. hash f = Some g) (map (set_hash env) H)) =
    filter (\<lambda>p. fullDigest env p = Inr g) (map path H)"
  using assms
proof (induction H)
  case Nil
  show ?case by simp
next
  case (Cons f H)
  then have IH: "map path (filter (\<lambda>f. hash f = Some g) (map (set_hash env) H)) =
      filter (\<lambda>p. fullDigest env p = Inr g) (map path H)"
    and "\<not> isl (fullDigest env (path f))" by simp_all
  from set_hash_ok [OF this(2)] obtain h where h: "fullDigest env (path f) = Inr h"
    and s: "set_hash env f = f\<lparr>hash := Some h\<rparr>" by blast
  then have "hash (set_hash env f) = Some g \<longleftrightarrow> fullDigest env (path f) = Inr g" by auto
  with IH show ?case by simp
qed

text \<open>
  For a returning run into an index without file rows, of a walk with distinct paths:
  the paths of the rows of a group id in the index and the paths of the members of that
  hash in memory are lists without repetition of the same paths.
\<close>

lemma index_memory_paths:
  assumes fresh: "files_tbl (open_database d (choose_dbPath env opts)) = []"
    and dist: "distinct (map path (scanned_files env opts dir ents))"
    and ok: "\<forall>f\<in>set (concat (candidates (scanned_files env opts dir ents))).
      \<not> isl (fullDigest env (path f))"
  shows "set (map row_path (group_rows (new_scan_id env opts d) g
        (index_after (scanWithIndex env opts d dir (Some ents)) (choose_dbPath env opts)))) =
      set (map path (filter (\<lambda>f. hash f = Some g)
        (map (set_hash env) (concat (candidates (scanned_files env opts dir ents))))))"
    and "length (group_rows (new_scan_id env opts d) g
        (index_after (scanWithIndex env opts d dir (Some ents)) (choose_dbPath env opts))) =
      length (filter (\<lambda>f. hash f = Some g)
        (map (set_hash env) (concat (candidates (scanned_files env opts dir ents)))))"
proof -
  let ?fs = "scanned_files env opts dir ents"
  let ?H = "concat (candidates ?fs)"
  let ?P = "path ` set ?H"
  let ?db = "index_after (scanWithIndex env opts d dir (Some ents)) (choose_dbPath env opts)"
  let ?D = "map row_path (group_rows (new_scan_id env opts d) g ?db)"
  let ?M = "map path (filter (\<lambda>f. hash f = Some g) (map (set_hash env) ?H))"
  obtain rows0 where t: "files_tbl ?db = mark_rows env ?P rows0"
    and p0: "map row_path rows0 = map path ?fs"
    and g0: "\<forall>r\<in>set rows0. scan_id r = new_scan_id env opts d \<and> group_id r = None"
    using findDuplicates_fresh_tbl [OF fresh dist ok] by blast
  have D: "?D = filter (\<lambda>p. p \<in> ?P \<and> fullDigest env p = Inr g) (map path ?fs)"
    unfolding group_rows_def t marked_group_paths [OF g0] p0 ..
  have M: "?M = filter (\<lambda>p. fullDigest env p = Inr g) (map path ?H)"
    by (rule hashed_group_paths [OF ok])
  have sub: "?P \<subseteq> path ` set ?fs"
    using candidate_bucket(1) [of _ ?fs] by blast
  have sets: "set ?D = set ?M"
    unfolding D M using sub by auto
  have dD: "distinct ?D" unfolding D using dist by (rule distinct_filter)
  have dM: "distinct ?M" unfolding M
    using candidates_distinct_paths [OF dist] by (rule distinct_filter)
  from sets show "set ?D = set ?M" .
  from sets dD dM have "length ?D = length ?M"
    by (metis distinct_card)
  then show "length (group_rows (new_scan_id env opts d) g ?db) =
      length (filter (\<lambda>f. hash f = Some g) (map (set_hash env) ?H))"
    by simp
qed

lemma set_json_paths: "set (map json_path (map json_object rs)) = set (map row_path rs)"
  by (simp add: comp_def)

lemma index_matches_memory:
  assumes fresh: "files_tbl (open_database d (choose_dbPath env opts)) = []"
    and dist: "distinct (map path (scanned_files env opts dir ents))"
    and fd: "fst (scanWithIndex env opts d dir (Some ents)) = Inr (result, dbPath, scanId)"
  shows "\<forall>g js. (g, js) \<in> set (getDuplicateGroups scanId
        (index_after (scanWithIndex env opts d dir (Some ents)) dbPath)) \<longrightarrow>
      2 \<le> length js \<and>
      (\<exists>grp\<in>set result. (\<forall>f\<in>set grp. hash f = Some g) \<and>
         set (map path grp) = set (map json_path js) \<and> length grp = length js)"
    and "\<forall>grp\<in>set result. \<exists>g js. (g, js) \<in> set (getDuplicateGroups scanId
        (index_after (scanWithIndex env opts d dir (Some ents)) dbPath)) \<and>
      (\<forall>f\<in>set grp. hash f = Some g) \<and>
      set (map path grp) = set (map json_path js) \<and> length grp = length js"
proof -
  let ?fs = "scanned_files env opts dir ents"
  let ?X = "map (set_hash env) (concat (candidates ?fs))"
  from findDuplicates_Inr_ids [OF fd]
  have ids: "dbPath = choose_dbPath env opts" "scanId = new_scan_id env opts d" by simp_all
  let ?db = "index_after (scanWithIndex env opts d dir (Some ents)) (choose_dbPath env opts)"
  let ?sid = "new_scan_id env opts d"
  from fd obtain es i t where "Some ents = Some es"
    and "fst (classify env i (scanned_files env opts dir es) t) = Inr result"
    by (rule findDuplicates_Inr_classify)
  then have c: "fst (classify env i ?fs t) = Inr result" by simp
  from classify_Inr [OF c] have ok: "\<forall>f\<in>set (concat (candidates ?fs)).
      \<not> isl (fullDigest env (path f))" and r: "result = sort_groups (discovery env ?fs)"
    by blast+
  have res: "set result = set (discovery env ?fs)" by (simp add: r sort_groups_def)
  note P = index_memory_paths [OF fresh dist ok]
  have mem: "filter (\<lambda>f. hash f = Some g) ?X \<in> set (discovery env ?fs)"
    if "1 < length (filter (\<lambda>f. hash f = Some g) ?X)" for g
  proof -
    from that obtain f where "f \<in> set (filter (\<lambda>f. hash f = Some g) ?X)"
      by (cases "filter (\<lambda>f. hash f = Some g) ?X") auto
    then have "Some g \<in> set (map hash ?X)" by force
    then have "Some g \<in> set (first_keys (map hash ?X))" by (simp add: first_keys_def)
    then have "(\<lambda>k. filter (\<lambda>f. hash f = k) ?X) (Some g) \<in>
        (\<lambda>k. filter (\<lambda>f. hash f = k) ?X) ` set (first_keys (map hash ?X))"
      by (rule imageI)
    then have "filter (\<lambda>f. hash f = Some g) ?X \<in> set (map snd (group_by hash ?X []))"
      unfolding groups_closed set_map .
    with that show ?thesis by (simp add: discovery_def discovered_groups_def)
  qed
  show "\<forall>g js. (g, js) \<in> set (getDuplicateGroups scanId
        (index_after (scanWithIndex env opts d dir (Some ents)) dbPath)) \<longrightarrow>
      2 \<le> length js \<and>
      (\<exists>grp\<in>set result. (\<forall>f\<in>set grp. hash f = Some g) \<and>
         set (map path grp) = set (map json_path js) \<and> length grp = length js)"
    unfolding ids
  proof (intro allI impI)
    fix g js assume "(g, js) \<in> set (getDuplicateGroups ?sid ?db)"
    then have js: "js = map json_object (group_rows ?sid g ?db)"
      and len: "1 < length (group_rows ?sid g ?db)"
      by (simp_all add: getDuplicateGroups_iff)
    let ?grp = "filter (\<lambda>f. hash f = Some g) ?X"
    from len P(2) [of g] have l: "1 < length ?grp" by simp
    from mem [OF l] res have "?grp \<in> set result" by simp
    moreover have "\<forall>f\<in>set ?grp. hash f = Some g" by simp
    moreover have "set (map path ?grp) = set (map json_path js)"
      unfolding js set_json_paths using P(1) [of g] by simp
    moreover have "length ?grp = length js" using P(2) [of g] by (simp add: js)
    moreover from len js have "2 \<le> length js" by simp
    ultimately show "2 \<le> length js \<and>
      (\<exists>grp\<in>set result. (\<forall>f\<in>set grp. hash f = Some g) \<and>
         set (map path grp) = set (map json_path js) \<and> length grp = length js)"
      by blast
  qed
  show "\<forall>grp\<in>set result. \<exists>g js. (g, js) \<in> set (getDuplicateGroups scanId
        (index_after (scanWithIndex env opts d dir (Some ents)) dbPath)) \<and>
      (\<forall>f\<in>set grp. hash f = Some g) \<and>
      set (map path grp) = set (map json_path js) \<and> length grp = length js"
    unfolding ids
  proof
    fix grp assume "grp \<in> set result"
    with res have gd: "grp \<in> set (discovery env ?fs)" by simp
    from discovery_group(1) [OF ok gd] have len: "1 < length grp" by simp
    from discovery_group(2) [OF ok gd] obtain k where k: "grp = filter (\<lambda>f. hash f = k) ?X"
      by blast
    from discovery_group(3) [OF ok gd] obtain h
      where h: "\<forall>f\<in>set grp. hash f = Some h \<and> fullDigest env (path f) = Inr h" by blast
    from len obtain f where f: "f \<in> set grp" by (cases grp) auto
    with k h have "k = Some h" by auto
    with k have grp: "grp = filter (\<lambda>f. hash f = Some h) ?X" by simp
    let ?js = "map json_object (group_rows ?sid h ?db)"
    from len grp P(2) [of h] have "1 < length (group_rows ?sid h ?db)" by simp
    then have "(h, ?js) \<in> set (getDuplicateGroups ?sid ?db)"
      by (simp add: getDuplicateGroups_iff)
    moreover from h have "\<forall>f\<in>set grp. hash f = Some h" by blast
    moreover have "set (map path grp) = set (map json_path ?js)"
      unfolding set_json_paths using P(1) [of h] grp by simp
    moreover have "length grp = length ?js" using P(2) [of h] grp by simp
    ultimately show "\<exists>g js. (g, js) \<in> set (getDuplicateGroups ?sid ?db) \<and>
      (\<forall>f\<in>set grp. hash f = Some g) \<and>
      set (map path grp) = set (map json_path js) \<and> length grp = length js"
      by blast
  qed
qed

text \<open>The order of the entries of getDuplicateGroups, for any index.\<close>

lemma entry_size_json: "entry_size (g, map json_object rs) = bare_size rs"
  by (cases rs) (simp_all add: entry_size_def bare_size_def json_object_def)

lemma getDuplicateGroups_order:
  "sorted_wrt (\<lambda>a b. entry_size b \<le> entry_size a) (getDuplicateGroups scanId db)"
  "distinct (map fst (getDuplicateGroups scanId db))"
  "sorted (rev (map fst (filter (\<lambda>e. entry_size e = k) (getDuplicateGroups scanId db))))"
proof -
  let ?key = "\<lambda>(g, rs). - int (bare_size rs)"
  let ?zs = "filter (\<lambda>(g, rs). 1 < length rs) (group_by_group_id (scan_group_rows scanId db))"
  let ?J = "\<lambda>(g, rs). (g, map json_object rs)"
  have gd: "getDuplicateGroups scanId db = map ?J (sort_key ?key (rev ?zs))"
    by (simp add: getDuplicateGroups_def)
  have es: "entry_size (?J e) = bare_size (snd e)" for e
    by (cases e) (simp add: entry_size_json)
  have keye: "?key e = - int (bare_size (snd e))" for e by (cases e) simp
  have fstJ: "fst (?J e) = fst e" for e by (cases e) simp
  have "sorted (map ?key (sort_key ?key (rev ?zs)))" by (rule sorted_sort_key)
  then have "sorted_wrt (\<lambda>a b. bare_size (snd b) \<le> bare_size (snd a)) (sort_key ?key (rev ?zs))"
    by (simp add: sorted_map keye)
  then show "sorted_wrt (\<lambda>a b. entry_size b \<le> entry_size a) (getDuplicateGroups scanId db)"
    unfolding gd by (simp add: sorted_wrt_map es)
  have fsts: "map fst (group_by_group_id rows) = sort (remdups (List.map_filter group_id rows))"
    for rows
    by (simp add: group_by_group_id_def comp_def)
  have dz: "distinct (map fst ?zs)"
    by (rule distinct_map_filter) (simp add: fsts)
  have "mset (map fst (sort_key ?key (rev ?zs))) = mset (map fst ?zs)" by simp
  with dz have "distinct (map fst (sort_key ?key (rev ?zs)))"
    by (metis mset_eq_imp_distinct_iff)
  then show "distinct (map fst (getDuplicateGroups scanId db))"
    unfolding gd by (simp add: comp_def fstJ)
  have sz: "sorted (map fst ?zs)"
    by (rule sorted_filter) (simp add: fsts)
  have "filter (\<lambda>e. entry_size e = k) (getDuplicateGroups scanId db) =
      map ?J (filter (\<lambda>e. ?key e = - int k) (sort_key ?key (rev ?zs)))"
    unfolding gd filter_map by (simp add: comp_def es keye)
  also have "filter (\<lambda>e. ?key e = - int k) (sort_key ?key (rev ?zs)) =
      filter (\<lambda>e. ?key e = - int k) (rev ?zs)"
    by (rule sort_key_stable)
  finally have "rev (map fst (filter (\<lambda>e. entry_size e = k) (getDuplicateGroups scanId db))) =
      map fst (filter (\<lambda>e. ?key e = - int k) ?zs)"
    by (simp add: comp_def fstJ rev_map rev_filter)
  with sorted_filter [OF sz, of "\<lambda>e. ?key e = - int k"]
  show "sorted (rev (map fst (filter (\<lambda>e. entry_size e = k) (getDuplicateGroups scanId db))))"
    by simp
qed

lemma findDuplicates_fresh_rows:
  assumes fresh: "files_tbl (open_database d (choose_dbPath env opts)) = []"
    and dist: "distinct (map path (scanned_files env opts dir ents))"
    and ok: "\<forall>f\<in>set (concat (candidates (scanned_files env opts dir ents))).
      \<not> isl (fullDigest env (path f))"
  shows "files_tbl (index_after (scanWithIndex env opts d dir (Some ents)) (choose_dbPath env opts)) =
       mark_rows env (path ` set (concat (candidates (scanned_files env opts dir ents))))
         (append_rows (new_scan_id env opts d) (scanned_files env opts dir ents) [])"
proof -
  let ?p = "choose_dbPath env opts"
  let ?db = "open_database d ?p"
  let ?fs = "scanned_files env opts dir ents"
  obtain sid db1 where st: "startScan (path_resolve env dir) (date_now env 0) ?db = (sid, db1)"
    by (cases "startScan (path_resolve env dir) (date_now env 0) ?db")
  from startScan_effect [OF st] fresh
  have sid: "sid = new_scan_id env opts d" and f1: "files_tbl db1 = []"
    by (simp_all add: new_scan_id_def)
  let ?s0 = "\<lparr>st_db = db1, st_trace = []\<rparr>"
  obtain r s1 where sc: "scanDirectory env (recursive opts) (exclude opts) sid dir (Some ents) ?s0
      = (r, s1)"
    by (cases "scanDirectory env (recursive opts) (exclude opts) sid dir (Some ents) ?s0")
  from walk_db(1) [of env "recursive opts" "exclude opts" sid dir "Some ents" ?s0] sc f1
  have t1: "files_tbl (st_db s1) = append_rows sid ?fs []"
    by (simp add: scanned_files_def)
  from append_rows_new [of sid ?fs "[]"]
  have p0: "map row_path (append_rows sid ?fs []) = map path ?fs" by auto
  from append_rows_ids [of "[]" sid ?fs]
  have "distinct (map row_id (append_rows sid ?fs []))"
    "0 \<notin> set (map row_id (append_rows sid ?fs []))" by simp_all
  with p0 dist have wf: "wf_tbl (files_tbl (st_db s1))"
    by (simp add: wf_tbl_def t1)
  from walk_files(1) [of env "recursive opts" "exclude opts" sid dir "Some ents" ?s0] sc
  have rr: "r = Inr ?fs" by (simp add: scanned_files_def)
  obtain c s2 where cl: "classify env sid ?fs s1 = (c, s2)"
    by (cases "classify env sid ?fs s1")
  from classify_ok [OF ok, of sid s1] cl obtain result where c: "c = Inr result" by simp
  from classify_tbl [OF wf ok, of sid] cl t1
  have t2: "files_tbl (st_db s2) =
      mark_rows env (path ` set (concat (candidates ?fs))) (append_rows sid ?fs [])"
    by simp
  let ?db3 = "completeScan sid (date_now env 1) (st_db s2)"
  have "fst (snd (scanWithIndex env opts d dir (Some ents))) = d(?p \<mapsto> ?db3)"
    unfolding scanWithIndex_def Let_def st prod.case sc rr using cl c by simp
  then have "index_after (scanWithIndex env opts d dir (Some ents)) ?p = ?db3"
    by (simp add: index_after_def open_database_def)
  with t2 completeScan_frame [of sid "date_now env 1" "st_db s2"] sid
  show ?thesis by simp
qed

lemma demo_g:
  "quickDigest demo_env ''/d/g.txt'' = Inr ''776f726c64''"
  "fullDigest demo_env ''/d/g.txt'' = Inr ''776f726c64''"
  "path_join demo_env ''/d'' ''g.txt'' = ''/d/g.txt''"
  "fs_stat p (fs_file demo_env ''/d/g.txt'') = Inr (5, 0, 0)"
  by (simp_all add: quickDigest_def fullDigest_def demo_env_def demo_fs_def calculateQuickHash_ok
      calculateHash_ok fs_stat_def demo_world_def hex_world)

lemma demo_files4:
  "scanned_files demo_env demo_opts ''/d'' demo_tree4
   = [demo_record ''/d/a.txt'' ''a.txt''\<lparr>hash := None\<rparr>,
      demo_record ''/d/b.txt'' ''b.txt''\<lparr>hash := None\<rparr>,
      demo_record3 ''/d/c.txt'' ''c.txt''\<lparr>hash := None\<rparr>,
      demo_record3 ''/d/g.txt'' ''g.txt''\<lparr>hash := None\<rparr>]"
  by (simp add: scanned_files_def demo_tree4_def demo_opts_def demo_join demo_stat demo_format
      demo_quick demo_g excluded_def make_fileInfo_def demo_record_def demo_record3_def)

lemma demo_candidates4:
  "candidates (scanned_files demo_env demo_opts ''/d'' demo_tree4)
   = [[demo_record ''/d/a.txt'' ''a.txt''\<lparr>hash := None\<rparr>,
       demo_record ''/d/b.txt'' ''b.txt''\<lparr>hash := None\<rparr>],
      [demo_record3 ''/d/c.txt'' ''c.txt''\<lparr>hash := None\<rparr>,
       demo_record3 ''/d/g.txt'' ''g.txt''\<lparr>hash := None\<rparr>]]"
  by (simp add: demo_files4 candidates_def potentialDuplicates_def sizeGroups_def group_by_def
      demo_record_def demo_record3_def)

lemma demo_discovery4:
  "discovery demo_env (scanned_files demo_env demo_opts ''/d'' demo_tree4)
   = [[demo_record ''/d/a.txt'' ''a.txt'', demo_record ''/d/b.txt'' ''b.txt''],
      [demo_record3 ''/d/c.txt'' ''c.txt'', demo_record3 ''/d/g.txt'' ''g.txt'']]"
  by (simp add: discovery_def demo_candidates4 set_hash_def demo_record_def demo_record3_def
      demo_full demo_g discovered_groups_def group_by_def)

lemma demo_ok4:
  "\<forall>f\<in>set (concat (candidates (scanned_files demo_env demo_opts ''/d'' demo_tree4))).
      \<not> isl (fullDigest demo_env (path f))"
  by (simp add: demo_candidates4 demo_record_def demo_record3_def demo_full demo_g)

lemma demo_run4:
  "fst (findDuplicates demo_env demo_opts Map.empty ''/d'' (Some demo_tree4)) =
     Inr ([[demo_record ''/d/a.txt'' ''a.txt'', demo_record ''/d/b.txt'' ''b.txt''],
           [demo_record3 ''/d/c.txt'' ''c.txt'', demo_record3 ''/d/g.txt'' ''g.txt'']],
          ''/d/.super-dee-duper.abababab'', 1)"
  unfolding demo_opened
  using findDuplicates_result [OF demo_ok4, of Map.empty]
  by (simp add: demo_discovery4 demo_dbPath demo_scan_id sort_groups_def first_size_def
      demo_record_def demo_record3_def)

lemma demo_fresh: "files_tbl (open_database Map.empty p) = []"
  by (simp add: open_database_def empty_database_def)

lemma demo_rows4:
  "append_rows 1 (scanned_files demo_env demo_opts ''/d'' demo_tree4) [] =
     [file_row_of 1 1 (demo_record ''/d/a.txt'' ''a.txt''\<lparr>hash := None\<rparr>),
      file_row_of 2 1 (demo_record ''/d/b.txt'' ''b.txt''\<lparr>hash := None\<rparr>),
      file_row_of 3 1 (demo_record3 ''/d/c.txt'' ''c.txt''\<lparr>hash := None\<rparr>),
      file_row_of 4 1 (demo_record3 ''/d/g.txt'' ''g.txt''\<lparr>hash := None\<rparr>)]"
  by (simp add: demo_files4 next_rowid_def file_row_of_def)

lemma demo_index4:
  "files_tbl (index_after (findDuplicates demo_env demo_opts Map.empty ''/d'' (Some demo_tree4))
      ''/d/.super-dee-duper.abababab'') =
     [file_row_of 1 1 (demo_record ''/d/a.txt'' ''a.txt''\<lparr>hash := None\<rparr>)
        \<lparr>full_hash := Some ''68656c6c6f'', group_id := Some ''68656c6c6f''\<rparr>,
      file_row_of 2 1 (demo_record ''/d/b.txt'' ''b.txt''\<lparr>hash := None\<rparr>)
        \<lparr>full_hash := Some ''68656c6c6f'', group_id := Some ''68656c6c6f''\<rparr>,
      file_row_of 3 1 (demo_record3 ''/d/c.txt'' ''c.txt''\<lparr>hash := None\<rparr>)
        \<lparr>full_hash := Some ''776f726c64'', group_id := Some ''776f726c64''\<rparr>,
      file_row_of 4 1 (demo_record3 ''/d/g.txt'' ''g.txt''\<lparr>hash := None\<rparr>)
        \<lparr>full_hash := Some ''776f726c64'', group_id := Some ''776f726c64''\<rparr>]"
proof -
  have d: "distinct (map path (scanned_files demo_env demo_opts ''/d'' demo_tree4))"
    by (simp add: demo_files4 demo_record_def demo_record3_def)
  have "files_tbl (index_after (scanWithIndex demo_env demo_opts Map.empty ''/d''
      (Some demo_tree4)) ''/d/.super-dee-duper.abababab'') =
      mark_rows demo_env
        (path ` set (concat (candidates (scanned_files demo_env demo_opts ''/d'' demo_tree4))))
        (append_rows 1 (scanned_files demo_env demo_opts ''/d'' demo_tree4) [])"
    using findDuplicates_fresh_rows [OF demo_fresh d demo_ok4]
    by (simp only: demo_dbPath demo_scan_id)
  also have "\<dots> = [file_row_of 1 1 (demo_record ''/d/a.txt'' ''a.txt''\<lparr>hash := None\<rparr>)
        \<lparr>full_hash := Some ''68656c6c6f'', group_id := Some ''68656c6c6f''\<rparr>,
      file_row_of 2 1 (demo_record ''/d/b.txt'' ''b.txt''\<lparr>hash := None\<rparr>)
        \<lparr>full_hash := Some ''68656c6c6f'', group_id := Some ''68656c6c6f''\<rparr>,
      file_row_of 3 1 (demo_record3 ''/d/c.txt'' ''c.txt''\<lparr>hash := None\<rparr>)
        \<lparr>full_hash := Some ''776f726c64'', group_id := Some ''776f726c64''\<rparr>,
      file_row_of 4 1 (demo_record3 ''/d/g.txt'' ''g.txt''\<lparr>hash := None\<rparr>)
        \<lparr>full_hash := Some ''776f726c64'', group_id := Some ''776f726c64''\<rparr>]"
    unfolding demo_rows4
    by (simp add: demo_candidates4 mark_rows_def
        mark_row_def file_row_of_def demo_record_def demo_record3_def demo_full demo_g)
  finally show ?thesis unfolding demo_opened .
qed

lemma hash_order: "sort [''68656c6c6f'', ''776f726c64''] = [''68656c6c6f'', ''776f726c64'']"
  by (simp add: less_char_def less_eq_char_def)

lemma demo_index_paths4:
  "index_paths 1 (index_after (findDuplicates demo_env demo_opts Map.empty ''/d''
      (Some demo_tree4)) ''/d/.super-dee-duper.abababab'') =
     [[''/d/c.txt'', ''/d/g.txt''], [''/d/a.txt'', ''/d/b.txt'']]"
  by (simp add: index_paths_def getDuplicateGroups_def scan_group_rows_def demo_index4
      group_by_group_id_def List.map_filter_def file_row_of_def hash_order bare_size_def
      json_object_def json_path_def demo_record_def demo_record3_def)

text \<open>
  Claim C4.  \<^verbatim>\<open>getDuplicateGroups(scanId)\<close> against the result in memory.  For a call
  that returns, into an index that held no file rows, of a walk whose paths are distinct:
  every entry the query returns for the scan id of the call has two or more files and is
  one group of the result in memory, with the group id the full hash of the members and
  the same member paths, and every group of the result in memory is one entry of the
  query.  For any index and any scan id: the entries are the group ids of the scan with
  two or more rows, each with all its rows; they come in non-increasing order of size,
  no group id twice, and entries of equal size come in descending order of their group
  id.  The last point is where the two views differ: in memory, groups of equal size keep
  the order of their discovery.
\<close>

theorem C4_index_groups:
  "(files_tbl (open_database d (choose_dbPath env opts)) = [] \<and>
    distinct (map path (scanned_files env opts dir ents)) \<and>
    fst (findDuplicates env opts d dir (Some ents)) = Inr (result, dbPath, scanId) \<longrightarrow>
      (\<forall>g js. (g, js) \<in> set (getDuplicateGroups scanId
          (index_after (findDuplicates env opts d dir (Some ents)) dbPath)) \<longrightarrow>
        2 \<le> length js \<and>
        (\<exists>grp\<in>set result. (\<forall>f\<in>set grp. hash f = Some g) \<and>
           set (map path grp) = set (map json_path js) \<and> length grp = length js)) \<and>
      (\<forall>grp\<in>set result. \<exists>g js. (g, js) \<in> set (getDuplicateGroups scanId
          (index_after (findDuplicates env opts d dir (Some ents)) dbPath)) \<and>
        (\<forall>f\<in>set grp. hash f = Some g) \<and>
        set (map path grp) = set (map json_path js) \<and> length grp = length js))
   \<and> (((h, hs) \<in> set (getDuplicateGroups sid db)) =
        (hs = map json_object (group_rows sid h db) \<and> 2 \<le> length (group_rows sid h db)))
   \<and> sorted_wrt (\<lambda>a b. entry_size b \<le> entry_size a) (getDuplicateGroups sid db)
   \<and> distinct (map fst (getDuplicateGroups sid db))
   \<and> sorted (rev (map fst (filter (\<lambda>e. entry_size e = k) (getDuplicateGroups sid db))))"
proof (intro conjI impI)
  assume a: "files_tbl (open_database d (choose_dbPath env opts)) = [] \<and>
    distinct (map path (scanned_files env opts dir ents)) \<and>
    fst (findDuplicates env opts d dir (Some ents)) = Inr (result, dbPath, scanId)"
  then have fresh: "files_tbl (open_database d (choose_dbPath env opts)) = []"
    and dist: "distinct (map path (scanned_files env opts dir ents))"
    and fd0: "fst (findDuplicates env opts d dir (Some ents)) = Inr (result, dbPath, scanId)"
    by simp_all
  note eq = findDuplicates_opened [OF findDuplicates_Inr_scan(1) [OF fd0]]
  from fd0 have fd: "fst (scanWithIndex env opts d dir (Some ents)) = Inr (result, dbPath, scanId)"
    by (rule findDuplicates_Inr_scan(2))
  show "\<forall>g js. (g, js) \<in> set (getDuplicateGroups scanId
          (index_after (findDuplicates env opts d dir (Some ents)) dbPath)) \<longrightarrow>
        2 \<le> length js \<and>
        (\<exists>grp\<in>set result. (\<forall>f\<in>set grp. hash f = Some g) \<and>
           set (map path grp) = set (map json_path js) \<and> length grp = length js)"
    unfolding eq by (rule index_matches_memory(1) [OF fresh dist fd])
  show "\<forall>grp\<in>set result. \<exists>g js. (g, js) \<in> set (getDuplicateGroups scanId
          (index_after (findDuplicates env opts d dir (Some ents)) dbPath)) \<and>
        (\<forall>f\<in>set grp. hash f = Some g) \<and>
        set (map path grp) = set (map json_path js) \<and> length grp = length js"
    unfolding eq by (rule index_matches_memory(2) [OF fresh dist fd])
next
  have "2 \<le> length (group_rows sid h db) \<longleftrightarrow> 1 < length (group_rows sid h db)" by arith
  then show "((h, hs) \<in> set (getDuplicateGroups sid db)) =
        (hs = map json_object (group_rows sid h db) \<and> 2 \<le> length (group_rows sid h db))"
    by (simp add: getDuplicateGroups_iff)
next
  show "sorted_wrt (\<lambda>a b. entry_size b \<le> entry_size a) (getDuplicateGroups sid db)"
    by (rule getDuplicateGroups_order(1))
next
  show "distinct (map fst (getDuplicateGroups sid db))"
    by (rule getDuplicateGroups_order(2))
next
  show "sorted (rev (map fst (filter (\<lambda>e. entry_size e = k) (getDuplicateGroups sid db))))"
    by (rule getDuplicateGroups_order(3))
qed

theorem C4_index_groups_witness:
  "files_tbl (open_database Map.empty (choose_dbPath demo_env demo_opts)) = []
   \<and> distinct (map path (scanned_files demo_env demo_opts ''/d'' demo_tree4))
   \<and> fst (findDuplicates demo_env demo_opts Map.empty ''/d'' (Some demo_tree4)) =
       Inr ([[demo_record ''/d/a.txt'' ''a.txt'', demo_record ''/d/b.txt'' ''b.txt''],
             [demo_record3 ''/d/c.txt'' ''c.txt'', demo_record3 ''/d/g.txt'' ''g.txt'']],
            ''/d/.super-dee-duper.abababab'', 1)
   \<and> (\<exists>g js. (g, js) \<in> set (getDuplicateGroups 1
          (index_after (findDuplicates demo_env demo_opts Map.empty ''/d'' (Some demo_tree4))
             ''/d/.super-dee-duper.abababab'')) \<and>
        (\<forall>f\<in>set [demo_record3 ''/d/c.txt'' ''c.txt'', demo_record3 ''/d/g.txt'' ''g.txt''].
           hash f = Some g) \<and>
        set (map path [demo_record3 ''/d/c.txt'' ''c.txt'', demo_record3 ''/d/g.txt'' ''g.txt''])
          = set (map json_path js) \<and>
        length [demo_record3 ''/d/c.txt'' ''c.txt'', demo_record3 ''/d/g.txt'' ''g.txt'']
          = length js)
   \<and> sorted_wrt (\<lambda>a b. entry_size b \<le> entry_size a) (getDuplicateGroups 1
          (index_after (findDuplicates demo_env demo_opts Map.empty ''/d'' (Some demo_tree4))
             ''/d/.super-dee-duper.abababab''))
   \<and> distinct (map fst (getDuplicateGroups 1
          (index_after (findDuplicates demo_env demo_opts Map.empty ''/d'' (Some demo_tree4))
             ''/d/.super-dee-duper.abababab'')))
   \<and> sorted (rev (map fst (filter (\<lambda>e. entry_size e = 5) (getDuplicateGroups 1
          (index_after (findDuplicates demo_env demo_opts Map.empty ''/d'' (Some demo_tree4))
             ''/d/.super-dee-duper.abababab'')))))"
proof -
  let ?run = "findDuplicates demo_env demo_opts Map.empty ''/d'' (Some demo_tree4)"
  let ?G = "[demo_record3 ''/d/c.txt'' ''c.txt'', demo_record3 ''/d/g.txt'' ''g.txt'']"
  let ?R = "[[demo_record ''/d/a.txt'' ''a.txt'', demo_record ''/d/b.txt'' ''b.txt''], ?G]"
  let ?p = "''/d/.super-dee-duper.abababab''"
  note T = C4_index_groups [where env = demo_env and opts = demo_opts and d = Map.empty
      and dir = "''/d''" and ents = demo_tree4 and result = ?R and dbPath = ?p and scanId = 1
      and sid = 1 and db = "index_after ?run ?p" and k = 5]
  have h1: "files_tbl (open_database Map.empty (choose_dbPath demo_env demo_opts)) = []"
    by (rule demo_fresh)
  have h2: "distinct (map path (scanned_files demo_env demo_opts ''/d'' demo_tree4))"
    by (simp add: demo_files4 demo_record_def demo_record3_def)
  have h3: "fst ?run = Inr (?R, ?p, 1)" by (rule demo_run4)
  note both = T [THEN conjunct1, THEN mp, OF conjI [OF h1 conjI [OF h2 h3]]]
  have m: "?G \<in> set ?R" by simp
  from both [THEN conjunct2] m
  have y: "\<exists>g js. (g, js) \<in> set (getDuplicateGroups 1 (index_after ?run ?p)) \<and>
      (\<forall>f\<in>set ?G. hash f = Some g) \<and>
      set (map path ?G) = set (map json_path js) \<and> length ?G = length js"
    by (rule bspec)
  note rest = T [THEN conjunct2, THEN conjunct2]
  show ?thesis
    by (rule conjI [OF h1 conjI [OF h2 conjI [OF h3 conjI [OF y rest]]]])
qed

text \<open>
  The example of two groups of equal size.  The directory lists \<^verbatim>\<open>a.txt\<close>, \<^verbatim>\<open>b.txt\<close>
  (both ``hello'') and then \<^verbatim>\<open>c.txt\<close>, \<^verbatim>\<open>g.txt\<close> (both ``world''), all of five bytes.
  The result in memory has the group of \<^verbatim>\<open>a.txt\<close> first, the group discovered first;
  the query on the index the same call wrote has the group of \<^verbatim>\<open>c.txt\<close> first, the
  larger group id.
\<close>

theorem C4_tie_order_counterexample:
  "fst (findDuplicates demo_env demo_opts Map.empty ''/d'' (Some demo_tree4)) =
       Inr ([[demo_record ''/d/a.txt'' ''a.txt'', demo_record ''/d/b.txt'' ''b.txt''],
             [demo_record3 ''/d/c.txt'' ''c.txt'', demo_record3 ''/d/g.txt'' ''g.txt'']],
            ''/d/.super-dee-duper.abababab'', 1)
   \<and> memory_paths (fst (findDuplicates demo_env demo_opts Map.empty ''/d'' (Some demo_tree4))) =
       [[''/d/a.txt'', ''/d/b.txt''], [''/d/c.txt'', ''/d/g.txt'']]
   \<and> index_paths 1 (index_after (findDuplicates demo_env demo_opts Map.empty ''/d''
        (Some demo_tree4)) ''/d/.super-dee-duper.abababab'') =
       [[''/d/c.txt'', ''/d/g.txt''], [''/d/a.txt'', ''/d/b.txt'']]
   \<and> map entry_size (getDuplicateGroups 1 (index_after (findDuplicates demo_env demo_opts
        Map.empty ''/d'' (Some demo_tree4)) ''/d/.super-dee-duper.abababab'')) = [5, 5]
   \<and> map (map fsize) [[demo_record ''/d/a.txt'' ''a.txt'', demo_record ''/d/b.txt'' ''b.txt''],
        [demo_record3 ''/d/c.txt'' ''c.txt'', demo_record3 ''/d/g.txt'' ''g.txt'']] = [[5, 5], [5, 5]]"
proof -
  have m: "memory_paths (fst (findDuplicates demo_env demo_opts Map.empty ''/d''
      (Some demo_tree4))) = [[''/d/a.txt'', ''/d/b.txt''], [''/d/c.txt'', ''/d/g.txt'']]"
    unfolding demo_run4 by (simp add: memory_paths_def demo_record_def demo_record3_def)
  have s: "map entry_size (getDuplicateGroups 1 (index_after (findDuplicates demo_env demo_opts
        Map.empty ''/d'' (Some demo_tree4)) ''/d/.super-dee-duper.abababab'')) = [5, 5]"
    by (simp add: getDuplicateGroups_def scan_group_rows_def demo_index4
      group_by_group_id_def List.map_filter_def file_row_of_def hash_order bare_size_def
      json_object_def entry_size_def demo_record_def demo_record3_def)
  have z: "map (map fsize) [[demo_record ''/d/a.txt'' ''a.txt'', demo_record ''/d/b.txt'' ''b.txt''],
        [demo_record3 ''/d/c.txt'' ''c.txt'', demo_record3 ''/d/g.txt'' ''g.txt'']] = [[5, 5], [5, 5]]"
    by (simp add: demo_record_def demo_record3_def)
  show ?thesis
    by (rule conjI [OF demo_run4 conjI [OF m conjI [OF demo_index_paths4 conjI [OF s z]]]])
qed

section \<open>A scan into an index that has rows of the same paths\<close>

text \<open>
  \<^verbatim>\<open>findDuplicates\<close> finds the row of a hashed file by its path alone.  When the index
  already has a row of that path, from an earlier scan, that row gets the hash and the
  group id, and the row of the running scan keeps none.
\<close>

lemma row_key_maps:
  assumes "map row_key xs = map row_key ys"
  shows "map row_id xs = map row_id ys" "map row_path xs = map row_path ys"
    "map scan_id xs = map scan_id ys"
proof -
  from arg_cong [OF assms, of "map fst"] show "map row_id xs = map row_id ys"
    by (simp add: comp_def row_key_def)
  from arg_cong [OF assms, of "map (\<lambda>k. fst (snd k))"] show "map row_path xs = map row_path ys"
    by (simp add: comp_def row_key_def)
  from arg_cong [OF assms, of "map (\<lambda>k. snd (snd k))"] show "map scan_id xs = map scan_id ys"
    by (simp add: comp_def row_key_def)
qed

lemma find_prefix: "find P xs = Some x \<Longrightarrow> find P (xs @ ys) = Some x"
  by (induction xs) (auto split: if_splits)

lemma storeFileHash_prefix:
  assumes t: "files_tbl (st_db s) = old @ new"
    and di: "distinct (map row_id (old @ new))"
    and p: "path f \<in> row_path ` set old"
  shows "\<exists>old'. files_tbl (st_db (storeFileHash f s)) = old' @ new \<and>
    map row_key old' = map row_key old"
proof -
  from p have "find (\<lambda>r. row_path r = path f) old \<noteq> None"
    by (auto simp: find_None_iff)
  then obtain r0 where f0: "find (\<lambda>r. row_path r = path f) old = Some r0" by blast
  then have r0: "r0 \<in> set old" by (auto simp: find_Some_iff)
  from f0 have fa: "find (\<lambda>r. row_path r = path f) (old @ new) = Some r0"
    by (rule find_prefix)
  show ?thesis
  proof (cases "row_id r0 = 0")
    case True
    with fa t have "storeFileHash f s = s"
      by (simp add: storeFileHash_def select_id_by_path_def)
    with t show ?thesis by auto
  next
    case False
    let ?U = "\<lambda>r. if row_id r = row_id r0 then r\<lparr>full_hash := hash f, group_id := hash f\<rparr> else r"
    from fa t False have tb: "files_tbl (st_db (storeFileHash f s)) = map ?U old @ map ?U new"
      by (simp add: storeFileHash_def select_id_by_path_def updateFileHash_def Let_def)
    from di r0 have "\<forall>r\<in>set new. row_id r \<noteq> row_id r0" by auto
    then have "map ?U new = new" by (simp add: map_idI)
    moreover have "map row_key (map ?U old) = map row_key old"
      by (simp add: comp_def row_key_def)
    ultimately show ?thesis using tb by auto
  qed
qed

lemma hashGroupFiles_prefix:
  assumes "files_tbl (st_db s) = old @ new"
    and "distinct (map row_id (old @ new))"
    and "\<forall>f\<in>set fs. path f \<in> row_path ` set old"
  shows "\<exists>old'. files_tbl (st_db (snd (hashGroupFiles env fs s))) = old' @ new \<and>
    map row_key old' = map row_key old"
  using assms
proof (induction fs arbitrary: s old)
  case Nil
  then show ?case by auto
next
  case (Cons f fs)
  show ?case
  proof (cases "fullDigest env (path f)")
    case (Inl e)
    with Cons.prems(1) show ?thesis by (auto simp: log_events_def)
  next
    case (Inr h)
    let ?s1 = "log_events [FullRead (path f)] s"
    let ?f = "f\<lparr>hash := Some h\<rparr>"
    have t1: "files_tbl (st_db ?s1) = old @ new" using Cons.prems(1) by (simp add: log_events_def)
    from Cons.prems(3) have pf: "path ?f \<in> row_path ` set old" by simp
    from storeFileHash_prefix [OF t1 Cons.prems(2) pf] obtain old1
      where t2: "files_tbl (st_db (storeFileHash ?f ?s1)) = old1 @ new"
        and k1: "map row_key old1 = map row_key old" by blast
    from row_key_maps [OF k1] have ids: "map row_id old1 = map row_id old"
      and paths: "map row_path old1 = map row_path old" by simp_all
    from ids Cons.prems(2) have d2: "distinct (map row_id (old1 @ new))" by simp
    from paths have "row_path ` set old1 = row_path ` set old" by (metis set_map)
    with Cons.prems(3) have p2: "\<forall>f\<in>set fs. path f \<in> row_path ` set old1" by simp
    from Cons.IH [OF t2 d2 p2] obtain old2
      where "files_tbl (st_db (snd (hashGroupFiles env fs (storeFileHash ?f ?s1)))) = old2 @ new"
        and "map row_key old2 = map row_key old1" by blast
    moreover have "snd (hashGroupFiles env (f # fs) s) =
        snd (hashGroupFiles env fs (storeFileHash ?f ?s1))"
      using Inr by (simp add: Let_def split: prod.splits sum.splits)
    ultimately show ?thesis using k1 by auto
  qed
qed

lemma processQuick_prefix:
  assumes "files_tbl (st_db s) = old @ new"
    and "distinct (map row_id (old @ new))"
    and "\<forall>f\<in>set (concat qgs). path f \<in> row_path ` set old"
  shows "\<exists>old'. files_tbl (st_db (snd (processQuickHashGroups env sid n qgs acc s))) = old' @ new \<and>
    map row_key old' = map row_key old"
  using assms
proof (induction qgs arbitrary: acc s old)
  case Nil
  then show ?case by auto
next
  case (Cons q qgs)
  from Cons.prems(3) have rest: "\<forall>f\<in>set (concat qgs). path f \<in> row_path ` set old"
    and here: "\<forall>f\<in>set q. path f \<in> row_path ` set old" by auto
  show ?case
  proof (cases "1 < length q")
    case False
    with Cons.IH [OF Cons.prems(1,2) rest, of acc] show ?thesis by simp
  next
    case True
    obtain r s' where h: "hashGroupFiles env q s = (r, s')"
      by (cases "hashGroupFiles env q s")
    from hashGroupFiles_prefix [OF Cons.prems(1,2) here, of env] h obtain old1
      where t1: "files_tbl (st_db s') = old1 @ new"
        and k1: "map row_key old1 = map row_key old" by auto
    show ?thesis
    proof (cases r)
      case (Inl e)
      with True h t1 k1 show ?thesis by auto
    next
      case (Inr hashed)
      let ?acc = "pushDuplicates hashed acc"
      let ?s = "reportHashing sid n (snd ?acc) s'"
      from t1 reportHashing_frame [of sid n "snd ?acc" s']
      have t2: "files_tbl (st_db ?s) = old1 @ new" by simp
      from row_key_maps [OF k1] have ids: "map row_id old1 = map row_id old"
        and paths: "map row_path old1 = map row_path old" by simp_all
      from ids Cons.prems(2) have d2: "distinct (map row_id (old1 @ new))" by simp
      from paths have "row_path ` set old1 = row_path ` set old" by (metis set_map)
      with rest have p2: "\<forall>f\<in>set (concat qgs). path f \<in> row_path ` set old1" by simp
      from Cons.IH [OF t2 d2 p2, of ?acc] obtain old2
        where "files_tbl (st_db (snd (processQuickHashGroups env sid n qgs ?acc ?s))) =
            old2 @ new"
          and "map row_key old2 = map row_key old1" by blast
      moreover have "snd (processQuickHashGroups env sid n (q # qgs) acc s) =
          snd (processQuickHashGroups env sid n qgs ?acc ?s)"
        using True h Inr by (simp add: Let_def)
      ultimately show ?thesis using k1 by auto
    qed
  qed
qed

lemma set_concat_groups: "set (concat (map snd (group_by key xs []))) = set xs"
  unfolding groups_closed by (auto simp: first_keys_def)

lemma processSize_prefix:
  assumes "files_tbl (st_db s) = old @ new"
    and "distinct (map row_id (old @ new))"
    and "\<forall>f\<in>set (concat sgs). path f \<in> row_path ` set old"
  shows "\<exists>old'. files_tbl (st_db (snd (processSizeGroups env sid n sgs acc s))) = old' @ new \<and>
    map row_key old' = map row_key old"
  using assms
proof (induction sgs arbitrary: acc s old)
  case Nil
  then show ?case by auto
next
  case (Cons g sgs)
  let ?qs = "map snd (group_by quickHash g [])"
  from Cons.prems(3) have rest: "\<forall>f\<in>set (concat sgs). path f \<in> row_path ` set old"
    and "\<forall>f\<in>set g. path f \<in> row_path ` set old" by auto
  then have here: "\<forall>f\<in>set (concat ?qs). path f \<in> row_path ` set old"
    by (simp only: set_concat_groups)
  obtain r s' where h: "processQuickHashGroups env sid n ?qs acc s = (r, s')"
    by (cases "processQuickHashGroups env sid n ?qs acc s")
  from processQuick_prefix [OF Cons.prems(1,2) here, of env sid n acc] h obtain old1
    where t1: "files_tbl (st_db s') = old1 @ new"
      and k1: "map row_key old1 = map row_key old" by auto
  show ?case
  proof (cases r)
    case (Inl e)
    with h t1 k1 show ?thesis by (auto simp: Let_def)
  next
    case (Inr acc')
    from row_key_maps [OF k1] have ids: "map row_id old1 = map row_id old"
      and paths: "map row_path old1 = map row_path old" by simp_all
    from ids Cons.prems(2) have d2: "distinct (map row_id (old1 @ new))" by simp
    from paths have "row_path ` set old1 = row_path ` set old" by (metis set_map)
    with rest have p2: "\<forall>f\<in>set (concat sgs). path f \<in> row_path ` set old1" by simp
    from Cons.IH [OF t1 d2 p2, of acc'] obtain old2
      where "files_tbl (st_db (snd (processSizeGroups env sid n sgs acc' s'))) = old2 @ new"
        and "map row_key old2 = map row_key old1" by blast
    moreover have "snd (processSizeGroups env sid n (g # sgs) acc s) =
        snd (processSizeGroups env sid n sgs acc' s')"
      using h Inr by (simp add: Let_def)
    ultimately show ?thesis using k1 by auto
  qed
qed

lemma classify_prefix:
  assumes "files_tbl (st_db s) = old @ new"
    and "distinct (map row_id (old @ new))"
    and "\<forall>f\<in>set files. path f \<in> row_path ` set old"
  shows "\<exists>old'. files_tbl (st_db (snd (classify env sid files s))) = old' @ new \<and>
    map row_key old' = map row_key old"
proof -
  have "set (concat (potentialDuplicates files)) \<subseteq> set files"
    using set_concat_groups [of fsize files]
    by (auto simp: potentialDuplicates_def sizeGroups_def)
  with assms(3) have "\<forall>f\<in>set (concat (potentialDuplicates files)). path f \<in> row_path ` set old"
    by blast
  from processSize_prefix [OF assms(1,2) this] show ?thesis
    unfolding snd_classify .
qed

lemma findDuplicates_tbl:
  obtains s1 where
    "files_tbl (st_db s1) = append_rows (new_scan_id env opts d) (scanned_files env opts dir ents)
       (files_tbl (open_database d (choose_dbPath env opts)))"
    and "files_tbl (index_after (scanWithIndex env opts d dir (Some ents)) (choose_dbPath env opts))
       = files_tbl (st_db (snd (classify env (new_scan_id env opts d)
           (scanned_files env opts dir ents) s1)))"
proof -
  let ?p = "choose_dbPath env opts"
  let ?db = "open_database d ?p"
  let ?fs = "scanned_files env opts dir ents"
  obtain sid db1 where st: "startScan (path_resolve env dir) (date_now env 0) ?db = (sid, db1)"
    by (cases "startScan (path_resolve env dir) (date_now env 0) ?db")
  from startScan_effect [OF st]
  have sid: "sid = new_scan_id env opts d" and f1: "files_tbl db1 = files_tbl ?db"
    by (simp_all add: new_scan_id_def)
  let ?s0 = "\<lparr>st_db = db1, st_trace = []\<rparr>"
  obtain r s1 where sc: "scanDirectory env (recursive opts) (exclude opts) sid dir (Some ents) ?s0
      = (r, s1)"
    by (cases "scanDirectory env (recursive opts) (exclude opts) sid dir (Some ents) ?s0")
  from walk_db(1) [of env "recursive opts" "exclude opts" sid dir "Some ents" ?s0] sc f1
  have t1: "files_tbl (st_db s1) = append_rows sid ?fs (files_tbl ?db)"
    by (simp add: scanned_files_def)
  from walk_files(1) [of env "recursive opts" "exclude opts" sid dir "Some ents" ?s0] sc
  have rr: "r = Inr ?fs" by (simp add: scanned_files_def)
  obtain c s2 where cl: "classify env sid ?fs s1 = (c, s2)"
    by (cases "classify env sid ?fs s1")
  have "files_tbl (index_after (scanWithIndex env opts d dir (Some ents)) ?p) =
      files_tbl (st_db s2)"
  proof (cases c)
    case (Inl e)
    have "fst (snd (scanWithIndex env opts d dir (Some ents))) = d(?p \<mapsto> st_db s2)"
      unfolding scanWithIndex_def Let_def st prod.case sc rr using cl Inl by simp
    then show ?thesis by (simp add: index_after_def open_database_def)
  next
    case (Inr result)
    let ?db3 = "completeScan sid (date_now env 1) (st_db s2)"
    have "fst (snd (scanWithIndex env opts d dir (Some ents))) = d(?p \<mapsto> ?db3)"
      unfolding scanWithIndex_def Let_def st prod.case sc rr using cl Inr by simp
    then have "index_after (scanWithIndex env opts d dir (Some ents)) ?p = ?db3"
      by (simp add: index_after_def open_database_def)
    with completeScan_frame [of sid "date_now env 1" "st_db s2"] show ?thesis by simp
  qed
  with cl sid have "files_tbl (index_after (scanWithIndex env opts d dir (Some ents)) ?p) =
      files_tbl (st_db (snd (classify env (new_scan_id env opts d) ?fs s1)))"
    by simp
  with t1 sid show thesis by (intro that [of s1]) simp_all
qed

text \<open>
  A scan into an index that already has a row for every path of the walk: the query for
  the new scan returns no group, whatever the result in memory.  The rows of the index
  have distinct ids other than 0 and belong to scans of the index.
\<close>

lemma rescan_no_groups:
  assumes ids: "distinct (map row_id (files_tbl (open_database d (choose_dbPath env opts))))"
      "0 \<notin> set (map row_id (files_tbl (open_database d (choose_dbPath env opts))))"
    and old: "path ` set (scanned_files env opts dir ents) \<subseteq>
      row_path ` set (files_tbl (open_database d (choose_dbPath env opts)))"
    and fk: "\<forall>r\<in>set (files_tbl (open_database d (choose_dbPath env opts))).
      scan_id r \<in> set (map info_id (scan_info_tbl (open_database d (choose_dbPath env opts))))"
  shows "getDuplicateGroups (new_scan_id env opts d)
    (index_after (scanWithIndex env opts d dir (Some ents)) (choose_dbPath env opts)) = []"
proof -
  let ?p = "choose_dbPath env opts"
  let ?t0 = "files_tbl (open_database d ?p)"
  let ?sid = "new_scan_id env opts d"
  let ?fs = "scanned_files env opts dir ents"
  let ?db = "index_after (scanWithIndex env opts d dir (Some ents)) ?p"
  have "?sid \<notin> set (map info_id (scan_info_tbl (open_database d ?p)))"
    unfolding new_scan_id_def by (rule next_rowid_fresh(1))
  with fk have other: "\<forall>r\<in>set ?t0. scan_id r \<noteq> ?sid" by metis
  obtain s1 where t1: "files_tbl (st_db s1) = append_rows ?sid ?fs ?t0"
    and t2: "files_tbl ?db = files_tbl (st_db (snd (classify env ?sid ?fs s1)))"
    by (rule findDuplicates_tbl)
  from append_rows_new [of ?sid ?fs ?t0] obtain new
    where a: "append_rows ?sid ?fs ?t0 = ?t0 @ new"
      and n: "\<forall>r\<in>set new. scan_id r = ?sid \<and> group_id r = None" by blast
  from append_rows_ids [OF ids, of ?sid ?fs] a
  have di: "distinct (map row_id (?t0 @ new))" by simp
  from t1 a have t1': "files_tbl (st_db s1) = ?t0 @ new" by simp
  from old have "\<forall>f\<in>set ?fs. path f \<in> row_path ` set ?t0" by blast
  from classify_prefix [OF t1' di this, of env ?sid] obtain old'
    where c: "files_tbl (st_db (snd (classify env ?sid ?fs s1))) = old' @ new"
      and k: "map row_key old' = map row_key ?t0" by blast
  from row_key_maps(3) [OF k] have "scan_id ` set old' = scan_id ` set ?t0" by (metis set_map)
  with other have o': "\<forall>r\<in>set old'. scan_id r \<noteq> ?sid" by (metis imageE imageI)
  from o' n have "scan_group_rows ?sid ?db = []"
    unfolding scan_group_rows_def t2 c by (auto simp: filter_empty_conv)
  then show ?thesis
    by (simp add: getDuplicateGroups_def group_by_group_id_def List.map_filter_def)
qed

text \<open>
  The example: the first listing scanned twice into the index \<^verbatim>\<open>/d/idx\<close>.  The second
  run returns the group of \<^verbatim>\<open>a.txt\<close> and \<^verbatim>\<open>b.txt\<close> in memory, and the query for its
  scan id, 2, on the index it leaves returns no group.
\<close>

lemma demo_idx_files:
  "scanned_files demo_env demo_opts_idx dir ents = scanned_files demo_env demo_opts dir ents"
  by (simp add: scanned_files_def demo_opts_idx_def demo_opts_def)

lemma demo_idx_path: "choose_dbPath demo_env demo_opts_idx = ''/d/idx''"
  by (simp add: choose_dbPath_def demo_opts_idx_def)

lemma demo_idx_first_id: "new_scan_id demo_env demo_opts_idx Map.empty = 1"
  by (simp add: new_scan_id_def open_database_def empty_database_def next_rowid_def)

lemma demo_ok:
  "\<forall>f\<in>set (concat (candidates (scanned_files demo_env demo_opts ''/d'' demo_tree))).
      \<not> isl (fullDigest demo_env (path f))"
  by (simp add: demo_candidates demo_record_def demo_full)

lemma demo_idx_opened:
  "findDuplicates demo_env demo_opts_idx d dir listing =
     scanWithIndex demo_env demo_opts_idx d dir listing"
  by (rule findDuplicates_opened) (simp add: demo_idx_path, simp add: demo_env_def)

lemma demo_rescan:
  "fst (findDuplicates demo_env demo_opts_idx
      (fst (snd (findDuplicates demo_env demo_opts_idx Map.empty ''/d'' (Some demo_tree))))
      ''/d'' (Some demo_tree)) =
     Inr ([[demo_record ''/d/a.txt'' ''a.txt'', demo_record ''/d/b.txt'' ''b.txt'']],
          ''/d/idx'', 2)
   \<and> getDuplicateGroups 2 (index_after (findDuplicates demo_env demo_opts_idx
      (fst (snd (findDuplicates demo_env demo_opts_idx Map.empty ''/d'' (Some demo_tree))))
      ''/d'' (Some demo_tree)) ''/d/idx'') = []"
proof -
  have w:
    "fst (scanWithIndex demo_env demo_opts_idx
        (fst (snd (scanWithIndex demo_env demo_opts_idx Map.empty ''/d'' (Some demo_tree))))
        ''/d'' (Some demo_tree)) =
       Inr ([[demo_record ''/d/a.txt'' ''a.txt'', demo_record ''/d/b.txt'' ''b.txt'']],
            ''/d/idx'', 2)
     \<and> getDuplicateGroups 2 (index_after (scanWithIndex demo_env demo_opts_idx
        (fst (snd (scanWithIndex demo_env demo_opts_idx Map.empty ''/d'' (Some demo_tree))))
        ''/d'' (Some demo_tree)) ''/d/idx'') = []"
  proof -
    let ?r1 = "scanWithIndex demo_env demo_opts_idx Map.empty ''/d'' (Some demo_tree)"
    let ?d1 = "fst (snd ?r1)"
    let ?fs = "scanned_files demo_env demo_opts ''/d'' demo_tree"
    obtain db where d1: "?d1 = Map.empty(choose_dbPath demo_env demo_opts_idx \<mapsto> db)"
      and keys: "scan_keys db =
        scan_keys (open_database Map.empty (choose_dbPath demo_env demo_opts_idx)) @
        [(new_scan_id demo_env demo_opts_idx Map.empty, path_resolve demo_env ''/d'')]"
      by (rule findDuplicates_disk [of demo_env demo_opts_idx Map.empty "''/d''" "Some demo_tree"])
    from d1 have od: "open_database ?d1 ''/d/idx'' = db"
      by (simp add: open_database_def demo_idx_path)
    from keys have "map fst (scan_keys db) = [1]"
      by (simp add: demo_idx_first_id open_database_def empty_database_def scan_keys_def)
    then have infos: "map info_id (scan_info_tbl db) = [1]"
      by (simp add: scan_keys_def comp_def)
    have sid2: "new_scan_id demo_env demo_opts_idx ?d1 = 2"
      unfolding new_scan_id_def demo_idx_path od infos by (simp add: next_rowid_def)
    have dist: "distinct (map path (scanned_files demo_env demo_opts_idx ''/d'' demo_tree))"
      by (simp add: demo_idx_files demo_files demo_record_def)
    have ok: "\<forall>f\<in>set (concat (candidates (scanned_files demo_env demo_opts_idx ''/d'' demo_tree))).
        \<not> isl (fullDigest demo_env (path f))"
      unfolding demo_idx_files by (rule demo_ok)
    have fresh: "files_tbl (open_database Map.empty (choose_dbPath demo_env demo_opts_idx)) = []"
      by (simp add: open_database_def empty_database_def)
    have "files_tbl db = files_tbl (index_after ?r1 (choose_dbPath demo_env demo_opts_idx))"
      using od by (simp add: index_after_def demo_idx_path)
    also have "\<dots> = mark_rows demo_env (path ` set (concat (candidates ?fs)))
        (append_rows 1 ?fs [])"
      using findDuplicates_fresh_rows [OF fresh dist ok]
      by (simp only: demo_idx_files demo_idx_first_id)
    finally have tbl: "files_tbl db = mark_rows demo_env (path ` set (concat (candidates ?fs)))
        (append_rows 1 ?fs [])" .
    have rows: "map row_key (files_tbl db) =
        [(1, ''/d/a.txt'', 1), (2, ''/d/b.txt'', 1), (3, ''/d/c.txt'', 1)]"
      unfolding tbl
      by (simp add: demo_files next_rowid_def file_row_of_def mark_rows_def row_key_def
          demo_record_def comp_def)
    from arg_cong [OF rows, of "map fst"]
    have rid: "map row_id (files_tbl db) = [1, 2, 3]"
      by (simp add: comp_def row_key_def)
    from arg_cong [OF rows, of "map (\<lambda>k. fst (snd k))"]
    have rpath: "map row_path (files_tbl db) = [''/d/a.txt'', ''/d/b.txt'', ''/d/c.txt'']"
      by (simp add: comp_def row_key_def)
    from arg_cong [OF rows, of "map (\<lambda>k. snd (snd k))"]
    have rscan: "map scan_id (files_tbl db) = [1, 1, 1]"
      by (simp add: comp_def row_key_def)
    have h1: "distinct (map row_id (files_tbl (open_database ?d1
        (choose_dbPath demo_env demo_opts_idx))))"
      unfolding demo_idx_path od rid by simp
    have h2: "0 \<notin> set (map row_id (files_tbl (open_database ?d1
        (choose_dbPath demo_env demo_opts_idx))))"
      unfolding demo_idx_path od rid by simp
    have "path ` set (scanned_files demo_env demo_opts_idx ''/d'' demo_tree) \<subseteq>
        set (map row_path (files_tbl db))"
      unfolding rpath by (simp add: demo_idx_files demo_files demo_record_def)
    then have h3: "path ` set (scanned_files demo_env demo_opts_idx ''/d'' demo_tree) \<subseteq>
        row_path ` set (files_tbl (open_database ?d1 (choose_dbPath demo_env demo_opts_idx)))"
      unfolding demo_idx_path od by simp
    have "set (map scan_id (files_tbl db)) \<subseteq> set (map info_id (scan_info_tbl db))"
      unfolding rscan infos by simp
    then have h4: "\<forall>r\<in>set (files_tbl (open_database ?d1 (choose_dbPath demo_env demo_opts_idx))).
        scan_id r \<in> set (map info_id (scan_info_tbl (open_database ?d1
          (choose_dbPath demo_env demo_opts_idx))))"
      unfolding demo_idx_path od by auto
    from rescan_no_groups [OF h1 h2 h3 h4]
    have g: "getDuplicateGroups 2 (index_after (scanWithIndex demo_env demo_opts_idx ?d1 ''/d''
        (Some demo_tree)) ''/d/idx'') = []"
      by (simp only: sid2 demo_idx_path)
    from findDuplicates_result [OF ok, of ?d1]
    have r: "fst (scanWithIndex demo_env demo_opts_idx ?d1 ''/d'' (Some demo_tree)) =
       Inr ([[demo_record ''/d/a.txt'' ''a.txt'', demo_record ''/d/b.txt'' ''b.txt'']],
            ''/d/idx'', 2)"
      by (simp add: demo_idx_files demo_discovery demo_idx_path sid2 sort_groups_def)
    show ?thesis by (rule conjI [OF r g])
  qed
  show ?thesis unfolding demo_idx_opened by (rule w)
qed

end
